(* ===== verification/Prelude.thy ===== *)
theory Prelude
  imports Main "HOL-Library.Word" "HOL-Library.Monad_Syntax"
begin

text \<open>
  Shared vocabulary of the Pintos development: the machine types of a 32-bit x86 kernel, the
  treatment of a failed \<^verbatim>\<open>ASSERT\<close> as the value \<^term>\<open>None\<close>, and the generic facts on the option
  monad, on words and on lists that several components use.

  Throughout, a C function that can panic (a failed \<^verbatim>\<open>ASSERT\<close>, \<^verbatim>\<open>PANIC\<close>, \<^verbatim>\<open>NOT_REACHED\<close>), trap or
  loop for ever is a function into \<^typ>\<open>'a option\<close>: \<^term>\<open>Some r\<close> is a normal return with result
  \<^term>\<open>r\<close>, \<^term>\<open>None\<close> is every way of not returning.
\<close>

unbundle bit_operations_syntax

type_synonym u8 = "8 word"
type_synonym u16 = "16 word"
type_synonym u32 = "32 word"
type_synonym u64 = "64 word"

named_theorems panic_simps \<open>evaluation of the failure monad\<close>
named_theorems width_simps \<open>reading machine words as numbers\<close>

section \<open>Assertions\<close>

text \<open>\<^verbatim>\<open>lib/debug.h\<close>: \<^verbatim>\<open>ASSERT (CONDITION)\<close> panics the kernel when the condition is false.\<close>

definition ASSERT :: "bool \<Rightarrow> unit option" where
  "ASSERT c = (if c then Some () else None)"

lemma ASSERT_True [simp, panic_simps]: "ASSERT True = Some ()"
  by (simp add: ASSERT_def)

lemma ASSERT_False [simp, panic_simps]: "ASSERT False = None"
  by (simp add: ASSERT_def)

lemma ASSERT_Some [simp]: "ASSERT c = Some u \<longleftrightarrow> c"
  by (cases c) auto

lemma ASSERT_bind_eq: "(ASSERT c \<bind> f) = (if c then f () else None)"
  by (simp add: ASSERT_def)

lemma ASSERT_bind_Some_iff [panic_simps]:
  "(ASSERT c \<bind> f) = Some y \<longleftrightarrow> c \<and> f () = Some y"
  by (simp add: ASSERT_def)

lemma ASSERT_bindI [intro]: "c \<Longrightarrow> f () = Some y \<Longrightarrow> (ASSERT c \<bind> f) = Some y"
  by (simp add: ASSERT_def)

lemma bind_SomeI: "m = Some x \<Longrightarrow> f x = Some y \<Longrightarrow> (m \<bind> f) = Some y"
  by simp

section \<open>Words\<close>

lemma unat_lt_32: "unat (x :: u32) < 4294967296"
  using unsigned_less [of x, where 'a = nat] by simp

lemma unat_lt_64: "unat (x :: u64) < 18446744073709551616"
  using unsigned_less [of x, where 'a = nat] by simp

lemma unat_lt_8: "unat (x :: u8) < 256"
  using unsigned_less [of x, where 'a = nat] by simp

lemma unat_eq_iff: "(x :: 'a::len word) = y \<longleftrightarrow> unat x = unat y"
  by (simp add: word_unat_eq_iff)

lemma unat_drop_bit [width_simps]: "unat (drop_bit n (x :: 'a::len word)) = unat x div 2 ^ n"
  by (rule trans [OF unat_drop_bit_eq drop_bit_eq_div])

lemma unat_push_bit_no_overflow [width_simps]:
  assumes "unat (x :: 'a::len word) * 2 ^ n < 2 ^ LENGTH('a)"
  shows "unat (push_bit n x) = unat x * 2 ^ n"
proof -
  have "unat (push_bit n x) = take_bit LENGTH('a) (unat x * 2 ^ n)"
    by (rule trans [OF unsigned_push_bit_eq]) (simp only: push_bit_eq_mult)
  then show ?thesis using assms by (simp add: take_bit_nat_eq_self)
qed

lemma unat_plus_no_overflow:
  "unat x + unat y < 2 ^ LENGTH('a) \<Longrightarrow> unat (x + y :: 'a::len word) = unat x + unat y"
  by (simp add: unat_word_ariths)

lemma unat_mult_no_overflow:
  "unat x * unat y < 2 ^ LENGTH('a) \<Longrightarrow> unat (x * y :: 'a::len word) = unat x * unat y"
  by (simp add: unat_word_ariths)

lemma unat_minus_no_underflow:
  "unat y \<le> unat x \<Longrightarrow> unat (x - y :: 'a::len word) = unat x - unat y"
  by (metis unat_sub word_le_nat_alt)

lemma unat_of_nat_32: "n < 2 ^ 32 \<Longrightarrow> unat (of_nat n :: u32) = n"
  by (simp add: unat_of_nat)

lemma unat_add_of_nat_32:
  "unat (a :: u32) + n < 2 ^ 32 \<Longrightarrow> unat (a + of_nat n) = unat a + n"
  by (simp add: unat_word_ariths unat_of_nat)

section \<open>Bounded loops\<close>

text \<open>
  A \<^verbatim>\<open>for\<close> loop over a range fixed on entry is a fold over the list of the loop variable's values that
  stops at the first panic.
\<close>

fun foldM :: "('a \<Rightarrow> 's \<Rightarrow> 's option) \<Rightarrow> 'a list \<Rightarrow> 's \<Rightarrow> 's option" where
  "foldM f [] s = Some s"
| "foldM f (x # xs) s = (f x s \<bind> foldM f xs)"

lemma foldM_append [simp]: "foldM f (xs @ ys) s = (foldM f xs s \<bind> foldM f ys)"
  by (induction xs arbitrary: s) (auto split: bind_splits)

lemma foldM_single [simp]: "foldM f [x] = f x"
proof (rule ext)
  fix s show "foldM f [x] s = f x s" by (cases "f x s") simp_all
qed

lemma foldM_preserves:
  assumes "foldM f xs s = Some s'" and "P s" and "\<And>x s s'. x \<in> set xs \<Longrightarrow> P s \<Longrightarrow> f x s = Some s' \<Longrightarrow> P s'"
  shows "P s'"
  using assms
proof (induction xs arbitrary: s)
  case (Cons x xs)
  then obtain s1 where "f x s = Some s1" "foldM f xs s1 = Some s'" by (auto split: bind_splits)
  with Cons show ?case by (metis list.set_intros)
qed simp

lemma foldM_invariant:
  assumes "P s" and "\<And>x s. x \<in> set xs \<Longrightarrow> P s \<Longrightarrow> \<exists>s'. f x s = Some s' \<and> P s'"
  shows "\<exists>s'. foldM f xs s = Some s' \<and> P s'"
  using assms
proof (induction xs arbitrary: s)
  case (Cons x xs)
  then obtain s1 where "f x s = Some s1" "P s1" by (meson list.set_intros(1))
  with Cons show ?case by simp
qed simp

text \<open>The loop rule with a counter: the invariant may mention how far the loop has come.\<close>

lemma foldM_upt:
  assumes "P 0 s" and "\<And>i s. i < n \<Longrightarrow> P i s \<Longrightarrow> \<exists>s'. f i s = Some s' \<and> P (Suc i) s'"
  shows "\<exists>s'. foldM f [0..<n] s = Some s' \<and> P n s'"
  using assms
proof (induction n)
  case (Suc n)
  then obtain s1 where "foldM f [0..<n] s = Some s1" "P n s1" by (meson less_SucI)
  with Suc.prems(2) [of n s1] show ?case by auto
qed simp

text \<open>A loop panics when some iteration panics in every state the earlier ones can leave.\<close>

lemma foldM_stuck:
  assumes "P s" and "\<And>x s s'. P s \<Longrightarrow> f x s = Some s' \<Longrightarrow> P s'"
    and "x \<in> set xs" and "\<And>s. P s \<Longrightarrow> f x s = None"
  shows "foldM f xs s = None"
  using assms(1,3)
proof (induction xs arbitrary: s)
  case (Cons y ys)
  show ?case
  proof (cases "f y s")
    case (Some s1)
    with Cons.prems(1) assms(4) have "x \<noteq> y" by auto
    with Some Cons show ?thesis using assms(2) [OF Cons.prems(1) Some] by simp
  qed simp
qed simp

section \<open>Lists\<close>

lemma find_append:
  "find P (xs @ ys) = (case find P xs of None \<Rightarrow> find P ys | Some x \<Rightarrow> Some x)"
  by (induction xs) auto

lemma find_SomeD: "find P xs = Some x \<Longrightarrow> x \<in> set xs \<and> P x"
  by (auto simp: find_Some_iff)

lemma find_eqI:
  assumes "x \<in> set xs" "P x" and "\<And>y. y \<in> set xs \<Longrightarrow> P y \<Longrightarrow> y = x"
  shows "find P xs = Some x"
proof (cases "find P xs")
  case None
  then show ?thesis using assms(1,2) unfolding find_None_iff by blast
next
  case (Some y)
  then have "y = x" using assms(3) find_SomeD by fast
  with Some show ?thesis by simp
qed

lemma find_upt_Some:
  "find P [m..<n] = Some i \<longleftrightarrow> m \<le> i \<and> i < n \<and> P i \<and> (\<forall>j. m \<le> j \<and> j < i \<longrightarrow> \<not> P j)"
proof (induction n)
  case (Suc n)
  show ?case
  proof (cases "m \<le> n")
    case True
    have "find P [m..<n] = None \<longleftrightarrow> (\<forall>j. m \<le> j \<and> j < n \<longrightarrow> \<not> P j)"
      by (auto simp: find_None_iff)
    then show ?thesis
      using True Suc.IH by (auto split: option.splits simp: less_Suc_eq find_append)
  qed auto
qed simp

end
