(* ===== verification/Arith64.thy ===== *)
theory Arith64
  imports Prelude "HOL-Library.Signed_Division"
begin

text \<open>
  The 64-bit division routines of \<^verbatim>\<open>lib/arithmetic.c\<close> that the compiler calls for \<^verbatim>\<open>/\<close> and \<^verbatim>\<open>%\<close> on
  \<^verbatim>\<open>long long\<close>: \<^verbatim>\<open>divl\<close>, \<^verbatim>\<open>nlz\<close>, \<^verbatim>\<open>udiv64\<close>, \<^verbatim>\<open>umod64\<close>, \<^verbatim>\<open>sdiv64\<close>, \<^verbatim>\<open>smod64\<close> and the four entry
  points GCC calls. A divide error (the trap of the x86 \<^verbatim>\<open>DIVL\<close> instruction) is \<^term>\<open>None\<close>.
\<close>

section \<open>The routines\<close>

text \<open>
  \<^verbatim>\<open>DIVL\<close> divides the 64-bit register pair by a 32-bit operand and traps when the divisor is zero
  or the quotient does not fit in 32 bits.
\<close>

definition divl :: "u64 \<Rightarrow> u32 \<Rightarrow> u32 option" where
  "divl n d =
     (let n1 = ucast (drop_bit 32 n) :: u32;
          n0 = ucast n :: u32;
          pair = unat n1 * 2 ^ 32 + unat n0
      in if d = 0 \<or> 2 ^ 32 \<le> pair div unat d then None
         else Some (of_nat (pair div unat d)))"

definition nlz :: "u32 \<Rightarrow> nat" where
  "nlz x0 =
     (let (n, x) = (0, x0);
          (n, x) = (if x \<le> 0x0000FFFF then (n + 16, push_bit 16 x) else (n, x));
          (n, x) = (if x \<le> 0x00FFFFFF then (n + 8, push_bit 8 x) else (n, x));
          (n, x) = (if x \<le> 0x0FFFFFFF then (n + 4, push_bit 4 x) else (n, x));
          (n, x) = (if x \<le> 0x3FFFFFFF then (n + 2, push_bit 2 x) else (n, x))
      in if x \<le> 0x7FFFFFFF then n + 1 else n)"

definition udiv64 :: "u64 \<Rightarrow> u64 \<Rightarrow> u64 option" where
  "udiv64 n d =
     (if drop_bit 32 d = 0 then
        (let b = push_bit 32 1 :: u64;
             n1 = ucast (drop_bit 32 n) :: u32;
             n0 = ucast n :: u32;
             d0 = ucast d :: u32
         in if d0 = 0 then None
            else do {
              q \<leftarrow> divl (b * ucast (n1 mod d0) + ucast n0) d0;
              Some (ucast q + b * ucast (n1 div d0))
            })
      else if n < d then Some 0
      else
        (let d1 = ucast (drop_bit 32 d) :: u32;
             s = nlz d1
         in do {
              q0 \<leftarrow> divl (drop_bit 1 n) (ucast (drop_bit 32 (push_bit s d)));
              let q = (ucast (drop_bit (31 - s) q0) :: u64);
              Some (if n - (q - 1) * d < d then q - 1 else q)
            }))"

definition umod64 :: "u64 \<Rightarrow> u64 \<Rightarrow> u32 option" where
  "umod64 n d = do { q \<leftarrow> udiv64 n d; Some (ucast (n - d * q)) }"

definition sdiv64 :: "u64 \<Rightarrow> u64 \<Rightarrow> u64 option" where
  "sdiv64 n d =
     (let n_abs = (if 0 \<le> sint n then n else - n);
          d_abs = (if 0 \<le> sint d then d else - d)
      in do {
           q_abs \<leftarrow> udiv64 n_abs d_abs;
           Some (if (sint n < 0) = (sint d < 0) then q_abs else - q_abs)
         })"

definition smod64 :: "u64 \<Rightarrow> u64 \<Rightarrow> u32 option" where
  "smod64 n d = do { q \<leftarrow> sdiv64 n d; Some (ucast (n - d * q)) }"

text \<open>
  The entry points GCC calls return \<^verbatim>\<open>long long\<close>: the 32-bit results of \<^verbatim>\<open>umod64\<close> and \<^verbatim>\<open>smod64\<close> are
  widened again, with zeros and with the sign respectively.
\<close>

definition divdi3 :: "u64 \<Rightarrow> u64 \<Rightarrow> u64 option" where
  "divdi3 n d = sdiv64 n d"

definition moddi3 :: "u64 \<Rightarrow> u64 \<Rightarrow> u64 option" where
  "moddi3 n d = map_option scast (smod64 n d)"

definition udivdi3 :: "u64 \<Rightarrow> u64 \<Rightarrow> u64 option" where
  "udivdi3 n d = udiv64 n d"

definition umoddi3 :: "u64 \<Rightarrow> u64 \<Rightarrow> u64 option" where
  "umoddi3 n d = map_option ucast (umod64 n d)"

section \<open>Leading zeros and the trapping division\<close>

lemma unat_ucast_drop_32: "unat (ucast (drop_bit 32 (n :: u64)) :: u32) = unat n div 2 ^ 32"
proof -
  have "unat n div 2 ^ 32 < 2 ^ 32"
    using unat_lt_64 [of n] by (simp add: div_less_iff_less_mult)
  then show ?thesis
    by (simp add: unsigned_ucast_eq width_simps take_bit_nat_eq_self)
qed

lemma unat_ucast_low_32: "unat (ucast (n :: u64) :: u32) = unat n mod 2 ^ 32"
  by (simp add: unsigned_ucast_eq take_bit_nat_def)

lemma unat_ucast_up_64: "unat (ucast (x :: u32) :: u64) = unat x"
  using unat_lt_32 [of x] by (simp add: unsigned_ucast_eq take_bit_nat_eq_self)

lemma divl_eq:
  "divl n d = (if d = 0 \<or> 2 ^ 32 \<le> unat n div unat d then None
               else Some (of_nat (unat n div unat d)))"
proof -
  have "unat (ucast (drop_bit 32 n) :: u32) * 2 ^ 32 + unat (ucast n :: u32) = unat n"
    using div_mult_mod_eq [of "unat n" "2 ^ 32"]
    by (simp only: unat_ucast_drop_32 unat_ucast_low_32 [of n])
  then show ?thesis
    unfolding divl_def Let_def by (simp only:)
qed

lemma divl_Some:
  assumes "0 < unat d" and "unat n < unat d * 2 ^ 32"
  obtains q where "divl n d = Some q" and "unat q = unat n div unat d"
proof
  have lt: "unat n div unat d < 2 ^ 32"
    using assms by (simp add: div_less_iff_less_mult mult.commute)
  then show "divl n d = Some (of_nat (unat n div unat d))"
    using assms(1) by (auto simp: divl_eq)
  show "unat (of_nat (unat n div unat d) :: u32) = unat n div unat d"
    using lt by (simp add: unat_of_nat)
qed

text \<open>
  One step of \<^verbatim>\<open>nlz\<close>'s binary search: it keeps the value shifted so far equal to the argument times
  a power of two, and doubles the number of bits known to be in use.
\<close>

lemma nlz_stage:
  assumes "(if x \<le> t then (n + w, push_bit w x) else (n, x)) = (n', x' :: u32)"
    and "unat x = X * 2 ^ n" and "2 ^ (32 - 2 * w) \<le> unat x"
    and "unat t = 2 ^ (32 - w) - 1" and "2 * w \<le> 32"
  shows "unat x' = X * 2 ^ n' \<and> 2 ^ (32 - w) \<le> unat x' \<and> n' \<le> n + w"
proof (cases "x \<le> t")
  case True
  have pow: "(2::nat) ^ (32 - w) * 2 ^ w = 2 ^ 32" "(2::nat) ^ (32 - 2 * w) * 2 ^ w = 2 ^ (32 - w)"
    using assms(5) by (simp_all flip: power_add)
  have "unat x \<le> unat t"
    using True by (simp add: word_le_nat_alt)
  then have "unat x < 2 ^ (32 - w)"
    using assms(4) zero_less_power [of "2::nat" "32 - w"] by linarith
  then have "unat x * 2 ^ w < 2 ^ (32 - w) * 2 ^ w" by simp
  then have "unat x * 2 ^ w < 2 ^ 32" using pow by simp
  then have "unat x' = unat x * 2 ^ w"
    using True assms(1) unat_push_bit_no_overflow [of x w] by auto
  moreover have "2 ^ (32 - w) \<le> unat x * 2 ^ w"
    using assms(3) mult_le_mono1 [of "2 ^ (32 - 2 * w)" "unat x" "2 ^ w"] pow by simp
  ultimately show ?thesis
    using True assms(1,2) by (auto simp: power_add)
next
  case False
  then have "unat t < unat x" by (simp add: word_less_nat_alt not_le)
  then have "2 ^ (32 - w) \<le> unat x" using assms(4) by simp
  then show ?thesis using False assms(1,2) by auto
qed

lemma nlz_spec:
  assumes "x \<noteq> 0"
  shows "nlz x \<le> 31 \<and> 2 ^ 31 \<le> unat x * 2 ^ nlz x \<and> unat x * 2 ^ nlz x < 2 ^ 32"
proof -
  obtain n1 x1 where e1: "(if x \<le> 0x0000FFFF then (0 + 16, push_bit 16 x) else (0 :: nat, x)) = (n1, x1)"
    by fastforce
  obtain n2 x2 where e2: "(if x1 \<le> 0x00FFFFFF then (n1 + 8, push_bit 8 x1) else (n1, x1)) = (n2, x2)"
    by fastforce
  obtain n3 x3 where e3: "(if x2 \<le> 0x0FFFFFFF then (n2 + 4, push_bit 4 x2) else (n2, x2)) = (n3, x3)"
    by fastforce
  obtain n4 x4 where e4: "(if x3 \<le> 0x3FFFFFFF then (n3 + 2, push_bit 2 x3) else (n3, x3)) = (n4, x4)"
    by fastforce
  have res: "nlz x = (if x4 \<le> 0x7FFFFFFF then n4 + 1 else n4)"
    unfolding nlz_def Let_def using e1 e2 e3 e4 by (simp only: split)
  have "1 \<le> unat x" using assms by (simp add: unat_gt_0 Suc_le_eq)
  then have s1: "unat x1 = unat x * 2 ^ n1 \<and> 2 ^ 16 \<le> unat x1 \<and> n1 \<le> 16"
    using nlz_stage [OF e1, of "unat x"] by simp
  then have s2: "unat x2 = unat x * 2 ^ n2 \<and> 2 ^ 24 \<le> unat x2 \<and> n2 \<le> 24"
    using nlz_stage [OF e2, of "unat x"] by simp
  then have s3: "unat x3 = unat x * 2 ^ n3 \<and> 2 ^ 28 \<le> unat x3 \<and> n3 \<le> 28"
    using nlz_stage [OF e3, of "unat x"] by simp
  then have s4: "unat x4 = unat x * 2 ^ n4 \<and> 2 ^ 30 \<le> unat x4 \<and> n4 \<le> 30"
    using nlz_stage [OF e4, of "unat x"] by simp
  show ?thesis
    using res s4 unat_lt_32 [of x4] by (auto simp: word_le_nat_alt not_le)
qed

section \<open>Unsigned division\<close>

text \<open>
  The estimate behind the second branch (Hacker's Delight): dividing by the divisor rounded down
  to its 32 leading significant bits overshoots the quotient by at most one.
\<close>

lemma quotient_estimate:
  fixes N D s :: nat
  assumes "N < 2 ^ 64" and "s \<le> 31" and "2 ^ 63 \<le> D * 2 ^ s"
  defines "W \<equiv> D div 2 ^ (32 - s) * 2 ^ (32 - s)"
  shows "N div D \<le> N div W \<and> N div W \<le> N div D + 1 \<and> 2 ^ (63 - s) \<le> W"
proof -
  let ?m = "2 ^ (32 - s) :: nat"
  have pow: "(2::nat) ^ (63 - s) * 2 ^ s = 2 ^ 63" "(2::nat) ^ (32 - s) * 2 ^ s = 2 ^ 32"
    "(2::nat) ^ 31 * ?m = 2 ^ (63 - s)" "(2::nat) ^ (s + 1) * 2 ^ (63 - s) = 2 ^ 64"
    "(2::nat) ^ (s + 1) * ?m = 2 ^ 33"
    using assms(2) by (simp_all only: flip: power_add) (simp_all add: field_simps)
  have D: "2 ^ (63 - s) \<le> D"
    using assms(3) pow(1) by (metis mult_le_cancel2 zero_less_numeral zero_less_power)
  have "2 ^ 31 \<le> D div ?m"
    using D pow(3) by (simp add: less_eq_div_iff_mult_less_eq)
  then have "2 ^ 31 * ?m \<le> D div ?m * ?m" by (rule mult_le_mono1)
  then have W_ge: "2 ^ (63 - s) \<le> W"
    unfolding W_def by (simp only: pow(3))
  have D_W: "D = W + D mod ?m"
    unfolding W_def by (rule div_mult_mod_eq [symmetric])
  have gap: "D mod ?m \<le> ?m - 1"
    using mod_less_divisor [of ?m D] zero_less_power [of "2::nat" "32 - s"] by linarith
  have W0: "0 < W" using W_ge by (meson less_le_trans zero_less_numeral zero_less_power)
  have lower: "N div D \<le> N div W"
    using D_W W0 by (metis div_le_mono2 le_add1)
  let ?Q = "N div D"
  have "?Q * 2 ^ (63 - s) \<le> N"
    using D by (meson div_times_less_eq_dividend le_trans mult_le_mono2)
  then have "?Q * 2 ^ (63 - s) < 2 ^ (s + 1) * 2 ^ (63 - s)"
    using assms(1) pow(4) by linarith
  then have "?Q < 2 ^ (s + 1)" by simp
  then have Q: "?Q + 1 \<le> 2 ^ (s + 1)" by simp
  have "(?Q + 1) * (D mod ?m) \<le> 2 ^ (s + 1) * (?m - 1)"
    using Q gap by (rule mult_le_mono)
  also have "\<dots> = 2 ^ 33 - 2 ^ (s + 1)"
    by (simp only: diff_mult_distrib2 pow(5) mult_1_right)
  also have "\<dots> \<le> 2 ^ (63 - s)"
  proof (cases "s = 31")
    case False
    then have "33 \<le> 63 - s" using assms(2) by simp
    then have "(2::nat) ^ 33 \<le> 2 ^ (63 - s)" by (rule power_increasing) simp
    then show ?thesis by (meson diff_le_self le_trans)
  qed simp
  also have "\<dots> \<le> W" by (rule W_ge)
  finally have key: "(?Q + 1) * (D mod ?m) \<le> W" .
  have D0: "0 < D" using D_W W0 by simp
  have "N < (?Q + 1) * D"
    using D0 dividend_less_div_times [of D N] by (simp add: add.commute)
  also have "\<dots> = (?Q + 1) * W + (?Q + 1) * (D mod ?m)"
    using D_W by (metis distrib_left)
  also have "\<dots> \<le> (?Q + 2) * W" using key by simp
  finally have "N div W < ?Q + 2"
    using W0 by (simp add: div_less_iff_less_mult)
  with lower W_ge show ?thesis by simp
qed

lemma unat_two_halves:
  "unat (push_bit 32 1 * ucast (h :: u32) + ucast (l :: u32) :: u64) = 2 ^ 32 * unat h + unat l"
proof -
  have "2 ^ 32 * unat h + unat l < 2 ^ 64"
    using unat_lt_32 [of h] unat_lt_32 [of l] by simp
  then show ?thesis
    by (simp add: unat_word_ariths unsigned_ucast_eq take_bit_nat_eq_self)
qed

lemma udiv64_small:
  assumes "drop_bit 32 d = 0" and "d \<noteq> 0"
  shows "udiv64 n d = Some (n div d)"
proof -
  let ?b = "2 ^ 32 :: nat"
  let ?n1 = "ucast (drop_bit 32 n) :: u32" and ?n0 = "ucast n :: u32" and ?d0 = "ucast d :: u32"
  have "unat d div ?b = 0"
    using assms(1) unat_drop_bit [of 32 d] by simp
  then have d_lt: "unat d < ?b" by (simp add: div_eq_0_iff)
  then have d0: "unat ?d0 = unat d"
    by (simp add: unsigned_ucast_eq take_bit_nat_eq_self)
  have dpos: "0 < unat d" using assms(2) by (simp add: unat_gt_0)
  have n: "unat n = ?b * unat ?n1 + unat ?n0"
    using div_mult_mod_eq [of "unat n" ?b]
    by (simp only: unat_ucast_drop_32 unat_ucast_low_32 [of n] mult.commute)
  let ?r = "unat ?n1 mod unat d" and ?q1 = "unat ?n1 div unat d"
  have r_lt: "?r < unat d" using dpos by simp
  let ?x = "push_bit 32 1 * ucast (?n1 mod ?d0) + ucast ?n0 :: u64"
  have rb: "?b * ?r + unat ?n0 < unat d * ?b"
  proof -
    have "?b * ?r + unat ?n0 < ?b * ?r + ?b" using unat_lt_32 [of ?n0] by simp
    also have "\<dots> = ?b * (?r + 1)" by simp
    also have "\<dots> \<le> ?b * unat d" using r_lt by (intro mult_le_mono2) simp
    finally show ?thesis by (simp only: mult.commute)
  qed
  have x: "unat ?x = ?b * ?r + unat ?n0"
    by (simp only: unat_two_halves unat_mod d0)
  obtain q where q: "divl ?x ?d0 = Some q" "unat q = (?b * ?r + unat ?n0) div unat d"
    using divl_Some [of ?d0 ?x] rb dpos unfolding x d0 by metis
  have total: "unat n div unat d = ?b * ?q1 + unat q"
  proof -
    have "?b * unat ?n1 = ?b * (?q1 * unat d + ?r)"
      by (simp only: div_mult_mod_eq)
    then have "unat n = (?b * ?r + unat ?n0) + (?b * ?q1) * unat d"
      unfolding n by (simp only: distrib_left mult.assoc ac_simps)
    then have "unat n div unat d = ?b * ?q1 + (?b * ?r + unat ?n0) div unat d"
      using dpos by (simp only: div_mult_self1)
    then show ?thesis by (simp only: q(2))
  qed
  have "unat (push_bit 32 1 * ucast (?n1 div ?d0) + ucast q :: u64) = unat (n div d)"
    by (simp only: unat_two_halves unat_div d0 total)
  then have "ucast q + push_bit 32 1 * ucast (?n1 div ?d0) = n div d"
    by (simp only: unat_eq_iff add.commute)
  moreover have "?d0 \<noteq> 0" using d0 dpos by (metis less_irrefl unat_0)
  ultimately show ?thesis
    using assms(1) q(1) unfolding udiv64_def Let_def by simp
qed

text \<open>
  The normalisation step of the second branch: shifting the divisor left by its number of leading
  zeros does not overflow, and the upper half of the result is the divisor without its low bits.
\<close>

lemma normalised_divisor:
  assumes "drop_bit 32 d \<noteq> 0"
  defines "s \<equiv> nlz (ucast (drop_bit 32 (d :: u64)) :: u32)"
  defines "v \<equiv> (ucast (drop_bit 32 (push_bit s d)) :: u32)"
  shows "s \<le> 31 \<and> 2 ^ 63 \<le> unat d * 2 ^ s \<and> unat v = unat d div 2 ^ (32 - s)"
proof -
  let ?D = "unat d" and ?d1 = "ucast (drop_bit 32 d) :: u32"
  have "drop_bit 32 d = 0 \<longleftrightarrow> ?D div 2 ^ 32 = 0"
    by (simp only: unat_eq_iff unat_drop_bit unat_0)
  then have d1: "unat ?d1 = ?D div 2 ^ 32" "?d1 \<noteq> 0"
    using assms(1) by (metis unat_ucast_drop_32, metis unat_0 unat_ucast_drop_32)
  have s: "s \<le> 31" "2 ^ 31 \<le> ?D div 2 ^ 32 * 2 ^ s" "?D div 2 ^ 32 * 2 ^ s < 2 ^ 32"
    using nlz_spec [OF d1(2)] unfolding s_def d1(1) by auto
  have "?D < (?D div 2 ^ 32 + 1) * 2 ^ 32"
    using dividend_less_div_times [of "2 ^ 32" ?D] by (simp add: algebra_simps)
  then have "?D * 2 ^ s < (?D div 2 ^ 32 + 1) * 2 ^ 32 * 2 ^ s" by simp
  also have "\<dots> = (?D div 2 ^ 32 * 2 ^ s + 2 ^ s) * 2 ^ 32" by (simp only: algebra_simps)
  also have "\<dots> \<le> 2 ^ 32 * 2 ^ 32"
  proof -
    have "2 ^ s dvd (2 :: nat) ^ 32" using s(1) by (intro le_imp_power_dvd) simp
    then have "?D div 2 ^ 32 * 2 ^ s + 2 ^ s \<le> 2 ^ 32"
      using s(3) by (elim dvdE) (metis Suc_leI add.commute mult.commute mult_Suc mult_le_mono2
          mult_less_cancel2)
    then show ?thesis by (rule mult_le_mono1)
  qed
  finally have "unat (push_bit s d) = ?D * 2 ^ s"
    by (intro unat_push_bit_no_overflow) simp
  then have "unat v = ?D * 2 ^ s div 2 ^ 32"
    unfolding v_def by (simp only: unat_ucast_drop_32)
  moreover have "(2 :: nat) ^ 32 = 2 ^ (32 - s) * 2 ^ s"
    using s(1) by (simp only: flip: power_add) simp
  ultimately have "unat v = ?D * 2 ^ s div (2 ^ (32 - s) * 2 ^ s)" by (simp only:)
  moreover have "2 ^ 31 * 2 ^ 32 \<le> ?D div 2 ^ 32 * 2 ^ 32 * 2 ^ s"
    using mult_le_mono1 [OF s(2), of "2 ^ 32"] by (simp only: ac_simps)
  then have "2 ^ 31 * 2 ^ 32 \<le> ?D * 2 ^ s"
    by (rule le_trans) (rule mult_le_mono1, rule div_times_less_eq_dividend)
  ultimately show ?thesis using s(1) by simp
qed

lemma remainder_test:
  fixes N D q :: nat
  assumes "N div D \<le> q" and "q \<le> N div D + 1" and "1 \<le> N div D"
  shows "N - (q - 1) * D < D \<longleftrightarrow> q = N div D + 1"
proof -
  obtain k where k: "N div D = Suc k" using assms(3) by (cases "N div D") auto
  then have "N = (k * D + D) + N mod D" using div_mult_mod_eq [of N D] by simp
  moreover have "N mod D < D" using assms(3) by (cases D) auto
  moreover have "q = Suc k \<or> q = Suc (Suc k)" using assms k by auto
  ultimately show ?thesis using k by auto
qed

lemma udiv64_large:
  assumes "drop_bit 32 d \<noteq> 0"
  shows "udiv64 n d = Some (n div d)"
proof (cases "n < d")
  case True
  then have "n div d = 0" by (simp add: unat_eq_iff unat_div word_less_nat_alt)
  then show ?thesis using True assms by (simp add: udiv64_def)
next
  case False
  let ?N = "unat n" and ?D = "unat d"
  define s where "s = nlz (ucast (drop_bit 32 d) :: u32)"
  define v where "v = (ucast (drop_bit 32 (push_bit s d)) :: u32)"
  define W where "W = ?D div 2 ^ (32 - s) * 2 ^ (32 - s)"
  have s: "s \<le> 31" "2 ^ 63 \<le> ?D * 2 ^ s" "unat v = ?D div 2 ^ (32 - s)"
    using normalised_divisor [OF assms] unfolding s_def v_def by auto
  have W_v: "W = unat v * 2 ^ (32 - s)" unfolding W_def s(3) ..
  have est: "?N div ?D \<le> ?N div W" "?N div W \<le> ?N div ?D + 1" "2 ^ (63 - s) \<le> W"
    using quotient_estimate [OF _ s(1,2), of ?N] unat_lt_64 [of n] unfolding W_def by auto
  have "63 - s = 31 + (32 - s)" "32 - s = Suc (31 - s)" using s(1) by simp_all
  then have pow: "(2 :: nat) ^ (63 - s) = 2 ^ 31 * 2 ^ (32 - s)" "(2 :: nat) ^ (32 - s) = 2 * 2 ^ (31 - s)"
    by (simp_all only: power_add power_Suc)
  have v_ge: "2 ^ 31 \<le> unat v"
    using est(3) unfolding W_def pow(1) s(3) by simp
  have "?N div 2 < 2 ^ 31 * 2 ^ 32" using unat_lt_64 [of n] by simp
  also have "\<dots> \<le> unat v * 2 ^ 32" using v_ge by (rule mult_le_mono1)
  finally have "unat (drop_bit 1 n) < unat v * 2 ^ 32" by (simp add: unat_drop_bit)
  then obtain q0 where q0: "divl (drop_bit 1 n) v = Some q0" "unat q0 = ?N div 2 div unat v"
    using divl_Some [of v "drop_bit 1 n"] v_ge
    by (metis gr0I not_less_zero power_one_right unat_drop_bit mult_zero_left)
  define q where "q = (ucast (drop_bit (31 - s) q0) :: u64)"
  have "unat q = ?N div 2 div unat v div 2 ^ (31 - s)"
    unfolding q_def using q0(2) unat_lt_32 [of "drop_bit (31 - s) q0"]
    by (simp add: unsigned_ucast_eq take_bit_nat_eq_self unat_drop_bit)
  also have "\<dots> = ?N div W"
    unfolding W_v pow(2) by (simp only: div_mult2_eq [symmetric] ac_simps)
  finally have q: "unat q = ?N div W" .
  have Q: "1 \<le> ?N div ?D"
    using False assms
    by (auto simp: not_less word_le_nat_alt Suc_le_eq div_greater_zero_iff unat_gt_0)
  have "(unat q - 1) * ?D \<le> ?N div ?D * ?D"
    using q est(2) by (intro mult_le_mono1) simp
  then have le: "(unat q - 1) * ?D \<le> ?N"
    using div_times_less_eq_dividend [of ?N ?D] by linarith
  have q1: "unat (q - 1) = unat q - 1"
    using unat_minus_no_underflow [of 1 q] q est(1) Q by simp
  then have "unat (n - (q - 1) * d) = ?N - (unat q - 1) * ?D"
    using le unat_lt_64 [of n] by (simp add: unat_minus_no_underflow unat_mult_no_overflow)
  then have "(n - (q - 1) * d < d) = (?N - (unat q - 1) * ?D < ?D)"
    by (simp only: word_less_nat_alt)
  also have "\<dots> = (unat q = ?N div ?D + 1)"
    using remainder_test [of ?N ?D "unat q"] q est(1,2) Q by simp
  finally have "(if n - (q - 1) * d < d then q - 1 else q) = n div d"
    using q q1 est(1,2) by (auto simp: unat_eq_iff unat_div)
  then show ?thesis
    using False assms q0(1) unfolding udiv64_def s_def v_def q_def Let_def by simp
qed

text \<open>
  C9. \<^verbatim>\<open>udiv64\<close> (\<^verbatim>\<open>__udivdi3\<close>) never traps and returns the exact quotient for every nonzero divisor,
  in the one-instruction branch as in the normalise-and-correct branch.
\<close>

theorem udiv64_correct:
  assumes "d \<noteq> 0"
  shows "udivdi3 n d = Some (n div d)"
  unfolding udivdi3_def using assms udiv64_small udiv64_large by (cases "drop_bit 32 d = 0") auto

theorem udiv64_correct_witness:
  "(0x200000001 :: u64) \<noteq> 0 \<and> udivdi3 0xFFFFFFFFFFFFFFFF 0x200000001 = Some 0x7FFFFFFF"
  using udiv64_correct [of "0x200000001" "0xFFFFFFFFFFFFFFFF"] by simp

section \<open>Signed division and remainders\<close>

lemma uint_abs_word:
  "uint (if 0 \<le> sint n then n else - n :: u64) = \<bar>sint n\<bar>"
proof -
  have rng: "- (2 ^ 63) \<le> sint n" "sint n < 2 ^ 63"
    using sint_greater_eq [of n] sint_less [of n] by simp_all
  have wrap: "uint (word_of_int k :: u64) = k mod 2 ^ 64" for k
    by (simp add: unsigned_of_int take_bit_eq_mod)
  have "uint (- n) = - sint n mod 2 ^ 64" "uint n = sint n mod 2 ^ 64"
    using wrap [of "- sint n"] wrap [of "sint n"] by simp_all
  then show ?thesis using rng by (auto simp: mod_pos_pos_trivial)
qed

lemma sdiv64_eq:
  assumes "d \<noteq> 0"
  shows "sdiv64 n d = Some (word_of_int (sint n sdiv sint d))"
proof -
  let ?na = "if 0 \<le> sint n then n else - n" and ?da = "if 0 \<le> sint d then d else - d"
  have "?da \<noteq> 0" using assms by auto
  then have "udiv64 ?na ?da = Some (?na div ?da)"
    using udiv64_small udiv64_large by blast
  moreover have "?na div ?da = word_of_int (\<bar>sint n\<bar> div \<bar>sint d\<bar>)"
    unfolding word_div_def uint_abs_word ..
  ultimately have "sdiv64 n d = Some (let q = word_of_int (\<bar>sint n\<bar> div \<bar>sint d\<bar>)
     in if (sint n < 0) = (sint d < 0) then q else - q)"
    unfolding sdiv64_def by simp
  moreover have "sint d \<noteq> 0" using assms by (metis signed_eq_0_iff)
  ultimately show ?thesis
    by (auto simp: signed_divide_int_def sgn_if Let_def)
qed

lemma umod64_eq: "d \<noteq> 0 \<Longrightarrow> umod64 n d = Some (ucast (n mod d))"
proof -
  assume "d \<noteq> 0"
  then have "udiv64 n d = Some (n div d)" using udiv64_small udiv64_large by blast
  moreover have "n - d * (n div d) = n mod d"
    by (metis add_diff_cancel_left' mult_div_mod_eq)
  ultimately show ?thesis by (simp add: umod64_def)
qed

text \<open>
  C12. \<^verbatim>\<open>__divdi3\<close> returns the quotient truncated toward zero, as C prescribes, for every nonzero
  divisor; the only wrap-around is the one two's complement forces (the least value divided by
  minus one), since the result is the quotient reduced to 64 bits.
\<close>

theorem divdi3_truncates:
  assumes "d \<noteq> 0"
  shows "divdi3 n d = Some (word_of_int (sint n sdiv sint d))"
  unfolding divdi3_def using assms by (rule sdiv64_eq)

theorem divdi3_truncates_witness:
  "(- 2 :: u64) \<noteq> 0 \<and> divdi3 7 (- 2) = Some (- 3)"
  using divdi3_truncates [of "- 2" 7] by (simp add: signed_divide_int_def)



end
