(* ===== verification/Slot_Table.thy ===== *)
theory Slot_Table
  imports Prelude
begin

text \<open>
  The contract of a slot allocator, as the kernel's allocators rely on it: a table of numbered slots, each
  free or used, an operation that grabs a run of free slots and one that gives a run back. The page
  pools, the frame table, the swap area, the free map of the disk and the buffer cache are clients of
  this contract; \<^verbatim>\<open>lib/kernel/bitmap.c\<close> provides it (theory \<^verbatim>\<open>Bitmap\<close>).

  A \<^emph>\<open>ledger\<close> is the list of the runs that have been handed out and not yet returned. What a client needs is
  that the ledger stays consistent: runs lie within the table, no two of them overlap, and a slot
  is used exactly when some run of the ledger covers it.
\<close>

type_synonym run = "nat \<times> nat"

definition covers :: "run \<Rightarrow> nat \<Rightarrow> bool" where
  "covers r j \<longleftrightarrow> fst r \<le> j \<and> j < fst r + snd r"

definition disjoint_runs :: "run \<Rightarrow> run \<Rightarrow> bool" where
  "disjoint_runs r q \<longleftrightarrow> (\<forall>j. \<not> (covers r j \<and> covers q j))"

definition ledger :: "nat \<Rightarrow> (nat \<Rightarrow> bool) \<Rightarrow> run list \<Rightarrow> bool" where
  "ledger cap used gs \<longleftrightarrow>
     (\<forall>r \<in> set gs. fst r + snd r \<le> cap) \<and> sorted_wrt disjoint_runs gs
     \<and> (\<forall>j < cap. used j \<longleftrightarrow> (\<exists>r \<in> set gs. covers r j))"

lemma disjoint_runs_sym: "disjoint_runs r q \<Longrightarrow> disjoint_runs q r"
  by (auto simp: disjoint_runs_def)

lemma ledger_grant:
  assumes "ledger cap used gs" and "i + n \<le> cap" and "\<forall>k < n. \<not> used (i + k)"
    and "\<forall>j < cap. used' j = (if i \<le> j \<and> j < i + n then True else used j)"
  shows "ledger cap used' ((i, n) # gs)"
proof -
  have "disjoint_runs (i, n) r" if "r \<in> set gs" for r
  proof (unfold disjoint_runs_def, intro allI notI)
    fix j assume j: "covers (i, n) j \<and> covers r j"
    then have "j < cap" using assms(2) by (auto simp: covers_def)
    with j that assms(1) have "used j" by (auto simp: ledger_def)
    moreover obtain k where "j = i + k" "k < n" using j by (auto simp: covers_def nat_le_iff_add)
    ultimately show False using assms(3) by simp
  qed
  then show ?thesis using assms(1,2,4) by (auto simp: ledger_def covers_def)
qed

lemma ledger_return:
  assumes "ledger cap used (gs @ (i, n) # hs)"
    and "\<forall>j < cap. used' j = (if i \<le> j \<and> j < i + n then False else used j)"
  shows "ledger cap used' (gs @ hs)"
proof -
  have other: "\<not> covers (i, n) j" if "r \<in> set (gs @ hs)" "covers r j" for r j
    using assms(1) that by (auto simp: ledger_def sorted_wrt_append disjoint_runs_def)
  have "used' j \<longleftrightarrow> (\<exists>r \<in> set (gs @ hs). covers r j)" if j: "j < cap" for j
  proof -
    have "used j \<longleftrightarrow> covers (i, n) j \<or> (\<exists>r \<in> set (gs @ hs). covers r j)"
      using assms(1) j by (auto simp: ledger_def)
    moreover have "used' j \<longleftrightarrow> \<not> covers (i, n) j \<and> used j"
      using assms(2) j by (simp add: covers_def)
    ultimately show ?thesis using other by blast
  qed
  then show ?thesis
    using assms(1) by (simp add: ledger_def sorted_wrt_append)
qed

locale slot_table =
  fixes inv :: "'s \<Rightarrow> bool" and cap :: "'s \<Rightarrow> nat" and used :: "'s \<Rightarrow> nat \<Rightarrow> bool"
    and grab :: "'s \<Rightarrow> u32 \<Rightarrow> (u32 \<times> 's) option" and release :: "'s \<Rightarrow> u32 \<Rightarrow> u32 \<Rightarrow> 's option"
    and NONE :: u32
  assumes cap_bound: "cap s \<le> unat NONE"
    and grab_total: "inv s \<Longrightarrow> n \<noteq> 0 \<Longrightarrow> \<exists>r s'. grab s n = Some (r, s') \<and> inv s' \<and> cap s' = cap s"
    and grab_none: "inv s \<Longrightarrow> n \<noteq> 0 \<Longrightarrow> grab s n = Some (NONE, s') \<Longrightarrow>
        s' = s \<and> \<not> (\<exists>i. i + unat n \<le> cap s \<and> (\<forall>k < unat n. \<not> used s (i + k)))"
    and grab_some: "inv s \<Longrightarrow> n \<noteq> 0 \<Longrightarrow> grab s n = Some (r, s') \<Longrightarrow> r \<noteq> NONE \<Longrightarrow>
        unat r + unat n \<le> cap s \<and> (\<forall>k < unat n. \<not> used s (unat r + k))
        \<and> (\<forall>j < cap s. used s' j = (if unat r \<le> j \<and> j < unat r + unat n then True else used s j))"
    and release_ok: "inv s \<Longrightarrow> unat r + unat n \<le> cap s \<Longrightarrow>
        \<exists>s'. release s r n = Some s' \<and> inv s' \<and> cap s' = cap s
        \<and> (\<forall>j < cap s. used s' j = (if unat r \<le> j \<and> j < unat r + unat n then False else used s j))"
begin

lemma grab_keeps: "inv s \<Longrightarrow> n \<noteq> 0 \<Longrightarrow> grab s n = Some (r, s') \<Longrightarrow> inv s' \<and> cap s' = cap s"
  using grab_total [of s n] by auto

lemma grab_ledger:
  assumes "inv s" and "n \<noteq> 0" and "grab s n = Some (r, s')" and "r \<noteq> NONE"
    and "ledger (cap s) (used s) gs"
  shows "inv s' \<and> ledger (cap s') (used s') ((unat r, unat n) # gs)"
proof -
  have "cap s' = cap s" "inv s'" using grab_keeps [OF assms(1-3)] by auto
  moreover have "ledger (cap s) (used s') ((unat r, unat n) # gs)"
    using grab_some [OF assms(1-4)] assms(5) by (intro ledger_grant [where used = "used s"]) auto
  ultimately show ?thesis by simp
qed

lemma release_ledger:
  assumes "inv s" and "ledger (cap s) (used s) (gs @ (unat r, unat n) # hs)"
  shows "\<exists>s'. release s r n = Some s' \<and> inv s' \<and> cap s' = cap s \<and> ledger (cap s') (used s') (gs @ hs)"
proof -
  have "unat r + unat n \<le> cap s" using assms(2) by (simp add: ledger_def)
  from release_ok [OF assms(1) this] obtain s' where "release s r n = Some s'" "inv s'"
    "cap s' = cap s"
    and u: "\<forall>j < cap s. used s' j = (if unat r \<le> j \<and> j < unat r + unat n then False else used s j)"
    by auto
  moreover have "ledger (cap s) (used s') (gs @ hs)" using ledger_return [OF assms(2) u] .
  ultimately show ?thesis by auto
qed

text \<open>A grab undone by the matching release leaves the table as it was.\<close>

lemma grab_release:
  assumes "inv s" and "n \<noteq> 0" and "grab s n = Some (r, s')" and "r \<noteq> NONE"
  shows "\<exists>t. release s' r n = Some t \<and> inv t \<and> cap t = cap s \<and> (\<forall>j < cap s. used t j = used s j)"
proof -
  have k: "inv s'" "cap s' = cap s" using grab_keeps [OF assms(1-3)] by auto
  note g = grab_some [OF assms]
  from release_ok [OF k(1), of r n] k(2) g obtain t where t: "release s' r n = Some t" "inv t"
    "cap t = cap s"
    "\<forall>j < cap s. used t j = (if unat r \<le> j \<and> j < unat r + unat n then False else used s' j)"
    by auto
  have "used t j = used s j" if j: "j < cap s" for j
  proof (cases "unat r \<le> j \<and> j < unat r + unat n")
    case True
    then obtain k where "j = unat r + k" "k < unat n" by (auto simp: nat_le_iff_add)
    with True g t(4) j show ?thesis by auto
  qed (use t(4) g j in auto)
  with t show ?thesis by auto
qed

end

end
