(* ===== verification/Bitmap.thy ===== *)
theory Bitmap
  imports Slot_Table
begin

text \<open>
  Bitmaps (\<^verbatim>\<open>lib/kernel/bitmap.c\<close>): an array of 32-bit elements read as an array of bits. The page
  allocator, the frame table, the swap table, the free map and the buffer cache all keep their
  slots in one. Indices and counts have C's \<^verbatim>\<open>size_t\<close>, a 32-bit word. An access beyond the element
  array is \<^term>\<open>None\<close>, like a failed assertion.
\<close>

section \<open>The data structure\<close>

record bitmap =
  bit_cnt :: u32
  bits :: "u32 list"

definition BITMAP_ERROR :: u32 where
  "BITMAP_ERROR = - 1"

definition elem_idx :: "u32 \<Rightarrow> u32" where
  "elem_idx bit_idx = bit_idx div 32"

definition bit_mask :: "u32 \<Rightarrow> u32" where
  "bit_mask bit_idx = push_bit (unat (bit_idx mod 32)) 1"

definition elem_cnt :: "u32 \<Rightarrow> u32" where
  "elem_cnt n = (n + 32 - 1) div 32"

definition byte_cnt :: "u32 \<Rightarrow> u32" where
  "byte_cnt n = 4 * elem_cnt n"

definition last_mask :: "bitmap \<Rightarrow> u32" where
  "last_mask b =
     (let last_bits = unat (bit_cnt b mod 32)
      in if last_bits \<noteq> 0 then push_bit last_bits 1 - 1 else - 1)"

definition bitmap_buf_size :: "u32 \<Rightarrow> u32" where
  "bitmap_buf_size n = 8 + byte_cnt n"

definition bitmap_size :: "bitmap \<Rightarrow> u32" where
  "bitmap_size b = bit_cnt b"

section \<open>Single bits\<close>

definition elem_at :: "bitmap \<Rightarrow> u32 \<Rightarrow> u32 option" where
  "elem_at b idx = (if unat idx < length (bits b) then Some (bits b ! unat idx) else None)"

definition bitmap_mark :: "bitmap \<Rightarrow> u32 \<Rightarrow> bitmap option" where
  "bitmap_mark b bit_idx = do {
     let idx = elem_idx bit_idx;
     e \<leftarrow> elem_at b idx;
     Some (b\<lparr>bits := (bits b)[unat idx := e OR bit_mask bit_idx]\<rparr>)
   }"

definition bitmap_reset :: "bitmap \<Rightarrow> u32 \<Rightarrow> bitmap option" where
  "bitmap_reset b bit_idx = do {
     let idx = elem_idx bit_idx;
     e \<leftarrow> elem_at b idx;
     Some (b\<lparr>bits := (bits b)[unat idx := e AND NOT (bit_mask bit_idx)]\<rparr>)
   }"

definition bitmap_flip :: "bitmap \<Rightarrow> u32 \<Rightarrow> bitmap option" where
  "bitmap_flip b bit_idx = do {
     let idx = elem_idx bit_idx;
     e \<leftarrow> elem_at b idx;
     Some (b\<lparr>bits := (bits b)[unat idx := e XOR bit_mask bit_idx]\<rparr>)
   }"

definition bitmap_set :: "bitmap \<Rightarrow> u32 \<Rightarrow> bool \<Rightarrow> bitmap option" where
  "bitmap_set b idx value = do {
     ASSERT (idx < bit_cnt b);
     (if value then bitmap_mark b idx else bitmap_reset b idx)
   }"

definition bitmap_test :: "bitmap \<Rightarrow> u32 \<Rightarrow> bool option" where
  "bitmap_test b idx = do {
     ASSERT (idx < bit_cnt b);
     e \<leftarrow> elem_at b (elem_idx idx);
     Some (e AND bit_mask idx \<noteq> 0)
   }"

section \<open>Groups of bits\<close>

definition bitmap_set_multiple :: "bitmap \<Rightarrow> u32 \<Rightarrow> u32 \<Rightarrow> bool \<Rightarrow> bitmap option" where
  "bitmap_set_multiple b start cnt value = do {
     ASSERT (start \<le> bit_cnt b);
     ASSERT (start + cnt \<le> bit_cnt b);
     foldM (\<lambda>i b. bitmap_set b (start + of_nat i) value) [0..<unat cnt] b
   }"

definition bitmap_set_all :: "bitmap \<Rightarrow> bool \<Rightarrow> bitmap option" where
  "bitmap_set_all b value = bitmap_set_multiple b 0 (bitmap_size b) value"

definition bitmap_count :: "bitmap \<Rightarrow> u32 \<Rightarrow> u32 \<Rightarrow> bool \<Rightarrow> u32 option" where
  "bitmap_count b start cnt value = do {
     ASSERT (start \<le> bit_cnt b);
     ASSERT (start + cnt \<le> bit_cnt b);
     foldM (\<lambda>i value_cnt. do {
              t \<leftarrow> bitmap_test b (start + of_nat i);
              Some (if t = value then value_cnt + 1 else value_cnt)
            }) [0..<unat cnt] 0
   }"

fun contains_loop :: "bitmap \<Rightarrow> u32 \<Rightarrow> bool \<Rightarrow> nat list \<Rightarrow> bool option" where
  "contains_loop b start value [] = Some False"
| "contains_loop b start value (i # is) = do {
     t \<leftarrow> bitmap_test b (start + of_nat i);
     if t = value then Some True else contains_loop b start value is
   }"

definition bitmap_contains :: "bitmap \<Rightarrow> u32 \<Rightarrow> u32 \<Rightarrow> bool \<Rightarrow> bool option" where
  "bitmap_contains b start cnt value = do {
     ASSERT (start \<le> bit_cnt b);
     ASSERT (start + cnt \<le> bit_cnt b);
     contains_loop b start value [0..<unat cnt]
   }"

definition bitmap_any :: "bitmap \<Rightarrow> u32 \<Rightarrow> u32 \<Rightarrow> bool option" where
  "bitmap_any b start cnt = bitmap_contains b start cnt True"

definition bitmap_none :: "bitmap \<Rightarrow> u32 \<Rightarrow> u32 \<Rightarrow> bool option" where
  "bitmap_none b start cnt = map_option Not (bitmap_contains b start cnt True)"

definition bitmap_all :: "bitmap \<Rightarrow> u32 \<Rightarrow> u32 \<Rightarrow> bool option" where
  "bitmap_all b start cnt = map_option Not (bitmap_contains b start cnt False)"

section \<open>Scanning\<close>

fun scan_loop :: "bitmap \<Rightarrow> u32 \<Rightarrow> bool \<Rightarrow> nat list \<Rightarrow> u32 option" where
  "scan_loop b cnt value [] = Some BITMAP_ERROR"
| "scan_loop b cnt value (i # is) = do {
     c \<leftarrow> bitmap_contains b (of_nat i) cnt (\<not> value);
     if \<not> c then Some (of_nat i) else scan_loop b cnt value is
   }"

definition bitmap_scan :: "bitmap \<Rightarrow> u32 \<Rightarrow> u32 \<Rightarrow> bool \<Rightarrow> u32 option" where
  "bitmap_scan b start cnt value = do {
     ASSERT (start \<le> bit_cnt b);
     if cnt \<le> bit_cnt b
     then (let last = bit_cnt b - cnt
           in scan_loop b cnt value [unat start..<Suc (unat last)])
     else Some BITMAP_ERROR
   }"

definition bitmap_scan_and_flip ::
    "bitmap \<Rightarrow> u32 \<Rightarrow> u32 \<Rightarrow> bool \<Rightarrow> (u32 \<times> bitmap) option" where
  "bitmap_scan_and_flip b start cnt value = do {
     idx \<leftarrow> bitmap_scan b start cnt value;
     if idx \<noteq> BITMAP_ERROR
     then do { b' \<leftarrow> bitmap_set_multiple b idx cnt (\<not> value); Some (idx, b') }
     else Some (idx, b)
   }"

section \<open>Creation and resizing\<close>

text \<open>
  The allocator's answers are arguments: \<^term>\<open>desc_ok\<close> says whether \<^verbatim>\<open>malloc (sizeof *b)\<close> succeeded, and
  \<^term>\<open>Some mem\<close> is the block the second \<^verbatim>\<open>malloc\<close> or \<^verbatim>\<open>realloc\<close> returned, with whatever it contains. The
  result \<^term>\<open>Some None\<close> is the null pointer.
\<close>

definition bitmap_create :: "bool \<Rightarrow> u32 list option \<Rightarrow> u32 \<Rightarrow> bitmap option option" where
  "bitmap_create desc_ok mem n =
     (if desc_ok then
        (if mem \<noteq> None \<or> n = 0 then
           (let b = \<lparr>bit_cnt = n, bits = (case mem of None \<Rightarrow> [] | Some ws \<Rightarrow> ws)\<rparr>
            in map_option Some (bitmap_set_all b False))
         else Some None)
      else Some None)"

definition bitmap_create_in_buf :: "u32 \<Rightarrow> u32 list \<Rightarrow> u32 \<Rightarrow> bitmap option" where
  "bitmap_create_in_buf n block block_size = do {
     ASSERT (bitmap_buf_size n \<le> block_size);
     bitmap_set_all \<lparr>bit_cnt = n, bits = block\<rparr> False
   }"

definition bitmap_extend :: "bitmap option \<Rightarrow> u32 \<Rightarrow> u32 list option \<Rightarrow> bitmap option option" where
  "bitmap_extend bm n mem =
     (case bm of
        None \<Rightarrow> Some None
      | Some b \<Rightarrow>
          if bit_cnt b \<le> n then Some (Some b)
          else (case mem of
                  None \<Rightarrow> Some None
                | Some ws \<Rightarrow>
                    (let old_count = bit_cnt b; b1 = \<lparr>bit_cnt = n, bits = ws\<rparr>
                     in map_option Some
                          (bitmap_set_multiple b1 (old_count + 1) (bit_cnt b1) False))))"

section \<open>File input and output\<close>

text \<open>
  \<^verbatim>\<open>bitmap_read\<close> fills the element array from a file: \<^term>\<open>data\<close> is what \<^verbatim>\<open>file_read_at\<close> left in the buffer
  and \<^term>\<open>got\<close> the number of bytes it returned. \<^verbatim>\<open>bitmap_write\<close> hands the array to \<^verbatim>\<open>file_write_at\<close>,
  whose answer is \<^term>\<open>put\<close>.
\<close>

definition bitmap_file_size :: "bitmap \<Rightarrow> u32" where
  "bitmap_file_size b = byte_cnt (bit_cnt b)"

definition bitmap_read :: "bitmap \<Rightarrow> u32 list \<Rightarrow> u32 \<Rightarrow> (bool \<times> bitmap) option" where
  "bitmap_read b data got =
     (if 0 < bit_cnt b then
        (let size = byte_cnt (bit_cnt b);
             b1 = b\<lparr>bits := data\<rparr>;
             last = elem_cnt (bit_cnt b) - 1
         in do {
              e \<leftarrow> elem_at b1 last;
              Some (got = size, b1\<lparr>bits := (bits b1)[unat last := e AND last_mask b1]\<rparr>)
            })
      else Some (True, b))"

definition bitmap_write :: "bitmap \<Rightarrow> (u32 list \<Rightarrow> u32 \<Rightarrow> u32) \<Rightarrow> bool" where
  "bitmap_write b file_write_at =
     (let size = byte_cnt (bit_cnt b) in file_write_at (bits b) size = size)"

section \<open>The array of bits a bitmap stands for\<close>

definition bval :: "bitmap \<Rightarrow> nat \<Rightarrow> bool" where
  "bval b i = bit (bits b ! (i div 32)) (i mod 32)"

definition bm_inv :: "bitmap \<Rightarrow> bool" where
  "bm_inv b \<longleftrightarrow> unat (bit_cnt b) \<le> 32 * length (bits b)"

abbreviation nbits :: "bitmap \<Rightarrow> nat" where
  "nbits b \<equiv> unat (bit_cnt b)"

lemma unat_elem_idx [width_simps]: "unat (elem_idx i) = unat i div 32"
  by (simp add: elem_idx_def unat_div)

lemma bit_bit_mask: "bit (bit_mask i) k \<longleftrightarrow> k = unat i mod 32"
proof -
  have "unat (i mod 32) = unat i mod 32" by (simp add: unat_mod)
  then show ?thesis
    by (auto simp: bit_mask_def bit_exp_iff possible_bit_word)
qed

lemma elem_at_in_range:
  assumes "bm_inv b" and "unat i < nbits b"
  shows "elem_at b (elem_idx i) = Some (bits b ! (unat i div 32))"
  using assms by (simp add: elem_at_def bm_inv_def width_simps less_mult_imp_div_less mult.commute)

lemma AND_bit_mask_nonzero: "e AND bit_mask i \<noteq> 0 \<longleftrightarrow> bit e (unat i mod 32)"
proof -
  have "e AND bit_mask i = 0 \<longleftrightarrow> (\<forall>k. \<not> (bit e k \<and> k = unat i mod 32))"
    by (auto simp: bit_eq_iff [where 'a = "32 word"] bit_and_iff bit_bit_mask
        dest!: spec [of _ "unat i mod 32"])
  then show ?thesis by blast
qed

lemma bitmap_test_eq:
  "bm_inv b \<Longrightarrow> unat i < nbits b \<Longrightarrow> bitmap_test b i = Some (bval b (unat i))"
  by (simp add: bitmap_test_def elem_at_in_range AND_bit_mask_nonzero bval_def word_less_nat_alt)

lemma bitmap_test_panic: "nbits b \<le> unat i \<Longrightarrow> bitmap_test b i = None"
  by (simp add: bitmap_test_def ASSERT_def word_less_nat_alt)

text \<open>Replacing one element by one that differs in a single bit changes exactly one bit of the array.\<close>

lemma bval_element_update:
  assumes "bm_inv b" and "i < nbits b" and "j < nbits b"
    and "\<And>k. k < 32 \<Longrightarrow> bit e k = (if k = i mod 32 then v else bit (bits b ! (i div 32)) k)"
  shows "bval (b\<lparr>bits := (bits b)[i div 32 := e]\<rparr>) j = (if j = i then v else bval b j)"
proof -
  have "i div 32 < length (bits b)"
    using assms(1,2) by (simp add: bm_inv_def less_mult_imp_div_less mult.commute)
  moreover have "j = i \<longleftrightarrow> j div 32 = i div 32 \<and> j mod 32 = i mod 32"
    by (metis div_mult_mod_eq)
  ultimately show ?thesis
    using assms(4) [of "j mod 32"] by (auto simp: bval_def nth_list_update)
qed

lemma bitmap_set_spec:
  assumes "bm_inv b" and "unat i < nbits b"
  shows "\<exists>b'. bitmap_set b i v = Some b' \<and> bm_inv b' \<and> bit_cnt b' = bit_cnt b
           \<and> length (bits b') = length (bits b)
           \<and> (\<forall>j < nbits b. bval b' j = (if j = unat i then v else bval b j))"
proof -
  let ?e = "bits b ! (unat i div 32)"
  let ?e' = "if v then ?e OR bit_mask i else ?e AND NOT (bit_mask i)"
  let ?b' = "b\<lparr>bits := (bits b)[unat i div 32 := ?e']\<rparr>"
  have "bitmap_set b i v = Some ?b'"
    using assms by (simp add: bitmap_set_def bitmap_mark_def bitmap_reset_def elem_at_in_range
        word_less_nat_alt width_simps)
  moreover have "bval ?b' j = (if j = unat i then v else bval b j)" if "j < nbits b" for j
    using assms that
    by (intro bval_element_update) (auto simp: bit_or_iff bit_and_iff bit_not_iff bit_bit_mask)
  ultimately show ?thesis using assms(1) by (auto simp: bm_inv_def)
qed

section \<open>Groups\<close>

lemma group_guard:
  assumes "unat start + unat cnt \<le> nbits b"
  shows "start \<le> bit_cnt b \<and> start + cnt \<le> bit_cnt b"
proof -
  have "unat (start + cnt) = unat start + unat cnt"
    using assms unat_lt_32 [of "bit_cnt b"] by (intro unat_plus_no_overflow) simp
  then show ?thesis using assms by (simp add: word_le_nat_alt)
qed

lemma group_index:
  assumes "unat (start :: u32) + unat cnt \<le> nbits b" and "i < unat cnt"
  shows "unat (start + of_nat i) = unat start + i \<and> unat start + i < nbits b"
  using assms unat_lt_32 [of "bit_cnt b"] unat_add_of_nat_32 [of start i] by auto

lemma bitmap_set_multiple_spec:
  assumes "bm_inv b" and "unat start + unat cnt \<le> nbits b"
  shows "\<exists>b'. bitmap_set_multiple b start cnt v = Some b' \<and> bm_inv b' \<and> bit_cnt b' = bit_cnt b
           \<and> length (bits b') = length (bits b)
           \<and> (\<forall>j < nbits b. bval b' j =
                (if unat start \<le> j \<and> j < unat start + unat cnt then v else bval b j))"
proof -
  let ?P = "\<lambda>n b'. bm_inv b' \<and> bit_cnt b' = bit_cnt b \<and> length (bits b') = length (bits b)
     \<and> (\<forall>j < nbits b. bval b' j = (if unat start \<le> j \<and> j < unat start + n then v else bval b j))"
  have "\<exists>b'. foldM (\<lambda>i b. bitmap_set b (start + of_nat i) v) [0..<unat cnt] b = Some b'
     \<and> ?P (unat cnt) b'"
  proof (rule foldM_upt)
    show "?P 0 b" using assms(1) by auto
  next
    fix i b1 assume i: "i < unat cnt" and P: "?P i b1"
    have ix: "unat (start + of_nat i) = unat start + i" "unat start + i < nbits b1"
      using group_index [OF assms(2) i] P by auto
    with P obtain b2 where "bitmap_set b1 (start + of_nat i) v = Some b2" "bm_inv b2"
      "bit_cnt b2 = bit_cnt b1" "length (bits b2) = length (bits b1)"
      "\<forall>j < nbits b1. bval b2 j = (if j = unat start + i then v else bval b1 j)"
      using bitmap_set_spec [of b1 "start + of_nat i" v] by auto
    with P show "\<exists>b'. bitmap_set b1 (start + of_nat i) v = Some b' \<and> ?P (Suc i) b'"
      by auto
  qed
  then show ?thesis
    using group_guard [OF assms(2)] by (simp add: bitmap_set_multiple_def)
qed

lemma contains_loop_eq:
  assumes "bm_inv b" and "\<forall>i \<in> set is. unat (start + of_nat i) = unat start + i
      \<and> unat start + i < nbits b"
  shows "contains_loop b start v is = Some (\<exists>i \<in> set is. bval b (unat start + i) = v)"
  using assms by (induction "is") (auto simp: bitmap_test_eq)

lemma bitmap_contains_eq:
  assumes "bm_inv b" and "unat start + unat cnt \<le> nbits b"
  shows "bitmap_contains b start cnt v = Some (\<exists>i < unat cnt. bval b (unat start + i) = v)"
proof -
  have "contains_loop b start v [0..<unat cnt]
      = Some (\<exists>i \<in> set [0..<unat cnt]. bval b (unat start + i) = v)"
    by (rule contains_loop_eq [OF assms(1)]) (use group_index [OF assms(2)] in auto)
  then show ?thesis
    using group_guard [OF assms(2)] by (auto simp: bitmap_contains_def)
qed

lemma bitmap_count_eq:
  assumes "bm_inv b" and "unat start + unat cnt \<le> nbits b"
  shows "bitmap_count b start cnt v
     = Some (of_nat (card {i. i < unat cnt \<and> bval b (unat start + i) = v}))"
proof -
  let ?f = "\<lambda>i (value_cnt :: u32). do {
     t \<leftarrow> bitmap_test b (start + of_nat i);
     Some (if t = v then value_cnt + 1 else value_cnt) }"
  let ?S = "\<lambda>n. {i. i < n \<and> bval b (unat start + i) = v}"
  have "\<exists>c. foldM ?f [0..<unat cnt] 0 = Some c \<and> c = of_nat (card (?S (unat cnt)))"
  proof (rule foldM_upt [where P = "\<lambda>n c. c = of_nat (card (?S n))"])
    fix i and c :: u32 assume i: "i < unat cnt" and c: "c = of_nat (card (?S i))"
    have "?S (Suc i) = (if bval b (unat start + i) = v then insert i (?S i) else ?S i)"
      by (auto simp: less_Suc_eq)
    then have "card (?S (Suc i)) = card (?S i) + (if bval b (unat start + i) = v then 1 else 0)"
      by simp
    then show "\<exists>s'. ?f i c = Some s' \<and> s' = of_nat (card (?S (Suc i)))"
      using group_index [OF assms(2) i] c by (simp add: bitmap_test_eq [OF assms(1)])
  qed simp
  then show ?thesis
    using group_guard [OF assms(2)] by (simp add: bitmap_count_def)
qed

section \<open>Scanning\<close>

text \<open>A group of \<^term>\<open>n\<close> bits, all equal to \<^term>\<open>v\<close>, that starts at \<^term>\<open>i\<close> and lies within the bitmap.\<close>

definition group_at :: "bitmap \<Rightarrow> nat \<Rightarrow> bool \<Rightarrow> nat \<Rightarrow> bool" where
  "group_at b n v i \<longleftrightarrow> i + n \<le> nbits b \<and> (\<forall>k < n. bval b (i + k) = v)"

lemma scan_loop_eq:
  assumes "bm_inv b" and "\<forall>i \<in> set is. i + unat cnt \<le> nbits b"
  shows "scan_loop b cnt v is
     = Some (case find (group_at b (unat cnt) v) is of None \<Rightarrow> BITMAP_ERROR | Some i \<Rightarrow> of_nat i)"
  using assms(2)
proof (induction "is")
  case (Cons i "is")
  then have "unat (of_nat i :: u32) = i"
    using unat_lt_32 [of "bit_cnt b"] by (intro unat_of_nat_32) simp
  with Cons.prems have "bitmap_contains b (of_nat i) cnt (\<not> v) = Some (\<not> group_at b (unat cnt) v i)"
    by (auto simp: bitmap_contains_eq [OF assms(1)] group_at_def)
  with Cons show ?case by simp
qed simp

lemma bitmap_scan_eq:
  assumes "bm_inv b" and "unat start \<le> nbits b" and "unat cnt \<le> nbits b"
  shows "bitmap_scan b start cnt v
     = Some (case find (group_at b (unat cnt) v) [unat start..<Suc (nbits b - unat cnt)]
             of None \<Rightarrow> BITMAP_ERROR | Some i \<Rightarrow> of_nat i)"
proof -
  have last: "unat (bit_cnt b - cnt) = nbits b - unat cnt"
    using assms(3) by (rule unat_minus_no_underflow)
  have "scan_loop b cnt v [unat start..<Suc (nbits b - unat cnt)]
      = Some (case find (group_at b (unat cnt) v) [unat start..<Suc (nbits b - unat cnt)]
              of None \<Rightarrow> BITMAP_ERROR | Some i \<Rightarrow> of_nat i)"
    using assms(1,3) by (intro scan_loop_eq) auto
  then show ?thesis
    using assms(2,3) last by (simp add: bitmap_scan_def word_le_nat_alt Let_def del: upt_Suc)
qed

lemma bitmap_scan_found:
  assumes "bm_inv b" and "unat start \<le> nbits b" and "unat start \<le> i" and "group_at b (unat cnt) v i"
    and "\<forall>j. unat start \<le> j \<and> j < i \<longrightarrow> \<not> group_at b (unat cnt) v j"
  shows "bitmap_scan b start cnt v = Some (of_nat i)"
proof -
  have le: "i + unat cnt \<le> nbits b" using assms(4) by (simp add: group_at_def)
  then have "find (group_at b (unat cnt) v) [unat start..<Suc (nbits b - unat cnt)] = Some i"
    using assms by (auto simp: find_upt_Some simp del: upt_Suc)
  then show ?thesis using assms(1,2) le by (simp add: bitmap_scan_eq del: upt_Suc)
qed

lemma bitmap_scan_none:
  assumes "bm_inv b" and "unat start \<le> nbits b"
    and "\<forall>j. unat start \<le> j \<longrightarrow> \<not> group_at b (unat cnt) v j"
  shows "bitmap_scan b start cnt v = Some BITMAP_ERROR"
proof (cases "unat cnt \<le> nbits b")
  case True
  have "find (group_at b (unat cnt) v) [unat start..<Suc (nbits b - unat cnt)] = None"
    using assms(3) by (auto simp: find_None_iff)
  then show ?thesis using assms(1,2) True by (simp add: bitmap_scan_eq del: upt_Suc)
next
  case False
  then show ?thesis using assms(2) by (simp add: bitmap_scan_def word_le_nat_alt)
qed

lemma group_below_error:
  assumes "group_at b (unat cnt) v i" and "cnt \<noteq> 0"
  shows "i < nbits b \<and> unat (of_nat i :: u32) = i \<and> (of_nat i :: u32) \<noteq> BITMAP_ERROR"
proof -
  have i: "i < nbits b"
    using assms by (simp add: group_at_def unat_gt_0 [symmetric])
  then have u: "unat (of_nat i :: u32) = i"
    using unat_lt_32 [of "bit_cnt b"] by (intro unat_of_nat_32) simp
  have "unat BITMAP_ERROR = 4294967295"
    by (simp add: BITMAP_ERROR_def unsigned_minus_1_eq_mask mask_eq_exp_minus_1)
  then show ?thesis using i u unat_lt_32 [of "bit_cnt b"] by auto
qed

lemma bitmap_scan_and_flip_found:
  assumes "bm_inv b" and "cnt \<noteq> 0" and "unat start \<le> nbits b" and "unat start \<le> i"
    and "group_at b (unat cnt) v i"
    and "\<forall>j. unat start \<le> j \<and> j < i \<longrightarrow> \<not> group_at b (unat cnt) v j"
  shows "\<exists>b'. bitmap_scan_and_flip b start cnt v = Some (of_nat i, b') \<and> bm_inv b'
     \<and> bit_cnt b' = bit_cnt b \<and> length (bits b') = length (bits b)
     \<and> (\<forall>j < nbits b. bval b' j = (if i \<le> j \<and> j < i + unat cnt then \<not> v else bval b j))"
proof -
  have i: "unat (of_nat i :: u32) = i" "(of_nat i :: u32) \<noteq> BITMAP_ERROR"
    using group_below_error [OF assms(5,2)] by auto
  have "i + unat cnt \<le> nbits b" using assms(5) by (simp add: group_at_def)
  then obtain b' where "bitmap_set_multiple b (of_nat i) cnt (\<not> v) = Some b'" "bm_inv b'"
    "bit_cnt b' = bit_cnt b" "length (bits b') = length (bits b)"
    "\<forall>j < nbits b. bval b' j = (if i \<le> j \<and> j < i + unat cnt then \<not> v else bval b j)"
    using bitmap_set_multiple_spec [OF assms(1), of "of_nat i" cnt "\<not> v"] i(1) by auto
  then show ?thesis
    using bitmap_scan_found [OF assms(1,3-6)] i(2) by (simp add: bitmap_scan_and_flip_def)
qed

lemma bitmap_scan_and_flip_none:
  assumes "bm_inv b" and "unat start \<le> nbits b"
    and "\<forall>j. unat start \<le> j \<longrightarrow> \<not> group_at b (unat cnt) v j"
  shows "bitmap_scan_and_flip b start cnt v = Some (BITMAP_ERROR, b)"
  using bitmap_scan_none [OF assms] by (simp add: bitmap_scan_and_flip_def)

lemma bitmap_scan_and_flip_cases:
  assumes "bm_inv b" and "cnt \<noteq> 0" and "unat start \<le> nbits b"
  obtains (none) "\<forall>j \<ge> unat start. \<not> group_at b (unat cnt) v j"
      "bitmap_scan_and_flip b start cnt v = Some (BITMAP_ERROR, b)"
  | (found) i b' where "unat start \<le> i" "group_at b (unat cnt) v i"
      "\<forall>j. unat start \<le> j \<and> j < i \<longrightarrow> \<not> group_at b (unat cnt) v j"
      "bitmap_scan_and_flip b start cnt v = Some (of_nat i, b')"
      "unat (of_nat i :: u32) = i" "(of_nat i :: u32) \<noteq> BITMAP_ERROR"
      "bm_inv b'" "bit_cnt b' = bit_cnt b" "length (bits b') = length (bits b)"
      "\<forall>j < nbits b. bval b' j = (if i \<le> j \<and> j < i + unat cnt then \<not> v else bval b j)"
proof (cases "\<exists>j \<ge> unat start. group_at b (unat cnt) v j")
  case True
  let ?Q = "\<lambda>i. unat start \<le> i \<and> group_at b (unat cnt) v i"
  define i where "i = Least ?Q"
  have i: "unat start \<le> i" "group_at b (unat cnt) v i"
    using True LeastI_ex [of ?Q] unfolding i_def by blast+
  have least: "\<forall>j. unat start \<le> j \<and> j < i \<longrightarrow> \<not> group_at b (unat cnt) v j"
    unfolding i_def using not_less_Least [of _ ?Q] by blast
  from bitmap_scan_and_flip_found [OF assms i least]
  obtain b' where b': "bitmap_scan_and_flip b start cnt v = Some (of_nat i, b')"
    "bm_inv b'" "bit_cnt b' = bit_cnt b" "length (bits b') = length (bits b)"
    "\<forall>j < nbits b. bval b' j = (if i \<le> j \<and> j < i + unat cnt then \<not> v else bval b j)"
    by blast
  have "unat (of_nat i :: u32) = i" "(of_nat i :: u32) \<noteq> BITMAP_ERROR"
    using group_below_error [OF i(2) assms(2)] by blast+
  from that(2) [OF i least b'(1) this b'(2-5)] show ?thesis .
next
  case False
  then have "\<forall>j \<ge> unat start. \<not> group_at b (unat cnt) v j" by simp
  with bitmap_scan_and_flip_none [OF assms(1,3)] show ?thesis by (intro that(1)) simp_all
qed

section \<open>A bitmap is a slot table\<close>

definition bitmap_grab :: "bitmap \<Rightarrow> u32 \<Rightarrow> (u32 \<times> bitmap) option" where
  "bitmap_grab b cnt = bitmap_scan_and_flip b 0 cnt False"

definition bitmap_release :: "bitmap \<Rightarrow> u32 \<Rightarrow> u32 \<Rightarrow> bitmap option" where
  "bitmap_release b start cnt = bitmap_set_multiple b start cnt False"

lemma nbits_le_error: "nbits b \<le> unat BITMAP_ERROR"
  using unat_lt_32 [of "bit_cnt b"]
  by (simp add: BITMAP_ERROR_def unsigned_minus_1_eq_mask mask_eq_exp_minus_1)

lemma free_run_iff_group:
  "(i + unat n \<le> nbits b \<and> (\<forall>k < unat n. \<not> bval b (i + k))) \<longleftrightarrow> group_at b (unat n) False i"
  by (simp add: group_at_def)

interpretation bm: slot_table bm_inv nbits bval bitmap_grab bitmap_release BITMAP_ERROR
proof (unfold_locales)
  fix b show "nbits b \<le> unat BITMAP_ERROR" by (rule nbits_le_error)
next
  fix b n assume g: "bm_inv b" "n \<noteq> (0 :: u32)"
  show "\<exists>r b'. bitmap_grab b n = Some (r, b') \<and> bm_inv b' \<and> nbits b' = nbits b"
    by (cases rule: bitmap_scan_and_flip_cases [OF g, of 0 False])
      (use g in \<open>auto simp: bitmap_grab_def\<close>)
next
  fix b n b' assume g: "bm_inv b" "n \<noteq> (0 :: u32)" and "bitmap_grab b n = Some (BITMAP_ERROR, b')"
  then show "b' = b \<and> \<not> (\<exists>i. i + unat n \<le> nbits b \<and> (\<forall>k < unat n. \<not> bval b (i + k)))"
    unfolding free_run_iff_group
    by (cases rule: bitmap_scan_and_flip_cases [OF g, of 0 False]) (auto simp: bitmap_grab_def)
next
  fix b n r b'
  assume g: "bm_inv b" "n \<noteq> (0 :: u32)" and "bitmap_grab b n = Some (r, b')" and "r \<noteq> BITMAP_ERROR"
  then show "unat r + unat n \<le> nbits b \<and> (\<forall>k < unat n. \<not> bval b (unat r + k))
     \<and> (\<forall>j < nbits b. bval b' j = (if unat r \<le> j \<and> j < unat r + unat n then True else bval b j))"
    by (cases rule: bitmap_scan_and_flip_cases [OF g, of 0 False])
      (auto simp: bitmap_grab_def group_at_def)
next
  fix b and r n :: u32 assume "bm_inv b" and "unat r + unat n \<le> nbits b"
  from bitmap_set_multiple_spec [OF this, of False]
  show "\<exists>b'. bitmap_release b r n = Some b' \<and> bm_inv b' \<and> nbits b' = nbits b
     \<and> (\<forall>j < nbits b. bval b' j = (if unat r \<le> j \<and> j < unat r + unat n then False else bval b j))"
    by (auto simp: bitmap_release_def)
qed

text \<open>
  The histories of a bitmap used as an allocator: it starts with every bit clear, groups are taken with
  \<^verbatim>\<open>bitmap_scan_and_flip (b, 0, cnt, false)\<close> and given back with \<^verbatim>\<open>bitmap_set_multiple (b, idx, cnt, false)\<close>.
  The second argument lists the groups in use.
\<close>

inductive bitmap_usage :: "bitmap \<Rightarrow> run list \<Rightarrow> bool" where
  fresh: "bm_inv b \<Longrightarrow> \<forall>j < nbits b. \<not> bval b j \<Longrightarrow> bitmap_usage b []"
| take_group: "bitmap_usage b gs \<Longrightarrow> cnt \<noteq> 0 \<Longrightarrow> bitmap_scan_and_flip b 0 cnt False = Some (idx, b')
    \<Longrightarrow> idx \<noteq> BITMAP_ERROR \<Longrightarrow> bitmap_usage b' ((unat idx, unat cnt) # gs)"
| full: "bitmap_usage b gs \<Longrightarrow> cnt \<noteq> 0 \<Longrightarrow> bitmap_scan_and_flip b 0 cnt False = Some (BITMAP_ERROR, b')
    \<Longrightarrow> bitmap_usage b' gs"
| give_back: "bitmap_usage b (gs @ (unat idx, unat cnt) # hs)
    \<Longrightarrow> bitmap_set_multiple b idx cnt False = Some b' \<Longrightarrow> bitmap_usage b' (gs @ hs)"

lemma bit_last_mask:
  "bit (last_mask b) k \<longleftrightarrow> k < 32 \<and> (nbits b mod 32 = 0 \<or> k < nbits b mod 32)"
proof -
  have m: "unat (bit_cnt b mod 32) = nbits b mod 32" by (simp add: unat_mod)
  have pm: "push_bit n 1 - 1 = (mask n :: u32)" for n by (simp add: mask_eq_exp_minus_1)
  have "last_mask b = mask (if nbits b mod 32 = 0 then 32 else nbits b mod 32)"
    by (simp only: last_mask_def m Let_def pm) (simp add: mask_eq_exp_minus_1)
  then show ?thesis
    by (simp only: bit_mask_iff possible_bit_word) auto
qed

lemma unat_elem_cnt:
  "unat n + 31 < 2 ^ 32 \<Longrightarrow> unat (elem_cnt n) = (unat n + 31) div 32"
proof -
  assume "unat n + 31 < 2 ^ 32"
  then have "unat (n + 31) = unat n + 31" by (simp add: unat_word_ariths)
  moreover have "n + 32 - 1 = n + 31" by simp
  ultimately show ?thesis by (simp only: elem_cnt_def unat_div) simp
qed

lemma round_up_div:
  assumes "n mod 32 \<noteq> (0 :: nat)"
  shows "(n + 31) div 32 = n div 32 + 1"
proof -
  have "n + 31 = 32 * (n div 32 + 1) + (n mod 32 - 1)" using assms by simp
  moreover have "n mod 32 - 1 < 32" by (simp add: less_imp_diff_less)
  ultimately show ?thesis by (metis div_mult_self4 div_less zero_neq_numeral add.right_neutral)
qed

lemma last_element_bound:
  assumes "0 < (n :: nat)" and "j < 32 * ((n + 31) div 32)"
  shows "j < n \<longleftrightarrow> j div 32 < (n + 31) div 32 - 1 \<or> n mod 32 = 0 \<or> j mod 32 < n mod 32"
proof -
  define q d r m where "q = (n + 31) div 32 - 1" and "d = j div 32" and "r = j mod 32" and "m = n mod 32"
  have n: "n = 32 * (n div 32) + m" and j: "j = 32 * d + r" and lt: "r < 32" "m < 32"
    by (simp_all add: d_def r_def m_def)
  have d: "d \<le> q"
    using assms(2) less_mult_imp_div_less [of j "(n + 31) div 32" 32]
    by (simp add: mult.commute q_def d_def)
  have q: "n div 32 = (if m = 0 then q + 1 else q)"
  proof (cases "m = 0")
    case True
    then obtain k where "n = 32 * k" by (auto simp: m_def elim: dvdE)
    with assms(1) show ?thesis by (simp add: q_def m_def)
  qed (simp add: q_def m_def round_up_div)
  have "j < n \<longleftrightarrow> d < q \<or> m = 0 \<or> r < m"
  proof (cases "m = 0 \<or> d < q")
    case True
    then have "32 * d + 32 \<le> n" using n q d by (cases "m = 0") simp_all
    then show ?thesis using j lt True by linarith
  next
    case False
    then show ?thesis using n q d j by simp
  qed
  then show ?thesis by (simp only: q_def d_def r_def m_def)
qed

lemma bitmap_set_bit_cnt: "bitmap_set b i v = Some b' \<Longrightarrow> bit_cnt b' = bit_cnt b"
  by (auto simp: bitmap_set_def bitmap_mark_def bitmap_reset_def panic_simps Let_def
      split: if_splits bind_splits)

lemma bitmap_set_multiple_overrun:
  assumes "nbits b < unat start + unat cnt"
  shows "bitmap_set_multiple b start cnt v = None"
proof (cases "start \<le> bit_cnt b \<and> start + cnt \<le> bit_cnt b")
  case True
  let ?i = "nbits b - unat start"
  have st: "unat start \<le> nbits b" using True by (simp add: word_le_nat_alt)
  then have "unat (start + of_nat ?i) = nbits b"
    using unat_lt_32 [of "bit_cnt b"] unat_add_of_nat_32 [of start ?i] by simp
  then have "bitmap_set c (start + of_nat ?i) v = None" if "bit_cnt c = bit_cnt b" for c
    using that by (simp add: bitmap_set_def ASSERT_def word_less_nat_alt)
  moreover have "?i \<in> set [0..<unat cnt]" using assms st by auto
  ultimately have "foldM (\<lambda>i c. bitmap_set c (start + of_nat i) v) [0..<unat cnt] b = None"
    by (intro foldM_stuck [where P = "\<lambda>c. bit_cnt c = bit_cnt b"])
      (auto dest: bitmap_set_bit_cnt)
  then show ?thesis by (simp add: bitmap_set_multiple_def ASSERT_def)
qed (auto simp: bitmap_set_multiple_def ASSERT_def)

section \<open>What the bitmap promises\<close>


text \<open>A bitmap of 40 bits whose first 33 bits are set: the first free group of 3 starts at bit 33.\<close>

definition bm_ex :: bitmap where
  "bm_ex = \<lparr>bit_cnt = 40, bits = [- 1, 1]\<rparr>"


text \<open>
  C7. No slot is handed out twice. Through every history of allocations and releases that starts from an
  all-clear bitmap, the groups in use lie within the bitmap, no two of them overlap, and a bit
  is set exactly when a group in use covers it.
\<close>

theorem bitmap_usage_ledger:
  "bitmap_usage b gs \<Longrightarrow> bm_inv b \<and> ledger (nbits b) (bval b) gs"
proof (induction rule: bitmap_usage.induct)
  case (fresh b)
  then show ?case by (simp add: ledger_def)
next
  case (take_group b gs cnt idx b')
  then show ?case using bm.grab_ledger [of b cnt idx b' gs] by (simp add: bitmap_grab_def)
next
  case (full b gs cnt b')
  then show ?case using bm.grab_none [of b cnt b'] by (simp add: bitmap_grab_def)
next
  case (give_back b gs idx cnt hs b')
  then show ?case using bm.release_ledger [of b gs idx cnt hs] by (auto simp: bitmap_release_def)
qed

theorem bitmap_usage_ledger_witness:
  "\<exists>b. bitmap_usage b [(3, 4)] \<and> ledger 40 (bval b) [(3, 4)]"
proof -
  let ?b0 = "\<lparr>bit_cnt = 40, bits = [0, 0]\<rparr> :: bitmap"
  have "bitmap_usage ?b0 []"
    by (rule fresh) (auto simp: bm_inv_def bval_def nth_Cons split: nat.splits)
  moreover have "bitmap_scan_and_flip ?b0 0 3 False = Some (0, ?b0\<lparr>bits := [7, 0]\<rparr>)" by code_simp
  ultimately have "bitmap_usage (?b0\<lparr>bits := [7, 0]\<rparr>) [(0, 3)]"
    using take_group [of ?b0 "[]" 3 0] by (simp add: BITMAP_ERROR_def)
  moreover have "bitmap_scan_and_flip (?b0\<lparr>bits := [7, 0]\<rparr>) 0 4 False = Some (3, ?b0\<lparr>bits := [127, 0]\<rparr>)"
    by code_simp
  ultimately have "bitmap_usage (?b0\<lparr>bits := [127, 0]\<rparr>) [(3, 4), (0, 3)]"
    using take_group [of "?b0\<lparr>bits := [7, 0]\<rparr>" "[(0, 3)]" 4 3] by (simp add: BITMAP_ERROR_def)
  moreover have "bitmap_set_multiple (?b0\<lparr>bits := [127, 0]\<rparr>) 0 3 False = Some (?b0\<lparr>bits := [120, 0]\<rparr>)"
    by code_simp
  ultimately have "bitmap_usage (?b0\<lparr>bits := [120, 0]\<rparr>) [(3, 4)]"
    using give_back [of "?b0\<lparr>bits := [127, 0]\<rparr>" "[(3, 4)]" 0 3 "[]"] by simp
  with bitmap_usage_ledger [OF this] show ?thesis by auto
qed

text \<open>
  C11. \<^verbatim>\<open>bitmap_set_multiple\<close> returns exactly when the group lies within the bitmap, in unbounded arithmetic. Its
  assertion adds 32-bit indices and can be passed by a sum that wraps around, but the assertion in
  \<^verbatim>\<open>bitmap_set\<close> then stops the loop at the first bit beyond the end.
\<close>

theorem bitmap_set_multiple_returns_iff:
  assumes "bm_inv b"
  shows "(\<exists>b'. bitmap_set_multiple b start cnt v = Some b') \<longleftrightarrow> unat start + unat cnt \<le> nbits b"
proof (cases "unat start + unat cnt \<le> nbits b")
  case True
  then show ?thesis using bitmap_set_multiple_spec [OF assms] by blast
next
  case False
  then show ?thesis by (simp add: bitmap_set_multiple_overrun)
qed

theorem bitmap_set_multiple_returns_iff_witness:
  "bm_inv bm_ex \<and> bitmap_set_multiple bm_ex 38 4294967290 True = None
   \<and> 38 + (4294967290 :: u32) \<le> bit_cnt bm_ex"
proof -
  have b: "bm_inv bm_ex" by (simp add: bm_inv_def bm_ex_def)
  then show ?thesis
    using bitmap_set_multiple_returns_iff [OF b, of 38 4294967290 True] by (simp add: bm_ex_def)
qed

text \<open>
  The queries on a group within the bitmap count, find or exclude exactly the bits of the value asked for:
  \<^verbatim>\<open>bitmap_count\<close> is the number of such bits, \<^verbatim>\<open>bitmap_contains\<close> and \<^verbatim>\<open>bitmap_any\<close> say whether there is one,
  \<^verbatim>\<open>bitmap_none\<close> that no bit of the group is set and \<^verbatim>\<open>bitmap_all\<close> that every one is.
\<close>

theorem bitmap_queries:
  assumes "bm_inv b" and "unat start + unat cnt \<le> nbits b"
  shows "bitmap_count b start cnt v
           = Some (of_nat (card {i. i < unat cnt \<and> bval b (unat start + i) = v}))
     \<and> bitmap_contains b start cnt v = Some (\<exists>i < unat cnt. bval b (unat start + i) = v)
     \<and> bitmap_any b start cnt = Some (\<exists>i < unat cnt. bval b (unat start + i))
     \<and> bitmap_none b start cnt = Some (\<forall>i < unat cnt. \<not> bval b (unat start + i))
     \<and> bitmap_all b start cnt = Some (\<forall>i < unat cnt. bval b (unat start + i))"
  using assms
  by (simp add: bitmap_count_eq bitmap_contains_eq bitmap_any_def bitmap_none_def bitmap_all_def)

theorem bitmap_queries_witness:
  "bitmap_count bm_ex 30 10 True = Some 3 \<and> card {i. i < 10 \<and> bval bm_ex (30 + i)} = 3
   \<and> bitmap_all bm_ex 0 33 = Some True"
proof -
  have b: "bm_inv bm_ex" by (simp add: bm_inv_def bm_ex_def)
  have n: "nbits bm_ex = 40" by (simp add: bm_ex_def)
  have c: "bitmap_count bm_ex 30 10 True = Some 3" by code_simp
  let ?S = "{i. i < 10 \<and> bval bm_ex (30 + i)}"
  have "card ?S \<le> card {..< 10 :: nat}" by (rule card_mono) auto
  then have s: "card ?S \<le> 10" by simp
  have "(of_nat (card ?S) :: u32) = 3" using bitmap_queries [OF b, of 30 10 True] c n by simp
  then have "unat (of_nat (card ?S) :: u32) = unat (3 :: u32)" by simp
  then have "card ?S = 3" using s unat_of_nat_32 [of "card ?S"] by simp
  moreover have "bitmap_all bm_ex 0 33 = Some True" by code_simp
  ultimately show ?thesis using c by simp
qed





end
