(* ===== verification/Fixed_Point.thy ===== *)
theory Fixed_Point
  imports Prelude "HOL-Library.Signed_Division"
begin

text \<open>
  Fixed-point arithmetic (\<^verbatim>\<open>threads/fixed-point.h\<close>), used by the multi-level feedback queue scheduler. A value of
  type \<^verbatim>\<open>fp\<close> is a signed 32-bit word with 14 fractional bits. Sums and differences wrap at 32 bits;
  products and quotients are formed at 64 bits, divided with truncation toward zero, and cut to 32
  bits on return. Division by zero traps.
\<close>

type_synonym fp = u32

definition F_CONV :: "'a::len word" where
  "F_CONV = push_bit 14 1"

text \<open>C division of signed words: truncation toward zero.\<close>

definition sdivw :: "'a::len word \<Rightarrow> 'a word \<Rightarrow> 'a word" where
  "sdivw x y = word_of_int (sint x sdiv sint y)"

definition conv_itofp :: "u32 \<Rightarrow> fp" where
  "conv_itofp n = n * F_CONV"

definition rnconv_fptoi :: "fp \<Rightarrow> u32" where
  "rnconv_fptoi x =
     (if 0 \<le> sint x then sdivw (x + sdivw F_CONV 2) F_CONV else sdivw (x - sdivw F_CONV 2) F_CONV)"

definition rzconv_fptoi :: "fp \<Rightarrow> u32" where
  "rzconv_fptoi x = sdivw x F_CONV"

definition add_fpfp :: "fp \<Rightarrow> fp \<Rightarrow> fp" where
  "add_fpfp x y = x + y"

definition add_fpn :: "fp \<Rightarrow> u32 \<Rightarrow> fp" where
  "add_fpn x n = add_fpfp x (conv_itofp n)"

definition sub_fpfp :: "fp \<Rightarrow> fp \<Rightarrow> fp" where
  "sub_fpfp x y = x - y"

definition sub_fpn :: "fp \<Rightarrow> u32 \<Rightarrow> fp" where
  "sub_fpn x n = sub_fpfp x (conv_itofp n)"

definition mult_fpfp :: "fp \<Rightarrow> fp \<Rightarrow> fp" where
  "mult_fpfp x y = ucast (sdivw ((scast x :: u64) * scast y) F_CONV)"

definition mult_fpn :: "fp \<Rightarrow> u32 \<Rightarrow> fp" where
  "mult_fpn x n = mult_fpfp x (conv_itofp n)"

definition div_fpfp :: "fp \<Rightarrow> fp \<Rightarrow> fp option" where
  "div_fpfp x y =
     (if y = 0 then None else Some (ucast (sdivw ((scast x :: u64) * F_CONV) (scast y))))"

definition div_fpn :: "fp \<Rightarrow> u32 \<Rightarrow> fp option" where
  "div_fpn x n = div_fpfp x (conv_itofp n)"

section \<open>Reading the results as integers\<close>

lemma sint_F_CONV [simp]: "sint (F_CONV :: u32) = 16384" "sint (F_CONV :: u64) = 16384"
  by (simp_all add: F_CONV_def)

lemma sint_range_32: "- 2147483648 \<le> sint (x :: u32)" "sint (x :: u32) < 2147483648"
  using sint_greater_eq [of x] sint_less [of x] by simp_all

lemma sint_word_of_int_fits:
  assumes "- (2 ^ (LENGTH('a) - 1)) \<le> i" and "i < 2 ^ (LENGTH('a) - 1)"
  shows "sint (word_of_int i :: 'a::len word) = i"
  using assms by (simp add: sint_sbintrunc' signed_take_bit_int_eq_self)

lemmas fits_32 = sint_word_of_int_fits [where 'a = 32, simplified]
lemmas fits_64 = sint_word_of_int_fits [where 'a = 64, simplified]

lemma ucast_word_of_int_64: "(ucast (word_of_int i :: u64) :: u32) = word_of_int i"
  by (rule bit_word_eqI) (simp add: bit_ucast_iff bit_of_int_iff)

lemma sint_scast_64: "sint (scast (x :: u32) :: u64) = sint x"
proof -
  have "sint (word_of_int (sint x) :: u64) = sint x"
    by (rule fits_64) (use sint_range_32 [of x] in linarith)+
  then show ?thesis by simp
qed

lemma word_arith_int:
  "(x :: u64) * y = word_of_int (sint x * sint y)"
  "(a :: u32) + b = word_of_int (sint a + sint b)"
  "a - b = word_of_int (sint a - sint b)"
  "a * b = word_of_int (sint a * sint b)"
  by simp_all

text \<open>Truncating division by a positive divisor stays within one divisor of the dividend.\<close>

lemma sdiv_pos_eq:
  "0 < c \<Longrightarrow> (a :: int) sdiv c = (if 0 \<le> a then a div c else - ((- a) div c))"
  by (auto simp: signed_divide_int_def sgn_if)

lemma sdiv_pos_abs: "0 < c \<Longrightarrow> \<bar>(a :: int) sdiv c\<bar> = \<bar>a\<bar> div c"
  by (auto simp: sdiv_pos_eq pos_imp_zdiv_nonneg_iff)

lemma sdiv_pos_bound: "0 < c \<Longrightarrow> \<bar>(a :: int) sdiv c\<bar> \<le> \<bar>a\<bar>"
  using zdiv_mono2 [of "\<bar>a\<bar>" 1 c] by (simp add: sdiv_pos_abs)

lemma sdiv_error: "c \<noteq> 0 \<Longrightarrow> \<bar>(a sdiv c) * c - a\<bar> < \<bar>c :: int\<bar>"
proof -
  assume c: "c \<noteq> 0"
  have "(a sdiv c) * c - a = - (a smod c)" by (simp add: minus_sdiv_mult_eq_smod [symmetric])
  then show ?thesis using smod_int_range [OF c, of a] by auto
qed

lemma sint_sdivw:
  assumes "0 < sint (y :: u32)"
  shows "sint (sdivw x y) = sint x sdiv sint y"
proof -
  have "\<bar>sint x sdiv sint y\<bar> \<le> \<bar>sint x\<bar>" using assms by (rule sdiv_pos_bound)
  moreover have "sint x sdiv sint y \<noteq> 2147483648"
  proof
    assume m: "sint x sdiv sint y = 2147483648"
    then have "\<bar>sint x\<bar> = 2147483648"
      using sint_range_32 [of x] \<open>\<bar>sint x sdiv sint y\<bar> \<le> \<bar>sint x\<bar>\<close> by simp
    then have "sint x < 0" using sint_range_32 [of x] by linarith
    moreover have "0 \<le> - sint x div sint y"
      using calculation assms by (simp add: pos_imp_zdiv_nonneg_iff)
    ultimately show False using m assms by (simp add: sdiv_pos_eq)
  qed
  ultimately show ?thesis
    unfolding sdivw_def by (intro fits_32) (use sint_range_32 [of x] in linarith)+
qed

lemma sint_conv_itofp:
  assumes "- 131072 \<le> sint n" and "sint n < 131072"
  shows "sint (conv_itofp n) = sint n * 16384"
proof -
  have "conv_itofp n = word_of_int (sint n * sint (F_CONV :: u32))"
    by (simp only: conv_itofp_def word_arith_int(4))
  then have "conv_itofp n = word_of_int (sint n * 16384)" by (simp only: sint_F_CONV)
  moreover have "sint (word_of_int (sint n * 16384) :: u32) = sint n * 16384"
    using assms by (intro fits_32) linarith+
  ultimately show ?thesis by simp
qed

lemma sint_mult_fpfp:
  assumes "- 2147483648 \<le> (sint x * sint y) sdiv 16384" and "(sint x * sint y) sdiv 16384 < 2147483648"
  shows "sint (mult_fpfp x y) = (sint x * sint y) sdiv 16384"
proof -
  have "\<bar>sint x\<bar> \<le> 2147483648" "\<bar>sint y\<bar> \<le> 2147483648"
    using sint_range_32 [of x] sint_range_32 [of y] by linarith+
  then have "\<bar>sint x * sint y\<bar> \<le> 2147483648 * 2147483648" 
    unfolding abs_mult by (rule mult_mono) simp_all
  then have "sint (word_of_int (sint x * sint y) :: u64) = sint x * sint y" by (intro fits_64) linarith+
  then have "sint ((scast x :: u64) * scast y) = sint x * sint y"
    by (simp only: word_arith_int(1) sint_scast_64)
  then have "mult_fpfp x y = word_of_int ((sint x * sint y) sdiv 16384)"
    by (simp only: mult_fpfp_def sdivw_def sint_F_CONV ucast_word_of_int_64)
  moreover have "sint (word_of_int ((sint x * sint y) sdiv 16384) :: u32) = (sint x * sint y) sdiv 16384"
    using assms by (rule fits_32)
  ultimately show ?thesis by simp
qed

lemma div_fpfp_eq:
  assumes "y \<noteq> 0" and "- 2147483648 \<le> (sint x * 16384) sdiv sint y" and "(sint x * 16384) sdiv sint y < 2147483648"
  shows "\<exists>r. div_fpfp x y = Some r \<and> sint r = (sint x * 16384) sdiv sint y"
proof -
  have "sint (word_of_int (sint x * 16384) :: u64) = sint x * 16384"
    using sint_range_32 [of x] by (intro fits_64) linarith+
  then have "sint ((scast x :: u64) * F_CONV) = sint x * 16384"
    by (simp only: word_arith_int(1) sint_scast_64 sint_F_CONV)
  then have "div_fpfp x y = Some (word_of_int ((sint x * 16384) sdiv sint y))"
    using assms(1) by (simp only: div_fpfp_def sdivw_def sint_scast_64 ucast_word_of_int_64 if_False)
  moreover have "sint (word_of_int ((sint x * 16384) sdiv sint y) :: u32) = (sint x * 16384) sdiv sint y"
    using assms(2,3) by (rule fits_32)
  ultimately show ?thesis by blast
qed

lemma half_F_CONV: "sdivw (F_CONV :: u32) 2 = 8192"
  by (simp add: sdivw_def)

lemma sint_rnconv_fptoi:
  assumes "\<bar>sint x\<bar> < 2147475456"
  shows "sint (rnconv_fptoi x)
     = (if 0 \<le> sint x then (sint x + 8192) div 16384 else - ((- sint x + 8192) div 16384))"
proof -
  have "sint (word_of_int (sint x + sint (8192 :: u32)) :: u32) = sint x + 8192" if "0 \<le> sint x"
    using assms that by (intro trans [OF fits_32]) simp_all
  moreover have "sint (word_of_int (sint x - sint (8192 :: u32)) :: u32) = sint x - 8192" if "\<not> 0 \<le> sint x"
    using assms that by (intro trans [OF fits_32]) simp_all
  ultimately have "sint (rnconv_fptoi x)
     = (if 0 \<le> sint x then (sint x + 8192) sdiv 16384 else (sint x - 8192) sdiv 16384)"
    unfolding rnconv_fptoi_def half_F_CONV word_arith_int(2,3) by (simp add: sint_sdivw)
  then show ?thesis by (auto simp: sdiv_pos_eq)
qed

section \<open>Accuracy\<close>



text \<open>
  C32. Products and quotients. When the exact result fits in the format, \<^verbatim>\<open>mult_fpfp\<close> and \<^verbatim>\<open>div_fpfp\<close> return the
  exact product or quotient truncated toward zero, so they are less than one unit in the last place away
  from it; a zero divisor traps.
\<close>

theorem fp_mult_div_accuracy:
  "(let p = (sint x * sint y) sdiv 16384 in - 2147483648 \<le> p \<and> p < 2147483648 \<longrightarrow>
      sint (mult_fpfp x y) = p \<and> \<bar>sint (mult_fpfp x y) * 16384 - sint x * sint y\<bar> < 16384)
   \<and> (let q = (sint x * 16384) sdiv sint y in y \<noteq> 0 \<and> - 2147483648 \<le> q \<and> q < 2147483648 \<longrightarrow>
      (\<exists>r. div_fpfp x y = Some r \<and> sint r = q \<and> \<bar>sint r * sint y - sint x * 16384\<bar> < \<bar>sint y\<bar>))
   \<and> div_fpfp x 0 = None"
proof (unfold Let_def, intro conjI impI)
  assume p: "- 2147483648 \<le> (sint x * sint y) sdiv 16384 \<and> (sint x * sint y) sdiv 16384 < 2147483648"
  show m: "sint (mult_fpfp x y) = (sint x * sint y) sdiv 16384" using p by (intro sint_mult_fpfp) simp_all
  show "\<bar>sint (mult_fpfp x y) * 16384 - sint x * sint y\<bar> < 16384"
    unfolding m using sdiv_error [of 16384 "sint x * sint y"] by simp
next
  assume q: "y \<noteq> 0 \<and> - 2147483648 \<le> (sint x * 16384) sdiv sint y \<and> (sint x * 16384) sdiv sint y < 2147483648"
  then obtain r where "div_fpfp x y = Some r" "sint r = (sint x * 16384) sdiv sint y"
    using div_fpfp_eq [of y x] by blast
  moreover have "sint y \<noteq> 0" using q by (metis signed_0 signed_word_eqI)
  ultimately show "\<exists>r. div_fpfp x y = Some r \<and> sint r = (sint x * 16384) sdiv sint y
      \<and> \<bar>sint r * sint y - sint x * 16384\<bar> < \<bar>sint y\<bar>"
    using sdiv_error [of "sint y" "sint x * 16384"] by simp
qed (simp add: div_fpfp_def)

theorem fp_mult_div_accuracy_witness:
  "sint (mult_fpfp 24576 32768) = 49152 \<and> (\<exists>r. div_fpfp 24576 32768 = Some r \<and> sint r = 12288)"
  using fp_mult_div_accuracy [of 24576 32768] by auto

end
