(* ===== verification/Linked_List.thy ===== *)
theory Linked_List
  imports Prelude
begin

text \<open>
  The kernel's intrusive doubly linked lists (\<^verbatim>\<open>lib/kernel/list.c\<close>). A pointer is a natural number with 0
  for \<^verbatim>\<open>NULL\<close>. The heap maps a list element to its \<^verbatim>\<open>prev\<close> and \<^verbatim>\<open>next\<close> links. A \<^verbatim>\<open>struct list\<close> at address
  \<^term>\<open>l\<close> holds two elements, the head at \<^term>\<open>l\<close> itself and the tail 8 bytes after it. Every operation
  is translated with the reads and writes of the source in their order; dereferencing \<^verbatim>\<open>NULL\<close>, a failed
  assertion and a loop that does not end are \<^term>\<open>None\<close>.
\<close>

section \<open>Links\<close>

type_synonym ptr = nat

abbreviation NULL :: ptr where
  "NULL \<equiv> 0"

record list_elem_heap =
  prv :: "ptr \<Rightarrow> ptr"
  nxt :: "ptr \<Rightarrow> ptr"

definition rd_prev :: "list_elem_heap \<Rightarrow> ptr \<Rightarrow> ptr option" where
  "rd_prev h p = (if p = NULL then None else Some (prv h p))"

definition rd_next :: "list_elem_heap \<Rightarrow> ptr \<Rightarrow> ptr option" where
  "rd_next h p = (if p = NULL then None else Some (nxt h p))"

definition wr_prev :: "list_elem_heap \<Rightarrow> ptr \<Rightarrow> ptr \<Rightarrow> list_elem_heap option" where
  "wr_prev h p v = (if p = NULL then None else Some (h\<lparr>prv := (prv h)(p := v)\<rparr>))"

definition wr_next :: "list_elem_heap \<Rightarrow> ptr \<Rightarrow> ptr \<Rightarrow> list_elem_heap option" where
  "wr_next h p v = (if p = NULL then None else Some (h\<lparr>nxt := (nxt h)(p := v)\<rparr>))"

lemmas link_defs = rd_prev_def rd_next_def wr_prev_def wr_next_def

definition is_head :: "list_elem_heap \<Rightarrow> ptr \<Rightarrow> bool" where
  "is_head h e \<longleftrightarrow> e \<noteq> NULL \<and> prv h e = NULL \<and> nxt h e \<noteq> NULL"

definition is_interior :: "list_elem_heap \<Rightarrow> ptr \<Rightarrow> bool" where
  "is_interior h e \<longleftrightarrow> e \<noteq> NULL \<and> prv h e \<noteq> NULL \<and> nxt h e \<noteq> NULL"

definition is_tail :: "list_elem_heap \<Rightarrow> ptr \<Rightarrow> bool" where
  "is_tail h e \<longleftrightarrow> e \<noteq> NULL \<and> prv h e \<noteq> NULL \<and> nxt h e = NULL"

section \<open>Traversal\<close>

definition list_end :: "ptr \<Rightarrow> ptr option" where
  "list_end l = do { ASSERT (l \<noteq> NULL); Some (l + 8) }"

definition list_head :: "ptr \<Rightarrow> ptr option" where
  "list_head l = do { ASSERT (l \<noteq> NULL); Some l }"

definition list_tail :: "ptr \<Rightarrow> ptr option" where
  "list_tail l = do { ASSERT (l \<noteq> NULL); Some (l + 8) }"

definition list_rend :: "ptr \<Rightarrow> ptr option" where
  "list_rend l = do { ASSERT (l \<noteq> NULL); Some l }"

definition list_init :: "list_elem_heap \<Rightarrow> ptr \<Rightarrow> list_elem_heap option" where
  "list_init h l = do {
     ASSERT (l \<noteq> NULL);
     h \<leftarrow> wr_prev h l NULL;
     h \<leftarrow> wr_next h l (l + 8);
     h \<leftarrow> wr_prev h (l + 8) l;
     wr_next h (l + 8) NULL
   }"

definition list_begin :: "list_elem_heap \<Rightarrow> ptr \<Rightarrow> ptr option" where
  "list_begin h l = do { ASSERT (l \<noteq> NULL); rd_next h l }"

definition list_next :: "list_elem_heap \<Rightarrow> ptr \<Rightarrow> ptr option" where
  "list_next h e = do { ASSERT (is_head h e \<or> is_interior h e); rd_next h e }"

definition list_rbegin :: "list_elem_heap \<Rightarrow> ptr \<Rightarrow> ptr option" where
  "list_rbegin h l = do { ASSERT (l \<noteq> NULL); rd_prev h (l + 8) }"

definition list_prev :: "list_elem_heap \<Rightarrow> ptr \<Rightarrow> ptr option" where
  "list_prev h e = do { ASSERT (is_interior h e \<or> is_tail h e); rd_prev h e }"

definition list_empty :: "list_elem_heap \<Rightarrow> ptr \<Rightarrow> bool option" where
  "list_empty h l = do { b \<leftarrow> list_begin h l; e \<leftarrow> list_end l; Some (b = e) }"

definition list_front :: "list_elem_heap \<Rightarrow> ptr \<Rightarrow> ptr option" where
  "list_front h l = do { emp \<leftarrow> list_empty h l; ASSERT (\<not> emp); rd_next h l }"

definition list_back :: "list_elem_heap \<Rightarrow> ptr \<Rightarrow> ptr option" where
  "list_back h l = do { emp \<leftarrow> list_empty h l; ASSERT (\<not> emp); rd_prev h (l + 8) }"

partial_function (option) size_loop :: "list_elem_heap \<Rightarrow> ptr \<Rightarrow> ptr \<Rightarrow> u32 \<Rightarrow> u32 option" where
  "size_loop h e end cnt =
     (if e \<noteq> end then do { e' \<leftarrow> list_next h e; size_loop h e' end (cnt + 1) } else Some cnt)"

definition list_size :: "list_elem_heap \<Rightarrow> ptr \<Rightarrow> u32 option" where
  "list_size h l = do { b \<leftarrow> list_begin h l; e \<leftarrow> list_end l; size_loop h b e 0 }"

section \<open>Insertion and removal\<close>

definition list_insert :: "list_elem_heap \<Rightarrow> ptr \<Rightarrow> ptr \<Rightarrow> list_elem_heap option" where
  "list_insert h before elem = do {
     ASSERT (is_interior h before \<or> is_tail h before);
     ASSERT (elem \<noteq> NULL);
     p \<leftarrow> rd_prev h before;
     h \<leftarrow> wr_prev h elem p;
     h \<leftarrow> wr_next h elem before;
     p \<leftarrow> rd_prev h before;
     h \<leftarrow> wr_next h p elem;
     wr_prev h before elem
   }"

definition list_splice :: "list_elem_heap \<Rightarrow> ptr \<Rightarrow> ptr \<Rightarrow> ptr \<Rightarrow> list_elem_heap option" where
  "list_splice h before first lst = do {
     ASSERT (is_interior h before \<or> is_tail h before);
     if first = lst then Some h else do {
       lst \<leftarrow> list_prev h lst;
       ASSERT (is_interior h first);
       ASSERT (is_interior h lst);
       p \<leftarrow> rd_prev h first; n \<leftarrow> rd_next h lst;
       h \<leftarrow> wr_next h p n;
       n \<leftarrow> rd_next h lst; p \<leftarrow> rd_prev h first;
       h \<leftarrow> wr_prev h n p;
       p \<leftarrow> rd_prev h before;
       h \<leftarrow> wr_prev h first p;
       h \<leftarrow> wr_next h lst before;
       p \<leftarrow> rd_prev h before;
       h \<leftarrow> wr_next h p first;
       wr_prev h before lst
     }
   }"

definition list_push_front :: "list_elem_heap \<Rightarrow> ptr \<Rightarrow> ptr \<Rightarrow> list_elem_heap option" where
  "list_push_front h l elem = do { b \<leftarrow> list_begin h l; list_insert h b elem }"

definition list_push_back :: "list_elem_heap \<Rightarrow> ptr \<Rightarrow> ptr \<Rightarrow> list_elem_heap option" where
  "list_push_back h l elem = do { e \<leftarrow> list_end l; list_insert h e elem }"

definition list_remove :: "list_elem_heap \<Rightarrow> ptr \<Rightarrow> (ptr \<times> list_elem_heap) option" where
  "list_remove h elem = do {
     ASSERT (is_interior h elem);
     p \<leftarrow> rd_prev h elem; n \<leftarrow> rd_next h elem;
     h \<leftarrow> wr_next h p n;
     n \<leftarrow> rd_next h elem; p \<leftarrow> rd_prev h elem;
     h \<leftarrow> wr_prev h n p;
     r \<leftarrow> rd_next h elem;
     Some (r, h)
   }"

definition list_pop_front :: "list_elem_heap \<Rightarrow> ptr \<Rightarrow> (ptr \<times> list_elem_heap) option" where
  "list_pop_front h l = do {
     front \<leftarrow> list_front h l;
     (_, h) \<leftarrow> list_remove h front;
     Some (front, h)
   }"

definition list_pop_back :: "list_elem_heap \<Rightarrow> ptr \<Rightarrow> (ptr \<times> list_elem_heap) option" where
  "list_pop_back h l = do {
     back \<leftarrow> list_back h l;
     (_, h) \<leftarrow> list_remove h back;
     Some (back, h)
   }"

section \<open>Whole-list operations\<close>

text \<open>\<^verbatim>\<open>swap (&e->prev, &e->next)\<close>.\<close>

definition swap_links :: "list_elem_heap \<Rightarrow> ptr \<Rightarrow> list_elem_heap option" where
  "swap_links h e = do {
     t \<leftarrow> rd_prev h e;
     n \<leftarrow> rd_next h e;
     h \<leftarrow> wr_prev h e n;
     wr_next h e t
   }"

partial_function (option) reverse_loop ::
    "list_elem_heap \<Rightarrow> ptr \<Rightarrow> ptr \<Rightarrow> list_elem_heap option" where
  "reverse_loop h e end =
     (if e \<noteq> end then do {
        h' \<leftarrow> swap_links h e;
        e' \<leftarrow> rd_prev h' e;
        reverse_loop h' e' end
      } else Some h)"

definition list_reverse :: "list_elem_heap \<Rightarrow> ptr \<Rightarrow> list_elem_heap option" where
  "list_reverse h l = do {
     emp \<leftarrow> list_empty h l;
     if \<not> emp then do {
       b \<leftarrow> list_begin h l;
       e \<leftarrow> list_end l;
       h \<leftarrow> reverse_loop h b e;
       t \<leftarrow> rd_next h l; u \<leftarrow> rd_prev h (l + 8);
       h \<leftarrow> wr_next h l u;
       h \<leftarrow> wr_prev h (l + 8) t;
       a \<leftarrow> rd_next h l; b \<leftarrow> rd_prev h (l + 8);
       t \<leftarrow> rd_prev h a; u \<leftarrow> rd_next h b;
       h \<leftarrow> wr_prev h a u;
       wr_next h b t
     } else Some h
   }"

text \<open>A \<^verbatim>\<open>list_less_func\<close> compares two elements; it reads the structures that embed them and changes nothing.\<close>

type_synonym list_less_func = "ptr \<Rightarrow> ptr \<Rightarrow> bool"

partial_function (option) is_sorted_loop ::
    "list_elem_heap \<Rightarrow> list_less_func \<Rightarrow> ptr \<Rightarrow> ptr \<Rightarrow> bool option" where
  "is_sorted_loop h lessf a b = do {
     a' \<leftarrow> list_next h a;
     if a' \<noteq> b then do {
       p \<leftarrow> list_prev h a';
       if lessf a' p then Some False else is_sorted_loop h lessf a' b
     } else Some True
   }"

definition is_sorted :: "list_elem_heap \<Rightarrow> list_less_func \<Rightarrow> ptr \<Rightarrow> ptr \<Rightarrow> bool option" where
  "is_sorted h lessf a b = (if a \<noteq> b then is_sorted_loop h lessf a b else Some True)"

partial_function (option) end_of_run_loop ::
    "list_elem_heap \<Rightarrow> list_less_func \<Rightarrow> ptr \<Rightarrow> ptr \<Rightarrow> ptr option" where
  "end_of_run_loop h lessf a b = do {
     a' \<leftarrow> list_next h a;
     if a' \<noteq> b then do {
       p \<leftarrow> list_prev h a';
       if \<not> lessf a' p then end_of_run_loop h lessf a' b else Some a'
     } else Some a'
   }"

definition find_end_of_run :: "list_elem_heap \<Rightarrow> list_less_func \<Rightarrow> ptr \<Rightarrow> ptr \<Rightarrow> ptr option" where
  "find_end_of_run h lessf a b = do {
     ASSERT (a \<noteq> NULL);
     ASSERT (b \<noteq> NULL);
     ASSERT (a \<noteq> b);
     end_of_run_loop h lessf a b
   }"

partial_function (option) merge_loop ::
    "list_elem_heap \<Rightarrow> list_less_func \<Rightarrow> ptr \<Rightarrow> ptr \<Rightarrow> ptr \<Rightarrow> list_elem_heap option" where
  "merge_loop h lessf a0 a1b0 b1 =
     (if a0 \<noteq> a1b0 \<and> a1b0 \<noteq> b1 then
        (if \<not> lessf a1b0 a0 then do {
           a0' \<leftarrow> list_next h a0;
           merge_loop h lessf a0' a1b0 b1
         } else do {
           n \<leftarrow> list_next h a1b0;
           p \<leftarrow> list_prev h n;
           h' \<leftarrow> list_splice h a0 p n;
           merge_loop h' lessf a0 n b1
         })
      else Some h)"

definition inplace_merge ::
    "list_elem_heap \<Rightarrow> list_less_func \<Rightarrow> ptr \<Rightarrow> ptr \<Rightarrow> ptr \<Rightarrow> list_elem_heap option" where
  "inplace_merge h lessf a0 a1b0 b1 = do {
     ASSERT (a0 \<noteq> NULL);
     ASSERT (a1b0 \<noteq> NULL);
     ASSERT (b1 \<noteq> NULL);
     s \<leftarrow> is_sorted h lessf a0 a1b0;
     ASSERT s;
     s \<leftarrow> is_sorted h lessf a1b0 b1;
     ASSERT s;
     merge_loop h lessf a0 a1b0 b1
   }"

text \<open>One pass of \<^verbatim>\<open>list_sort\<close>: the \<^verbatim>\<open>for\<close> loop, which counts the runs it outputs.\<close>

partial_function (option) sort_pass ::
    "list_elem_heap \<Rightarrow> list_less_func \<Rightarrow> ptr \<Rightarrow> ptr \<Rightarrow> u32 \<Rightarrow> (u32 \<times> list_elem_heap) option" where
  "sort_pass h lessf a0 end output_run_cnt =
     (if a0 \<noteq> end then do {
        a1b0 \<leftarrow> find_end_of_run h lessf a0 end;
        if a1b0 = end then Some (output_run_cnt + 1, h)
        else do {
          b1 \<leftarrow> find_end_of_run h lessf a1b0 end;
          h' \<leftarrow> inplace_merge h lessf a0 a1b0 b1;
          sort_pass h' lessf b1 end (output_run_cnt + 1)
        }
      } else Some (output_run_cnt, h))"

partial_function (option) sort_loop ::
    "list_elem_heap \<Rightarrow> list_less_func \<Rightarrow> ptr \<Rightarrow> list_elem_heap option" where
  "sort_loop h lessf l = do {
     b \<leftarrow> list_begin h l;
     e \<leftarrow> list_end l;
     r \<leftarrow> sort_pass h lessf b e 0;
     if 1 < fst r then sort_loop (snd r) lessf l else Some (snd r)
   }"

definition list_sort :: "list_elem_heap \<Rightarrow> ptr \<Rightarrow> list_less_func \<Rightarrow> list_elem_heap option" where
  "list_sort h l lessf = do {
     ASSERT (l \<noteq> NULL);
     h \<leftarrow> sort_loop h lessf l;
     b \<leftarrow> list_begin h l;
     e \<leftarrow> list_end l;
     s \<leftarrow> is_sorted h lessf b e;
     ASSERT s;
     Some h
   }"

partial_function (option) insert_position ::
    "list_elem_heap \<Rightarrow> list_less_func \<Rightarrow> ptr \<Rightarrow> ptr \<Rightarrow> ptr \<Rightarrow> ptr option" where
  "insert_position h lessf elem e end =
     (if e \<noteq> end then
        (if lessf elem e then Some e
         else do { e' \<leftarrow> list_next h e; insert_position h lessf elem e' end })
      else Some e)"

definition list_insert_ordered ::
    "list_elem_heap \<Rightarrow> ptr \<Rightarrow> ptr \<Rightarrow> list_less_func \<Rightarrow> list_elem_heap option" where
  "list_insert_ordered h l elem lessf = do {
     ASSERT (l \<noteq> NULL);
     ASSERT (elem \<noteq> NULL);
     b \<leftarrow> list_begin h l;
     end \<leftarrow> list_end l;
     e \<leftarrow> insert_position h lessf elem b end;
     list_insert h e elem
   }"

partial_function (option) unique_loop ::
    "list_elem_heap \<Rightarrow> list_less_func \<Rightarrow> ptr \<Rightarrow> ptr \<Rightarrow> ptr \<Rightarrow> list_elem_heap option" where
  "unique_loop h lessf duplicates elem end = do {
     next \<leftarrow> list_next h elem;
     if next \<noteq> end then
       (if \<not> lessf elem next \<and> \<not> lessf next elem then do {
          r \<leftarrow> list_remove h next;
          h' \<leftarrow> (if duplicates \<noteq> NULL then list_push_back (snd r) duplicates next else Some (snd r));
          unique_loop h' lessf duplicates elem end
        } else unique_loop h lessf duplicates next end)
     else Some h
   }"

definition list_unique ::
    "list_elem_heap \<Rightarrow> ptr \<Rightarrow> ptr \<Rightarrow> list_less_func \<Rightarrow> list_elem_heap option" where
  "list_unique h l duplicates lessf = do {
     ASSERT (l \<noteq> NULL);
     emp \<leftarrow> list_empty h l;
     if emp then Some h else do {
       b \<leftarrow> list_begin h l;
       e \<leftarrow> list_end l;
       unique_loop h lessf duplicates b e
     }
   }"

definition list_update_elem ::
    "list_elem_heap \<Rightarrow> ptr \<Rightarrow> ptr \<Rightarrow> list_less_func \<Rightarrow> list_elem_heap option" where
  "list_update_elem h l e cmp = do {
     ASSERT (l \<noteq> NULL);
     (_, h) \<leftarrow> list_remove h e;
     list_insert_ordered h l e cmp
   }"

partial_function (option) max_loop ::
    "list_elem_heap \<Rightarrow> list_less_func \<Rightarrow> ptr \<Rightarrow> ptr \<Rightarrow> ptr \<Rightarrow> ptr option" where
  "max_loop h lessf mx e end =
     (if e \<noteq> end then do {
        e' \<leftarrow> list_next h e;
        max_loop h lessf (if lessf mx e then e else mx) e' end
      } else Some mx)"

definition list_max :: "list_elem_heap \<Rightarrow> ptr \<Rightarrow> list_less_func \<Rightarrow> ptr option" where
  "list_max h l lessf = do {
     mx \<leftarrow> list_begin h l;
     end \<leftarrow> list_end l;
     if mx \<noteq> end then do { e \<leftarrow> list_next h mx; max_loop h lessf mx e end } else Some mx
   }"

partial_function (option) min_loop ::
    "list_elem_heap \<Rightarrow> list_less_func \<Rightarrow> ptr \<Rightarrow> ptr \<Rightarrow> ptr \<Rightarrow> ptr option" where
  "min_loop h lessf mn e end =
     (if e \<noteq> end then do {
        e' \<leftarrow> list_next h e;
        min_loop h lessf (if lessf e mn then e else mn) e' end
      } else Some mn)"

definition list_min :: "list_elem_heap \<Rightarrow> ptr \<Rightarrow> list_less_func \<Rightarrow> ptr option" where
  "list_min h l lessf = do {
     mn \<leftarrow> list_begin h l;
     end \<leftarrow> list_end l;
     if mn \<noteq> end then do { e \<leftarrow> list_next h mn; min_loop h lessf mn e end } else Some mn
   }"

section \<open>Chains\<close>

text \<open>
  \<^term>\<open>linked h xs\<close>: each element of the sequence points forward to the next one, which points back. Every
  mutation of the source is, as a whole, a composition of \<^term>\<open>link\<close> steps that make two elements
  neighbours.
\<close>

fun linked :: "list_elem_heap \<Rightarrow> ptr list \<Rightarrow> bool" where
  "linked h (x # y # zs) \<longleftrightarrow> nxt h x = y \<and> prv h y = x \<and> linked h (y # zs)"
| "linked h _ \<longleftrightarrow> True"

definition link :: "list_elem_heap \<Rightarrow> ptr \<Rightarrow> ptr \<Rightarrow> list_elem_heap" where
  "link h p b = h\<lparr>prv := (prv h)(b := p), nxt := (nxt h)(p := b)\<rparr>"

definition same_outside :: "ptr set \<Rightarrow> list_elem_heap \<Rightarrow> list_elem_heap \<Rightarrow> bool" where
  "same_outside S h h' \<longleftrightarrow> (\<forall>p. p \<notin> S \<longrightarrow> prv h' p = prv h p \<and> nxt h' p = nxt h p)"

lemma link_simps [simp]:
  "prv (link h p b) x = (if x = b then p else prv h x)"
  "nxt (link h p b) x = (if x = p then b else nxt h x)"
  by (simp_all add: link_def)

lemma same_outside_refl [simp]: "same_outside S h h"
  by (simp add: same_outside_def)

lemma same_outside_trans:
  "same_outside S h h1 \<Longrightarrow> same_outside T h1 h2 \<Longrightarrow> S \<subseteq> U \<Longrightarrow> T \<subseteq> U \<Longrightarrow> same_outside U h h2"
  unfolding same_outside_def by (metis subsetD)

lemma linked_split: "linked h (xs @ y # zs) \<longleftrightarrow> linked h (xs @ [y]) \<and> linked h (y # zs)"
proof (induction xs)
  case (Cons x xs)
  then show ?case by (cases xs) auto
qed simp

lemma linked_join:
  "xs \<noteq> [] \<Longrightarrow> ys \<noteq> [] \<Longrightarrow> linked h (xs @ ys) \<longleftrightarrow>
     linked h xs \<and> linked h ys \<and> nxt h (last xs) = hd ys \<and> prv h (hd ys) = last xs"
proof (induction xs)
  case (Cons x xs)
  then show ?case by (cases xs; cases ys) auto
qed simp

lemma linked_cong:
  assumes "\<And>x. x \<in> set (butlast ys) \<Longrightarrow> nxt h' x = nxt h x"
    and "\<And>x. x \<in> set (tl ys) \<Longrightarrow> prv h' x = prv h x"
  shows "linked h' ys = linked h ys"
  using assms
proof (induction ys rule: induct_list012)
  case (3 x y zs)
  have "linked h' (y # zs) = linked h (y # zs)" using 3 by (intro 3) auto
  with "3.prems" show ?case by simp
qed simp_all

lemma linked_link_other:
  "p \<notin> set (butlast ys) \<Longrightarrow> b \<notin> set (tl ys) \<Longrightarrow> linked (link h p b) ys = linked h ys"
  by (rule linked_cong) auto

section \<open>The list a heap holds\<close>

definition cells :: "ptr \<Rightarrow> ptr list \<Rightarrow> ptr set" where
  "cells l xs = insert l (insert (l + 8) (set xs))"

definition dll :: "list_elem_heap \<Rightarrow> ptr \<Rightarrow> ptr list \<Rightarrow> bool" where
  "dll h l xs \<longleftrightarrow> l \<noteq> NULL \<and> NULL \<notin> set xs \<and> distinct (l # xs @ [l + 8])
     \<and> prv h l = NULL \<and> nxt h (l + 8) = NULL \<and> linked h (l # xs @ [l + 8])"

lemma dll_frame:
  "dll h l xs \<Longrightarrow> same_outside S h h' \<Longrightarrow> S \<inter> cells l xs = {} \<Longrightarrow> dll h' l xs"
proof -
  assume d: "dll h l xs" and s: "same_outside S h h'" and i: "S \<inter> cells l xs = {}"
  have e: "prv h' p = prv h p \<and> nxt h' p = nxt h p" if "p \<in> set (l # xs @ [l + 8])" for p
    using s i that by (auto simp: same_outside_def cells_def)
  have "linked h' (l # xs @ [l + 8]) = linked h (l # xs @ [l + 8])"
    by (rule linked_cong) (use e in \<open>auto dest: in_set_butlastD\<close>)
  with d e show ?thesis by (auto simp: dll_def)
qed

lemma dll_facts:
  assumes "dll h l xs"
  shows "l \<noteq> NULL" and "NULL \<notin> set xs" and "distinct xs" and "l \<notin> set xs" and "l + 8 \<notin> set xs"
  using assms by (auto simp: dll_def)

lemma dll_cut:
  assumes "dll h l (xs @ ys)"
  shows "linked h (l # xs)" and "linked h (ys @ [l + 8])"
    and "nxt h (last (l # xs)) = hd (ys @ [l + 8])" and "prv h (hd (ys @ [l + 8])) = last (l # xs)"
  using assms linked_join [of "l # xs" "ys @ [l + 8]" h] by (auto simp: dll_def)

lemma hd_cells: "hd (ys @ [l + 8]) \<in> cells l (xs @ ys)"
  by (cases ys) (auto simp: cells_def)

lemma last_cells: "last (l # xs) \<in> cells l (xs @ ys)"
  by (auto simp: cells_def)

lemma cells_not_null: "dll h l xs \<Longrightarrow> p \<in> cells l xs \<Longrightarrow> p \<noteq> NULL"
  by (cases "p = NULL") (auto simp: dll_def cells_def)

lemma dll_interior:
  assumes "dll h l (xs @ e # ys)"
  shows "is_interior h e" and "prv h e = last (l # xs)" and "nxt h e = hd (ys @ [l + 8])"
proof -
  show p: "prv h e = last (l # xs)" using dll_cut(4) [OF assms] by simp
  show n: "nxt h e = hd (ys @ [l + 8])"
    using dll_cut(3) [of h l "xs @ [e]" ys] assms by simp
  have "last (l # xs) \<noteq> NULL" "hd (ys @ [l + 8]) \<noteq> NULL"
    using cells_not_null [OF assms last_cells] cells_not_null [OF assms, of "hd (ys @ [l + 8])"]
      hd_cells [of ys l "xs @ [e]"] by simp_all
  moreover have "e \<noteq> NULL" using assms by (auto simp: dll_def)
  ultimately show "is_interior h e" using p n by (simp add: is_interior_def)
qed

lemma dll_end:
  assumes "dll h l xs"
  shows "is_tail h (l + 8)" and "prv h (l + 8) = last (l # xs)"
  using dll_cut(4) [of h l xs "[]"] assms last_cells [of l xs "[]"]
  by (auto simp: is_tail_def dll_def dest!: cells_not_null [OF assms])

lemma dll_before:
  assumes "dll h l (xs @ ys)" and "b = hd (ys @ [l + 8])"
  shows "is_interior h b \<or> is_tail h b" and "prv h b = last (l # xs)"
  using assms dll_interior [of h l xs "hd ys" "tl ys"] dll_end [of h l xs] by (cases ys; simp)+

lemma list_next_dll: "dll h l (xs @ e # ys) \<Longrightarrow> list_next h e = Some (hd (ys @ [l + 8]))"
  using dll_interior [of h l xs e ys]
  by (simp add: list_next_def rd_next_def is_interior_def)

lemma list_prev_dll:
  "dll h l (xs @ ys) \<Longrightarrow> b = hd (ys @ [l + 8]) \<Longrightarrow> list_prev h b = Some (last (l # xs))"
  using dll_before [of h l xs ys b]
  by (auto simp: list_prev_def rd_prev_def is_interior_def is_tail_def)

lemma list_begin_dll: "dll h l xs \<Longrightarrow> list_begin h l = Some (hd (xs @ [l + 8]))"
  using dll_cut(3) [of h l "[]" xs] by (simp add: list_begin_def rd_next_def dll_def)

lemma list_end_dll: "dll h l xs \<Longrightarrow> list_end l = Some (l + 8)"
  by (simp add: list_end_def dll_def)

lemma list_empty_dll: "dll h l xs \<Longrightarrow> list_empty h l = Some (xs = [])"
  using dll_facts(5) [of h l xs] by (cases xs) (auto simp: list_empty_def list_begin_dll list_end_dll)

lemma list_init_dll:
  assumes "l \<noteq> NULL"
  shows "\<exists>h'. list_init h l = Some h' \<and> dll h' l [] \<and> same_outside (cells l []) h h'"
  using assms by (auto simp: list_init_def link_defs dll_def same_outside_def cells_def)

section \<open>Insertion, removal and splicing\<close>

lemma list_insert_link:
  assumes "is_interior h b \<or> is_tail h b" and "e \<noteq> NULL" and "e \<noteq> b" and "e \<noteq> prv h b"
  shows "list_insert h b e = Some (link (link h (prv h b) e) e b)"
  using assms
  by (auto simp: list_insert_def link_defs is_interior_def is_tail_def link_def fun_upd_twist)

lemma list_remove_link:
  assumes "is_interior h e" and "prv h e \<noteq> e" and "nxt h e \<noteq> e"
  shows "list_remove h e = Some (nxt h e, link h (prv h e) (nxt h e))"
  using assms by (auto simp: list_remove_def link_defs is_interior_def link_def)

text \<open>The effect of the link steps on a chain, seen from the places where it is cut.\<close>

lemma linked_link_left:
  "p \<notin> set A \<Longrightarrow> b \<notin> set A \<Longrightarrow> b \<noteq> q \<Longrightarrow> linked (link h p b) (A @ [q]) = linked h (A @ [q])"
  by (rule linked_link_other) (auto simp: tl_append split: list.splits)

lemma linked_link_right:
  "p \<noteq> c \<Longrightarrow> p \<notin> set B \<Longrightarrow> b \<notin> set B \<Longrightarrow> linked (link h p b) (c # B) = linked h (c # B)"
  by (rule linked_link_other) (auto dest: in_set_butlastD)

lemma linked_insert:
  assumes "linked h (A @ p # b # B)" and "distinct (A @ p # b # B)" and "e \<notin> set (A @ p # b # B)"
  shows "linked (link (link h p e) e b) (A @ p # e # b # B)"
proof -
  let ?h = "link (link h p e) e b"
  have "linked h (A @ [p])" "linked h (b # B)"
    using assms(1) linked_split [of h A p "b # B"] linked_split [of h "[p]" b B] by auto
  then have "linked ?h (A @ [p])" "linked ?h (b # B)"
    using assms(2,3) by (auto simp: linked_link_left linked_link_right)
  then show ?thesis using assms(2,3) by (auto simp: linked_split [of _ A p "e # b # B"])
qed

lemma linked_remove:
  assumes "linked h (A @ p # es @ n # B)" and "distinct (A @ p # es @ n # B)"
  shows "linked (link h p n) (A @ p # n # B)"
proof -
  have "linked h (A @ [p])" "linked h (n # B)"
    using assms(1) linked_split [of h A p "es @ n # B"] linked_split [of h "p # es" n B] by auto
  then have "linked (link h p n) (A @ [p])" "linked (link h p n) (n # B)"
    using assms(2) by (auto simp: linked_link_left linked_link_right)
  then show ?thesis by (auto simp: linked_split [of _ A p "n # B"])
qed

lemma dll_cutE:
  assumes "dll h l (xs @ ys)"
  obtains A p b B where "l # xs = A @ [p]" and "ys @ [l + 8] = b # B" and "p = last (l # xs)"
    and "b = hd (ys @ [l + 8])" and "linked h (A @ p # b # B)" and "distinct (A @ p # b # B)"
    and "cells l (xs @ ys) = set (A @ p # b # B)" and "l = hd (A @ [p])" and "l + 8 = last (b # B)"
proof -
  have A: "l # xs = butlast (l # xs) @ [last (l # xs)]" by (rule append_butlast_last_id [symmetric]) simp
  have B: "ys @ [l + 8] = hd (ys @ [l + 8]) # tl (ys @ [l + 8])" by (cases ys) auto
  have e: "l # (xs @ ys) @ [l + 8] = butlast (l # xs) @ last (l # xs) # hd (ys @ [l + 8]) # tl (ys @ [l + 8])"
    using A B by (metis append.assoc append_Cons append_Nil)
  have c: "cells l (xs @ ys) = set (l # (xs @ ys) @ [l + 8])" by (auto simp: cells_def)
  have d: "linked h (l # (xs @ ys) @ [l + 8])" "distinct (l # (xs @ ys) @ [l + 8])"
    using assms by (simp_all add: dll_def)
  show ?thesis
  proof (rule that [OF A B refl refl])
    show "l = hd (butlast (l # xs) @ [last (l # xs)])" by (subst A [symmetric]) simp
    show "l + 8 = last (hd (ys @ [l + 8]) # tl (ys @ [l + 8]))" by (subst B [symmetric]) simp
  qed (use c d in \<open>simp_all only: e\<close>)
qed

lemma list_insert_dll:
  assumes "dll h l (xs @ ys)" and "e \<notin> cells l (xs @ ys)" and "e \<noteq> NULL"
  shows "\<exists>h'. list_insert h (hd (ys @ [l + 8])) e = Some h' \<and> dll h' l (xs @ e # ys)
     \<and> same_outside (insert e (cells l (xs @ ys))) h h'"
proof -
  obtain A p b B where c: "l # xs = A @ [p]" "ys @ [l + 8] = b # B" "p = last (l # xs)"
    "b = hd (ys @ [l + 8])" "linked h (A @ p # b # B)" "distinct (A @ p # b # B)"
    "cells l (xs @ ys) = set (A @ p # b # B)" "l = hd (A @ [p])" "l + 8 = last (b # B)"
    by (rule dll_cutE [OF assms(1)])
  note b = dll_before [OF assms(1) c(4)]
  let ?h = "link (link h p e) e b"
  have e: "e \<notin> set (A @ p # b # B)" using assms(2) c(7) by simp
  have "list_insert h b e = Some ?h"
    using list_insert_link [OF b(1) assms(3)] b(2) c(3) e by auto
  moreover have "linked ?h (l # (xs @ e # ys) @ [l + 8])"
    using linked_insert [OF c(5,6) e] arg_cong2 [OF c(1,2), of "\<lambda>u v. u @ e # v"] by simp
  moreover have "l \<noteq> b" "l \<noteq> e" "l + 8 \<noteq> p" "l + 8 \<noteq> e"
    using c(6,8,9) e by (auto simp: hd_append split: if_splits)
  moreover have "e \<noteq> NULL \<and> e \<noteq> l \<and> e \<noteq> l + 8 \<and> e \<notin> set xs \<and> e \<notin> set ys"
    using assms(2,3) by (simp add: cells_def)
  ultimately show ?thesis
    using assms(1) c(4,7) by (simp add: dll_def same_outside_def)
qed

lemma list_remove_dll:
  assumes "dll h l (xs @ e # ys)"
  shows "\<exists>h'. list_remove h e = Some (hd (ys @ [l + 8]), h') \<and> dll h' l (xs @ ys)
     \<and> same_outside (cells l (xs @ ys)) h h'"
proof -
  obtain A p b B where c: "l # xs = A @ [p]" "(e # ys) @ [l + 8] = b # B" "p = last (l # xs)"
    "b = hd ((e # ys) @ [l + 8])" "linked h (A @ p # b # B)" "distinct (A @ p # b # B)"
    "cells l (xs @ e # ys) = set (A @ p # b # B)" "l = hd (A @ [p])" "l + 8 = last (b # B)"
    by (rule dll_cutE [OF assms])
  define n where "n = hd (ys @ [l + 8])"
  have B: "B = ys @ [l + 8]" "b = e" using c(2) by auto
  then obtain B' where B': "B = n # B'" by (cases ys) (auto simp: n_def)
  note i = dll_interior [OF assms, folded n_def c(3)]
  let ?h = "link h p n"
  have "list_remove h e = Some (n, ?h)"
    using list_remove_link [OF i(1)] i(2,3) c(6) B(2) B' by auto
  moreover have "l # (xs @ ys) @ [l + 8] = A @ p # n # B'"
    using arg_cong2 [OF c(1), of "ys @ [l + 8]" "n # B'" append] B B' by simp
  then have "linked ?h (l # (xs @ ys) @ [l + 8])"
    using linked_remove [of h A p "[e]" n B'] c(5,6) B' \<open>b = e\<close> by simp
  moreover have "l \<noteq> n" "l + 8 \<noteq> p"
    using c(6,8,9) B' by (auto simp: hd_append split: if_splits)
  moreover have "p \<in> cells l (xs @ ys)" "n \<in> cells l (xs @ ys)"
    using last_cells [of l xs ys] hd_cells [of ys l xs] by (simp_all add: n_def c(3))
  ultimately show ?thesis
    using assms by (auto simp: dll_def same_outside_def n_def)
qed

lemma last_notin_butlast: "distinct xs \<Longrightarrow> xs \<noteq> [] \<Longrightarrow> last xs \<notin> set (butlast xs)"
  by (induction xs) (auto split: if_splits)

lemma hd_notin_tl: "distinct xs \<Longrightarrow> xs \<noteq> [] \<Longrightarrow> hd xs \<notin> set (tl xs)"
  by (cases xs) auto

lemma list_splice_link:
  assumes "is_interior h b \<or> is_tail h b" and "f \<noteq> n" and "list_prev h n = Some g"
    and "is_interior h f" and "is_interior h g" and "nxt h g = n" and "prv h f \<noteq> g" and "b \<noteq> f"
    and "h1 = link h (prv h f) n" and "prv h1 b \<noteq> g" and "prv h1 b \<noteq> NULL"
  shows "list_splice h b f n = Some (link (link h1 (prv h1 b) f) g b)"
  using assms
  by (auto simp: list_splice_def link_defs is_interior_def is_tail_def link_def fun_upd_twist)

text \<open>Exchanging two adjacent segments of a chain by relinking its three seams.\<close>

lemma linked_exchange:
  assumes "linked h (A @ ys @ zs @ B)" and dist: "distinct (A @ ys @ zs @ B)"
    and ne: "A \<noteq> []" "ys \<noteq> []" "zs \<noteq> []" "B \<noteq> []"
    and e: "q = last A" "b = hd ys" "p = last ys" "f = hd zs" "g = last zs" "n = hd B"
  shows "linked (link (link (link h p n) q f) g b) (A @ zs @ ys @ B)"
proof -
  let ?h = "link (link (link h p n) q f) g b"
  have mem: "q \<in> set A" "b \<in> set ys" "p \<in> set ys" "f \<in> set zs" "g \<in> set zs" "n \<in> set B"
    using ne by (simp_all add: e)
  have L: "linked h A" "linked h ys" "linked h zs" "linked h B"
    using assms(1) ne by (simp_all add: linked_join)
  have nb: "q \<notin> set (butlast A)" "p \<notin> set (butlast ys)" "g \<notin> set (butlast zs)"
    "b \<notin> set (tl ys)" "f \<notin> set (tl zs)" "n \<notin> set (tl B)"
    using dist ne by (simp_all add: last_notin_butlast hd_notin_tl e)
  have out: "x \<notin> set (butlast X)" "x \<notin> set (tl X)" if "x \<notin> set X" for x :: ptr and X
    using that by (cases X; auto dest: in_set_butlastD)+
  have "p \<notin> set A" "g \<notin> set A" "n \<notin> set A" "f \<notin> set A" "b \<notin> set A"
    "q \<notin> set ys" "g \<notin> set ys" "n \<notin> set ys" "f \<notin> set ys"
    "p \<notin> set zs" "q \<notin> set zs" "n \<notin> set zs" "b \<notin> set zs"
    "p \<notin> set B" "q \<notin> set B" "g \<notin> set B" "f \<notin> set B" "b \<notin> set B"
    using dist mem by auto
  then have "linked ?h A" "linked ?h ys" "linked ?h zs" "linked ?h B"
    using L nb by (simp_all add: linked_link_other out)
  moreover have "n \<noteq> b" "f \<noteq> n" "p \<noteq> g" "b \<noteq> f" "q \<noteq> g" "p \<noteq> q" using dist mem by auto
  ultimately show ?thesis using ne by (simp add: linked_join e)
qed

text \<open>Moving a run of elements forward within one list, as the merge step of the sort does.\<close>

lemma list_splice_dll:
  assumes "dll h l (xs @ ys @ zs @ ws)" and "ys \<noteq> []" and "zs \<noteq> []"
  shows "\<exists>h'. list_splice h (hd ys) (hd zs) (hd (ws @ [l + 8])) = Some h' \<and> dll h' l (xs @ zs @ ys @ ws)
     \<and> same_outside (cells l (xs @ ys @ zs @ ws)) h h'"
proof -
  define A q b p f g B n where d: "A = l # xs" "q = last A" "b = hd ys" "p = last ys" "f = hd zs" "g = last zs"
    "B = ws @ [l + 8]" "n = hd B"
  have ne: "A \<noteq> []" "B \<noteq> []" by (simp_all add: d)
  have dist: "distinct (A @ ys @ zs @ B)" and lk: "linked h (A @ ys @ zs @ B)"
    using assms(1) by (simp_all add: dll_def d)
  have mem: "q \<in> set A" "b \<in> set ys" "p \<in> set ys" "f \<in> set zs" "g \<in> set zs" "n \<in> set B"
    using assms(2,3) ne by (simp_all add: d(2-6,8) del: last.simps)
  have L: "prv h b = q" "prv h f = p" "nxt h g = n"
    using lk assms(2,3) ne by (simp_all add: linked_join d(2-6,8) del: last.simps)
  let ?h = "link (link (link h p n) q f) g b"
  obtain ys' zs' where yz: "ys = b # ys'" "zs = f # zs'" using assms(2,3) by (cases ys; cases zs) (auto simp: d)
  have int: "is_interior h b" "is_interior h f"
    using dll_interior(1) [of h l xs b "ys' @ zs @ ws"] dll_interior(1) [of h l "xs @ ys" f "zs' @ ws"]
      assms(1) yz by simp_all
  have zw: "zs @ ws = butlast zs @ g # ws" using append_butlast_last_id [OF assms(3)] by (simp add: d(6))
  have "dll h l ((xs @ ys @ butlast zs) @ g # ws)" using assms(1) unfolding zw by simp
  then have "is_interior h g" by (rule dll_interior)
  moreover have "list_prev h n = Some g"
    using list_prev_dll [of h l "xs @ ys @ zs" ws n] assms(1,3) by (simp add: d)
  moreover have "n \<noteq> b" "f \<noteq> n" "p \<noteq> g" "b \<noteq> f" "q \<noteq> g" using dist mem by auto
  moreover have "q \<noteq> NULL" using int L(1) by (simp add: is_interior_def)
  ultimately have splice: "list_splice h b f n = Some ?h"
    using list_splice_link [of h b f n g "link h p n"] int L by simp
  have lk': "linked ?h (l # (xs @ zs @ ys @ ws) @ [l + 8])"
    using linked_exchange [OF lk dist ne(1) assms(2,3) ne(2) d(2-6,8)] by (simp add: d(1,7))
  have "l \<noteq> n" "l \<noteq> f" "l \<noteq> b" "l + 8 \<noteq> p" "l + 8 \<noteq> q" "l + 8 \<noteq> g"
    using dist mem by (auto simp: d(1,7))
  moreover have "{p, n, q, f, g, b} \<subseteq> cells l (xs @ ys @ zs @ ws)"
    using mem by (auto simp: cells_def d(1,7))
  ultimately show ?thesis
    using splice lk' assms(1) by (auto simp: dll_def same_outside_def d(3,5,7,8))
qed

text \<open>The ends of the list.\<close>

lemma list_push_back_dll:
  assumes "dll h l xs" and "e \<notin> cells l xs" and "e \<noteq> NULL"
  shows "\<exists>h'. list_push_back h l e = Some h' \<and> dll h' l (xs @ [e])
     \<and> same_outside (insert e (cells l xs)) h h'"
  using list_insert_dll [of h l xs "[]" e] assms by (simp add: list_push_back_def list_end_dll)

lemma list_push_front_dll:
  assumes "dll h l xs" and "e \<notin> cells l xs" and "e \<noteq> NULL"
  shows "\<exists>h'. list_push_front h l e = Some h' \<and> dll h' l (e # xs)
     \<and> same_outside (insert e (cells l xs)) h h'"
  using list_insert_dll [of h l "[]" xs e] assms by (simp add: list_push_front_def list_begin_dll)

lemma list_pop_front_dll:
  assumes "dll h l (x # xs)"
  shows "\<exists>h'. list_pop_front h l = Some (x, h') \<and> dll h' l xs \<and> same_outside (cells l xs) h h'"
  using list_remove_dll [of h l "[]" x xs] assms list_begin_dll [OF assms] list_empty_dll [OF assms]
  by (auto simp: list_pop_front_def list_front_def list_begin_def dll_def)

lemma list_pop_back_dll:
  assumes "dll h l (xs @ [x])"
  shows "\<exists>h'. list_pop_back h l = Some (x, h') \<and> dll h' l xs \<and> same_outside (cells l xs) h h'"
  using list_remove_dll [of h l xs x "[]"] assms dll_end(2) [OF assms] list_empty_dll [OF assms]
  by (auto simp: list_pop_back_def list_back_def rd_prev_def)

text \<open>Popping an empty list is a panic, not a wild access.\<close>

lemma list_pop_empty: "dll h l [] \<Longrightarrow> list_pop_front h l = None \<and> list_pop_back h l = None"
  by (simp add: list_pop_front_def list_pop_back_def list_front_def list_back_def list_empty_dll)

lemma size_loop_dll:
  "dll h l (xs @ ys) \<Longrightarrow> size_loop h (hd (ys @ [l + 8])) (l + 8) c = Some (c + of_nat (length ys))"
proof (induction ys arbitrary: xs c)
  case (Cons y ys)
  then have "y \<noteq> l + 8" "list_next h y = Some (hd (ys @ [l + 8]))"
    by (auto simp: dll_def intro: list_next_dll)
  with Cons.IH [of "xs @ [y]" "c + 1"] Cons.prems show ?case
    by (subst size_loop.simps) (simp add: ac_simps)
qed (simp add: size_loop.simps)

lemma list_size_dll: "dll h l xs \<Longrightarrow> list_size h l = Some (of_nat (length xs))"
  using size_loop_dll [of h l "[]" xs 0] by (simp add: list_size_def list_begin_dll list_end_dll)

section \<open>Ordered insertion, extremes, duplicates, reversal\<close>

fun ins_ord :: "('a \<Rightarrow> 'a \<Rightarrow> bool) \<Rightarrow> 'a \<Rightarrow> 'a list \<Rightarrow> 'a list" where
  "ins_ord lt e [] = [e]"
| "ins_ord lt e (x # xs) = (if lt e x then e # x # xs else x # ins_ord lt e xs)"

fun pick_max :: "('a \<Rightarrow> 'a \<Rightarrow> bool) \<Rightarrow> 'a \<Rightarrow> 'a list \<Rightarrow> 'a" where
  "pick_max lt m [] = m"
| "pick_max lt m (x # xs) = pick_max lt (if lt m x then x else m) xs"

text \<open>The elements kept and the elements dropped by \<^verbatim>\<open>list_unique\<close>.\<close>

fun uniq :: "('a \<Rightarrow> 'a \<Rightarrow> bool) \<Rightarrow> 'a list \<Rightarrow> 'a list \<times> 'a list" where
  "uniq lt (x # y # ys) =
     (if \<not> lt x y \<and> \<not> lt y x then (let (k, d) = uniq lt (x # ys) in (k, y # d))
      else (let (k, d) = uniq lt (y # ys) in (x # k, d)))"
| "uniq lt xs = (xs, [])"

lemma ins_ord_split:
  "ins_ord lt e xs = takeWhile (\<lambda>x. \<not> lt e x) xs @ e # dropWhile (\<lambda>x. \<not> lt e x) xs"
  by (induction xs) auto

lemma set_ins_ord [simp]: "set (ins_ord lt e xs) = insert e (set xs)"
  by (induction xs) auto

lemma distinct_ins_ord [simp]: "distinct (ins_ord lt e xs) \<longleftrightarrow> distinct (e # xs)"
  by (induction xs) auto

lemma length_ins_ord [simp]: "length (ins_ord lt e xs) = Suc (length xs)"
  by (induction xs) auto

lemma insert_position_dll:
  "dll h l (xs @ ys) \<Longrightarrow> insert_position h lt e (hd (ys @ [l + 8])) (l + 8)
     = Some (hd (dropWhile (\<lambda>x. \<not> lt e x) ys @ [l + 8]))"
proof (induction ys arbitrary: xs)
  case (Cons y ys)
  then have "y \<noteq> l + 8" "list_next h y = Some (hd (ys @ [l + 8]))"
    by (auto simp: dll_def intro: list_next_dll)
  with Cons.IH [of "xs @ [y]"] Cons.prems show ?case by (subst insert_position.simps) simp
qed (simp add: insert_position.simps)

lemma list_insert_ordered_dll:
  assumes "dll h l xs" and "e \<notin> cells l xs" and "e \<noteq> NULL"
  shows "\<exists>h'. list_insert_ordered h l e lt = Some h' \<and> dll h' l (ins_ord lt e xs)
     \<and> same_outside (insert e (cells l xs)) h h'"
proof -
  let ?t = "takeWhile (\<lambda>x. \<not> lt e x) xs" and ?d = "dropWhile (\<lambda>x. \<not> lt e x) xs"
  have "dll h l (?t @ ?d)" "e \<notin> cells l (?t @ ?d)" using assms by simp_all
  from list_insert_dll [OF this assms(3)] show ?thesis
    using insert_position_dll [of h l "[]" xs lt e] assms
    by (simp add: list_insert_ordered_def list_begin_dll list_end_dll ins_ord_split dll_facts(1))
qed

lemma list_update_elem_dll:
  assumes "dll h l (xs @ e # ys)"
  shows "\<exists>h'. list_update_elem h l e lt = Some h' \<and> dll h' l (ins_ord lt e (xs @ ys))
     \<and> same_outside (cells l (xs @ e # ys)) h h'"
proof -
  obtain h1 where h1: "list_remove h e = Some (hd (ys @ [l + 8]), h1)" "dll h1 l (xs @ ys)"
    "same_outside (cells l (xs @ ys)) h h1"
    using list_remove_dll [OF assms] by blast
  have e: "e \<notin> cells l (xs @ ys)" "e \<noteq> NULL" using assms by (auto simp: dll_def cells_def)
  obtain h2 where "list_insert_ordered h1 l e lt = Some h2" "dll h2 l (ins_ord lt e (xs @ ys))"
    "same_outside (insert e (cells l (xs @ ys))) h1 h2"
    using list_insert_ordered_dll [OF h1(2) e] by blast
  then show ?thesis
    using h1 assms
    by (auto simp: list_update_elem_def dll_facts(1) cells_def intro: same_outside_trans)
qed

lemma list_update_elem_null: "list_update_elem h NULL e lt = None"
  by (simp add: list_update_elem_def)

lemma max_loop_dll:
  "dll h l (xs @ ys) \<Longrightarrow> max_loop h lt m (hd (ys @ [l + 8])) (l + 8) = Some (pick_max lt m ys)"
proof (induction ys arbitrary: xs m)
  case (Cons y ys)
  then have "y \<noteq> l + 8" "list_next h y = Some (hd (ys @ [l + 8]))"
    by (auto simp: dll_def intro: list_next_dll)
  with Cons.IH [of "xs @ [y]"] Cons.prems show ?case by (subst max_loop.simps) simp
qed (simp add: max_loop.simps)

lemma min_loop_dll:
  "dll h l (xs @ ys) \<Longrightarrow>
     min_loop h lt m (hd (ys @ [l + 8])) (l + 8) = Some (pick_max (\<lambda>x y. lt y x) m ys)"
proof (induction ys arbitrary: xs m)
  case (Cons y ys)
  then have "y \<noteq> l + 8" "list_next h y = Some (hd (ys @ [l + 8]))"
    by (auto simp: dll_def intro: list_next_dll)
  with Cons.IH [of "xs @ [y]"] Cons.prems show ?case by (subst min_loop.simps) simp
qed (simp add: min_loop.simps)

lemma list_max_min_dll:
  assumes "dll h l (x # xs)"
  shows "list_max h l lt = Some (pick_max lt x xs)" and "list_min h l lt = Some (pick_max (\<lambda>x y. lt y x) x xs)"
proof -
  have "x \<noteq> l + 8" "list_next h x = Some (hd (xs @ [l + 8]))"
    using assms list_next_dll [of h l "[]"] by (auto simp: dll_def)
  then show "list_max h l lt = Some (pick_max lt x xs)" "list_min h l lt = Some (pick_max (\<lambda>x y. lt y x) x xs)"
    using assms max_loop_dll [of h l "[x]" xs lt x] min_loop_dll [of h l "[x]" xs lt x]
    by (simp_all add: list_max_def list_min_def list_begin_dll list_end_dll)
qed

text \<open>The duplicates go to the end of the second list when there is one.\<close>

lemma unique_loop_dll:
  assumes "dll h l (xs @ y # ys)" and "dll h dl zs" and "cells l (xs @ y # ys) \<inter> cells dl zs = {}"
  shows "\<exists>h'. unique_loop h lt dl y (l + 8) = Some h' \<and> dll h' l (xs @ fst (uniq lt (y # ys)))
     \<and> dll h' dl (zs @ snd (uniq lt (y # ys)))"
  using assms
proof (induction ys arbitrary: h xs y zs)
  case Nil
  then have "list_next h y = Some (l + 8)" using list_next_dll [of h l xs y "[]"] by simp
  with Nil show ?case by (subst unique_loop.simps) simp
next
  case (Cons z ys)
  have n: "list_next h y = Some z" "z \<noteq> l + 8"
    using list_next_dll [OF Cons.prems(1)] Cons.prems(1) by (auto simp: dll_def)
  show ?case
  proof (cases "\<not> lt y z \<and> \<not> lt z y")
    case True
    have "dll h l ((xs @ [y]) @ z # ys)" using Cons.prems(1) by simp
    from list_remove_dll [OF this] obtain h1 where
      h1: "list_remove h z = Some (hd (ys @ [l + 8]), h1)" "dll h1 l (xs @ y # ys)"
        "same_outside (cells l (xs @ y # ys)) h h1" by auto
    have sub: "cells l (xs @ y # ys) \<subseteq> cells l (xs @ y # z # ys)" by (auto simp: cells_def)
    have d1: "dll h1 dl zs" by (rule dll_frame [OF Cons.prems(2) h1(3)]) (use sub Cons.prems(3) in blast)
    have z: "z \<notin> cells dl zs" "z \<noteq> NULL" "z \<notin> cells l (xs @ y # ys)"
      using Cons.prems(1,3) by (auto simp: dll_def cells_def)
    obtain h2 where h2: "list_push_back h1 dl z = Some h2" "dll h2 dl (zs @ [z])"
      "same_outside (insert z (cells dl zs)) h1 h2"
      using list_push_back_dll [OF d1 z(1,2)] by blast
    have dis: "insert z (cells dl zs) \<inter> cells l (xs @ y # ys) = {}"
      using Cons.prems(3) sub z(3) by blast
    have "dll h2 l (xs @ y # ys)" by (rule dll_frame [OF h1(2) h2(3) dis])
    moreover have "cells l (xs @ y # ys) \<inter> cells dl (zs @ [z]) = {}" using dis by (auto simp: cells_def)
    ultimately obtain h' where "unique_loop h2 lt dl y (l + 8) = Some h'"
      "dll h' l (xs @ fst (uniq lt (y # ys)))" "dll h' dl ((zs @ [z]) @ snd (uniq lt (y # ys)))"
      using Cons.IH h2(2) by blast
    then show ?thesis
      using True n h1(1) h2(1) dll_facts(1) [OF Cons.prems(2)]
      by (subst unique_loop.simps) (auto split: prod.splits)
  next
    case False
    have "dll h l ((xs @ [y]) @ z # ys)" "cells l ((xs @ [y]) @ z # ys) \<inter> cells dl zs = {}"
      using Cons.prems by simp_all
    with Cons.IH [of h "xs @ [y]" z zs] Cons.prems(2) False n show ?thesis
      by (subst unique_loop.simps) (auto split: prod.splits)
  qed
qed

lemma list_unique_dll:
  assumes "dll h l xs" and "dll h dl zs" and "cells l xs \<inter> cells dl zs = {}"
  shows "\<exists>h'. list_unique h l dl lt = Some h' \<and> dll h' l (fst (uniq lt xs))
     \<and> dll h' dl (zs @ snd (uniq lt xs))"
proof (cases xs)
  case Nil
  then show ?thesis using assms by (simp add: list_unique_def list_empty_dll dll_facts(1))
next
  case (Cons x ys)
  then show ?thesis
    using assms unique_loop_dll [of h l "[]" x ys dl zs lt]
    by (simp add: list_unique_def list_empty_dll list_begin_dll list_end_dll dll_facts(1))
qed

text \<open>The heap after the loop of \<^verbatim>\<open>list_reverse\<close> has visited the elements of \<^term>\<open>S\<close>.\<close>

definition rev_on :: "ptr set \<Rightarrow> list_elem_heap \<Rightarrow> list_elem_heap" where
  "rev_on S h = h\<lparr>prv := (\<lambda>p. if p \<in> S then nxt h p else prv h p),
                   nxt := (\<lambda>p. if p \<in> S then prv h p else nxt h p)\<rparr>"

lemma rev_on_simps [simp]:
  "prv (rev_on S h) p = (if p \<in> S then nxt h p else prv h p)"
  "nxt (rev_on S h) p = (if p \<in> S then prv h p else nxt h p)"
  by (simp_all add: rev_on_def)

lemma swap_links_rev_on:
  "y \<notin> S \<Longrightarrow> y \<noteq> NULL \<Longrightarrow> swap_links (rev_on S h) y = Some (rev_on (insert y S) h)"
  by (auto simp: swap_links_def link_defs rev_on_def fun_eq_iff)

lemma reverse_loop_dll:
  "dll h l (xs @ ys) \<Longrightarrow> reverse_loop (rev_on (set xs) h) (hd (ys @ [l + 8])) (l + 8)
     = Some (rev_on (set (xs @ ys)) h)"
proof (induction ys arbitrary: xs)
  case (Cons y ys)
  then have "y \<noteq> l + 8" "y \<notin> set xs" "y \<noteq> NULL" by (auto simp: dll_def)
  moreover have "nxt h y = hd (ys @ [l + 8])" using Cons.prems by (rule dll_interior)
  ultimately show ?case
    using Cons.IH [of "xs @ [y]"] Cons.prems
    by (subst reverse_loop.simps) (simp add: swap_links_rev_on rd_prev_def)
qed (simp add: reverse_loop.simps)

lemma linked_rev_on: "linked h ys \<Longrightarrow> set ys \<subseteq> S \<Longrightarrow> linked (rev_on S h) (rev ys)"
proof (induction ys rule: induct_list012)
  case (3 x y zs)
  then show ?case
    using linked_split [of "rev_on S h" "rev zs" y "[x]"] by simp
qed simp_all

lemma list_reverse_dll:
  assumes "dll h l xs"
  shows "\<exists>h'. list_reverse h l = Some h' \<and> dll h' l (rev xs) \<and> same_outside (cells l xs) h h'"
proof (cases "xs = []")
  case False
  define x z t h1 where d: "x = hd xs" "z = last xs" "t = l + 8" "h1 = rev_on (set xs) h"
  let ?h = "link (link h1 l z) x t"
  have f: "linked h xs" "nxt h l = x" "prv h x = l" "nxt h z = t" "prv h t = z"
    using assms False linked_join [of "[l]" "xs @ [t]" h] linked_join [of xs "[t]" h]
    by (simp_all add: dll_def d)
  have m: "x \<in> set xs" "z \<in> set xs" "l \<notin> set xs" "t \<notin> set xs" "l \<noteq> t" "NULL \<notin> set xs" "l \<noteq> NULL" "distinct xs"
    using assms False by (simp_all add: dll_def d)
  then have nz: "x \<noteq> NULL" "z \<noteq> NULL" "x \<noteq> l" "z \<noteq> t" "x \<noteq> t" "z \<noteq> l" by metis+
  have t0: "t \<noteq> NULL" by (simp add: d)
  have "reverse_loop h x t = Some h1"
    using reverse_loop_dll [of h l "[]" xs] assms False by (simp add: d rev_on_def)
  moreover have "nxt h1 l = x" "prv h1 t = z" "prv h1 z = t" "nxt h1 x = l"
    using f m by (simp_all add: d(4))
  ultimately have r: "list_reverse h l = Some ?h"
    using assms False nz m f t0 by (simp add: list_reverse_def list_empty_dll list_begin_dll list_end_dll
        link_defs link_def d(1,3) [symmetric] fun_upd_twist)
  have "linked h1 (rev xs)" unfolding d(4) using f(1) by (rule linked_rev_on) simp
  moreover have "z \<notin> set (tl (rev xs))" "x \<notin> set (butlast (rev xs))"
    using hd_notin_tl [of "rev xs"] last_notin_butlast [of "rev xs"] False m(8)
    by (simp_all add: d hd_rev last_rev)
  moreover have "l \<notin> set (butlast (rev xs))" "t \<notin> set (tl (rev xs))"
    using m by (auto dest: in_set_butlastD list.set_sel(2) [rotated])
  ultimately have "linked ?h (rev xs)" by (simp add: linked_link_other)
  then have "linked ?h (l # rev xs @ [t])"
    using False nz m linked_join [of "[l]" "rev xs @ [t]" ?h] linked_join [of "rev xs" "[t]" ?h]
    by (simp add: hd_rev last_rev d(1,2))
  then show ?thesis
    using r assms nz m by (auto simp: dll_def same_outside_def cells_def d(3,4))
qed (use assms in \<open>auto simp: list_reverse_def list_empty_dll\<close>)

end
