(* ===== verification/Kernel_State.thy ===== *)
theory Kernel_State
  imports Fixed_Point Linked_List
begin

text \<open>
  The state of the kernel's scheduler and of its synchronization objects: \<^verbatim>\<open>struct thread\<close> (\<^verbatim>\<open>threads/thread.h\<close>),
  \<^verbatim>\<open>struct semaphore\<close>, \<^verbatim>\<open>struct lock\<close>, \<^verbatim>\<open>struct condition\<close> and \<^verbatim>\<open>struct shared_lock\<close> (\<^verbatim>\<open>threads/synch.h\<close>),
  the file-level variables of \<^verbatim>\<open>threads/thread.c\<close> and \<^verbatim>\<open>devices/timer.c\<close>, and the interrupt state of
  \<^verbatim>\<open>threads/interrupt.c\<close>.

  Lists of threads are sequences of thread pointers; theory \<^verbatim>\<open>Linked_List\<close> shows that the pointer
  structures of \<^verbatim>\<open>lib/kernel/list.c\<close> implement the operations on sequences used here.

  The machine has one processor. A thread runs until it gives up the processor in \<^verbatim>\<open>schedule\<close>, or
  until a timer interrupt arrives while interrupts are on. The code that a thread still has to execute
  inside the kernel after it is scheduled again is kept explicitly, as a stack of pending calls: a
  C function that blocks in the middle pushes the calls that make up its rest.
\<close>

section \<open>Data\<close>

datatype intr_level = INTR_OFF | INTR_ON

datatype thread_status = THREAD_RUNNING | THREAD_READY | THREAD_BLOCKED | THREAD_DYING

type_synonym tptr = nat

text \<open>
  Addresses of synchronization objects. The lock and the condition of a shared lock are members of it, the
  semaphore of a lock is a member of the lock, and the semaphore that a thread waits on in \<^verbatim>\<open>cond_wait\<close>
  is a local variable of that thread.
\<close>

datatype lptr = Lock nat | TidLock | SharedLock nat
datatype cptr = Cond nat | SharedCond nat
datatype sptr = Sema nat | LockSema lptr | WaiterSema tptr

text \<open>The value of \<^verbatim>\<open>thread_pl\<close>: the address of the list that holds the thread by priority.\<close>

datatype plist = ReadyList | WaitersOf sptr

record thread =
  tid :: int
  status :: thread_status
  name :: string
  priority :: int
  original_priority :: int
  nice :: u32
  recent_cpu :: fp
  start :: int
  sleep :: int
  recently_up :: bool
  donated :: bool
  thread_pl :: "plist option"
  waiting_for_tlock :: tptr
  acquired_locks :: "lptr list"
  has_pagedir :: bool
  magic :: u32

record semaphore =
  sema_value :: u32
  waiters :: "tptr list"

definition THREAD_MAGIC :: u32 where
  "THREAD_MAGIC = 0xcd6abf4b"

definition PRI_MIN :: int where "PRI_MIN = 0"
definition PRI_DEFAULT :: int where "PRI_DEFAULT = 31"
definition PRI_MAX :: int where "PRI_MAX = 63"
definition TIME_SLICE :: nat where "TIME_SLICE = 4"
definition TIMER_FREQ :: int where "TIMER_FREQ = 100"

section \<open>Pending calls\<close>

text \<open>What a kernel thread executes first: the idle loop or a function of its own.\<close>

datatype thread_func = Idle sptr | Func

datatype call =
    C_intr_set_level intr_level
  | C_not_reached
  | C_thread_yield
  | C_thread_exit
  | C_thread_set_priority int
  | C_thread_set_nice u32
  | C_thread_create tptr string int thread_func
  | C_allocate_tid tptr
  | C_create_tail tptr thread_func
  | C_kernel_thread thread_func
  | C_idle_loop
  | C_sti_hlt
  | C_timer_sleep int
  | C_sema_down sptr
  | C_sema_loop sptr intr_level
  | C_sema_up sptr
  | C_sema_pop sptr
  | C_sema_try_down sptr
  | C_lock_acquire lptr
  | C_lock_try_acquire lptr
  | C_give_lock lptr tptr intr_level
  | C_lock_release lptr
  | C_cond_wait cptr lptr
  | C_cond_signal cptr lptr
  | C_cond_broadcast cptr lptr
  | C_acquire_exclusive nat
  | C_exclusive_loop nat
  | C_acquire_shared nat
  | C_shared_loop nat
  | C_release_shared nat
  | C_shared_drop nat
  | C_release_exclusive nat
  | C_exclusive_drop nat

section \<open>The kernel state\<close>

text \<open>
  \<open>junk\<close> is what the kernel finds when it reads the \<^verbatim>\<open>priority\<close> of a \<^verbatim>\<open>struct thread\<close> that is not there, as
  \<^verbatim>\<open>cond_cmp\<close> does for a semaphore without waiters.
\<close>

record kstate =
  threads :: "tptr \<Rightarrow> thread"
  stacks :: "tptr \<Rightarrow> call list"
  running :: tptr
  idle_thread :: tptr
  initial_thread :: tptr
  ready_list :: "tptr list"
  all_list :: "tptr list"
  sleeping_list :: "tptr list"
  semas :: "sptr \<Rightarrow> semaphore"
  holder :: "lptr \<Rightarrow> tptr"
  conds :: "cptr \<Rightarrow> tptr list"
  slock_i :: "nat \<Rightarrow> int"
  junk :: "tptr \<Rightarrow> int"
  next_tid :: int
  intr :: intr_level
  in_external_intr :: bool
  yield_on_return :: bool
  thread_ticks :: u32
  ticks :: int
  idle_ticks :: int
  kernel_ticks :: int
  user_ticks :: int
  load_avg :: fp
  load_avg_coefficient :: fp
  thread_mlfqs :: bool

definition upd_thread :: "tptr \<Rightarrow> (thread \<Rightarrow> thread) \<Rightarrow> kstate \<Rightarrow> kstate" where
  "upd_thread t f s = s\<lparr>threads := (threads s)(t := f (threads s t))\<rparr>"

definition upd_sema :: "sptr \<Rightarrow> (semaphore \<Rightarrow> semaphore) \<Rightarrow> kstate \<Rightarrow> kstate" where
  "upd_sema x f s = s\<lparr>semas := (semas s)(x := f (semas s x))\<rparr>"

definition push :: "call list \<Rightarrow> kstate \<Rightarrow> kstate" where
  "push cs s = s\<lparr>stacks := (stacks s)(running s := cs @ stacks s (running s))\<rparr>"

text \<open>Reading a thread structure through a pointer that does not hold one is a wild access.\<close>

definition is_thread :: "kstate \<Rightarrow> tptr \<Rightarrow> bool" where
  "is_thread s t \<longleftrightarrow> t \<noteq> NULL \<and> magic (threads s t) = THREAD_MAGIC"

definition deref :: "kstate \<Rightarrow> tptr \<Rightarrow> thread option" where
  "deref s t = (if is_thread s t then Some (threads s t) else None)"

section \<open>Interrupt level\<close>

definition intr_disable :: "kstate \<Rightarrow> intr_level \<times> kstate" where
  "intr_disable s = (intr s, s\<lparr>intr := INTR_OFF\<rparr>)"

definition intr_enable :: "kstate \<Rightarrow> kstate option" where
  "intr_enable s = do { ASSERT (\<not> in_external_intr s); Some (s\<lparr>intr := INTR_ON\<rparr>) }"

definition intr_set_level :: "intr_level \<Rightarrow> kstate \<Rightarrow> kstate option" where
  "intr_set_level level s =
     (if level = INTR_ON then intr_enable s else Some (snd (intr_disable s)))"

definition intr_yield_on_return :: "kstate \<Rightarrow> kstate option" where
  "intr_yield_on_return s = do { ASSERT (in_external_intr s); Some (s\<lparr>yield_on_return := True\<rparr>) }"

section \<open>Priority lists\<close>

definition thread_cmp :: "kstate \<Rightarrow> tptr \<Rightarrow> tptr \<Rightarrow> bool" where
  "thread_cmp s a b \<longleftrightarrow> priority (threads s a) > priority (threads s b)"

text \<open>
  A thread has one list element, \<^verbatim>\<open>elem\<close>, for the ready list, the sleeping list and the waiters of a
  semaphore. Inserting it while it is linked corrupts both lists, and so does removing it while it is not:
  the model stops there.
\<close>

definition elem_linked :: "kstate \<Rightarrow> tptr \<Rightarrow> bool" where
  "elem_linked s t \<longleftrightarrow> t \<in> set (ready_list s) \<or> t \<in> set (sleeping_list s)
     \<or> (case thread_pl (threads s t) of Some (WaitersOf x) \<Rightarrow> t \<in> set (waiters (semas s x)) | _ \<Rightarrow> False)"

definition pl_list :: "kstate \<Rightarrow> plist \<Rightarrow> tptr list" where
  "pl_list s pl = (case pl of ReadyList \<Rightarrow> ready_list s | WaitersOf x \<Rightarrow> waiters (semas s x))"

definition set_pl_list :: "plist \<Rightarrow> tptr list \<Rightarrow> kstate \<Rightarrow> kstate" where
  "set_pl_list pl xs s =
     (case pl of ReadyList \<Rightarrow> s\<lparr>ready_list := xs\<rparr> | WaitersOf x \<Rightarrow> upd_sema x (\<lambda>m. m\<lparr>waiters := xs\<rparr>) s)"

text \<open>\<^verbatim>\<open>list_insert_ordered (pl, &t->elem, thread_cmp, NULL); t->thread_pl = pl;\<close>\<close>

definition pl_insert :: "plist \<Rightarrow> tptr \<Rightarrow> kstate \<Rightarrow> kstate option" where
  "pl_insert pl t s = do {
     ASSERT (\<not> elem_linked s t);
     Some (upd_thread t (\<lambda>th. th\<lparr>thread_pl := Some pl\<rparr>)
             (set_pl_list pl (ins_ord (thread_cmp s) t (pl_list s pl)) s))
   }"

text \<open>\<^verbatim>\<open>list_update_elem (t->thread_pl, &t->elem, thread_cmp)\<close>\<close>

definition pl_update :: "tptr \<Rightarrow> kstate \<Rightarrow> kstate option" where
  "pl_update t s = do {
     pl \<leftarrow> thread_pl (threads s t);
     ASSERT (t \<in> set (pl_list s pl));
     Some (set_pl_list pl (ins_ord (thread_cmp s) t (remove1 t (pl_list s pl))) s)
   }"

definition thread_list_top_pri :: "kstate \<Rightarrow> tptr list \<Rightarrow> int" where
  "thread_list_top_pri s ts = (case ts of [] \<Rightarrow> PRI_MIN | t # _ \<Rightarrow> priority (threads s t))"

section \<open>Reading an updated state\<close>

lemma upd_thread_sel [simp]:
  "threads (upd_thread t f s) = (threads s)(t := f (threads s t))"
  "stacks (upd_thread t f s) = stacks s"
  "running (upd_thread t f s) = running s"
  "idle_thread (upd_thread t f s) = idle_thread s"
  "initial_thread (upd_thread t f s) = initial_thread s"
  "ready_list (upd_thread t f s) = ready_list s"
  "all_list (upd_thread t f s) = all_list s"
  "sleeping_list (upd_thread t f s) = sleeping_list s"
  "semas (upd_thread t f s) = semas s"
  "holder (upd_thread t f s) = holder s"
  "conds (upd_thread t f s) = conds s"
  "slock_i (upd_thread t f s) = slock_i s"
  "junk (upd_thread t f s) = junk s"
  "next_tid (upd_thread t f s) = next_tid s"
  "intr (upd_thread t f s) = intr s"
  "in_external_intr (upd_thread t f s) = in_external_intr s"
  "yield_on_return (upd_thread t f s) = yield_on_return s"
  "thread_ticks (upd_thread t f s) = thread_ticks s"
  "ticks (upd_thread t f s) = ticks s"
  "idle_ticks (upd_thread t f s) = idle_ticks s"
  "kernel_ticks (upd_thread t f s) = kernel_ticks s"
  "user_ticks (upd_thread t f s) = user_ticks s"
  "load_avg (upd_thread t f s) = load_avg s"
  "load_avg_coefficient (upd_thread t f s) = load_avg_coefficient s"
  "thread_mlfqs (upd_thread t f s) = thread_mlfqs s"
  by (simp_all add: upd_thread_def)

lemma upd_sema_sel [simp]:
  "semas (upd_sema x g s) = (semas s)(x := g (semas s x))"
  "stacks (upd_sema x g s) = stacks s"
  "running (upd_sema x g s) = running s"
  "idle_thread (upd_sema x g s) = idle_thread s"
  "initial_thread (upd_sema x g s) = initial_thread s"
  "ready_list (upd_sema x g s) = ready_list s"
  "all_list (upd_sema x g s) = all_list s"
  "sleeping_list (upd_sema x g s) = sleeping_list s"
  "holder (upd_sema x g s) = holder s"
  "conds (upd_sema x g s) = conds s"
  "slock_i (upd_sema x g s) = slock_i s"
  "junk (upd_sema x g s) = junk s"
  "next_tid (upd_sema x g s) = next_tid s"
  "intr (upd_sema x g s) = intr s"
  "in_external_intr (upd_sema x g s) = in_external_intr s"
  "yield_on_return (upd_sema x g s) = yield_on_return s"
  "thread_ticks (upd_sema x g s) = thread_ticks s"
  "ticks (upd_sema x g s) = ticks s"
  "idle_ticks (upd_sema x g s) = idle_ticks s"
  "kernel_ticks (upd_sema x g s) = kernel_ticks s"
  "user_ticks (upd_sema x g s) = user_ticks s"
  "load_avg (upd_sema x g s) = load_avg s"
  "load_avg_coefficient (upd_sema x g s) = load_avg_coefficient s"
  "thread_mlfqs (upd_sema x g s) = thread_mlfqs s"
  "threads (upd_sema x g s) = threads s"
  by (simp_all add: upd_sema_def)

lemma push_sel [simp]:
  "stacks (push cs s) = (stacks s)(running s := cs @ stacks s (running s))"
  "running (push cs s) = running s"
  "idle_thread (push cs s) = idle_thread s"
  "initial_thread (push cs s) = initial_thread s"
  "ready_list (push cs s) = ready_list s"
  "all_list (push cs s) = all_list s"
  "sleeping_list (push cs s) = sleeping_list s"
  "semas (push cs s) = semas s"
  "holder (push cs s) = holder s"
  "conds (push cs s) = conds s"
  "slock_i (push cs s) = slock_i s"
  "junk (push cs s) = junk s"
  "next_tid (push cs s) = next_tid s"
  "intr (push cs s) = intr s"
  "in_external_intr (push cs s) = in_external_intr s"
  "yield_on_return (push cs s) = yield_on_return s"
  "thread_ticks (push cs s) = thread_ticks s"
  "ticks (push cs s) = ticks s"
  "idle_ticks (push cs s) = idle_ticks s"
  "kernel_ticks (push cs s) = kernel_ticks s"
  "user_ticks (push cs s) = user_ticks s"
  "load_avg (push cs s) = load_avg s"
  "load_avg_coefficient (push cs s) = load_avg_coefficient s"
  "thread_mlfqs (push cs s) = thread_mlfqs s"
  "threads (push cs s) = threads s"
  by (simp_all add: push_def)

lemma is_thread_upd [simp]:
  "(\<And>th. magic (f th) = magic th) \<Longrightarrow> is_thread (upd_thread t f s) u = is_thread s u"
  by (simp add: is_thread_def)

lemma is_thread_other [simp]:
  "is_thread (upd_sema x g s) u = is_thread s u"
  "is_thread (push cs s) u = is_thread s u"
  "is_thread (s\<lparr>running := r\<rparr>) u = is_thread s u"
  "is_thread (s\<lparr>idle_thread := r\<rparr>) u = is_thread s u"
  "is_thread (s\<lparr>stacks := st\<rparr>) u = is_thread s u"
  "is_thread (s\<lparr>ready_list := xs\<rparr>) u = is_thread s u"
  "is_thread (s\<lparr>sleeping_list := xs\<rparr>) u = is_thread s u"
  "is_thread (s\<lparr>all_list := xs\<rparr>) u = is_thread s u"
  "is_thread (s\<lparr>holder := hs\<rparr>) u = is_thread s u"
  "is_thread (s\<lparr>conds := cs'\<rparr>) u = is_thread s u"
  "is_thread (s\<lparr>slock_i := is\<rparr>) u = is_thread s u"
  "is_thread (s\<lparr>junk := js\<rparr>) u = is_thread s u"
  "is_thread (s\<lparr>intr := lv\<rparr>) u = is_thread s u"
  "is_thread (s\<lparr>in_external_intr := b\<rparr>) u = is_thread s u"
  "is_thread (s\<lparr>yield_on_return := b\<rparr>) u = is_thread s u"
  "is_thread (s\<lparr>thread_ticks := n\<rparr>) u = is_thread s u"
  "is_thread (s\<lparr>ticks := i\<rparr>) u = is_thread s u"
  by (simp_all add: is_thread_def)

end
