(* ===== verification/List_Sort.thy ===== *)
theory List_Sort
  imports Linked_List "HOL-Library.Multiset" "HOL-Library.Sublist"
begin

text \<open>
  Sorted lists of \<^verbatim>\<open>lib/kernel/list.c\<close>: the contract a \<^verbatim>\<open>list_less_func\<close> has to satisfy, what ordered insertion and
  merging do to the abstract lists, and the proof that \<^verbatim>\<open>list_sort\<close>, a natural merge sort that relinks
  elements in place, terminates and sorts stably.
\<close>

section \<open>The contract of a comparison function\<close>

text \<open>
  A comparison function is a strict weak order: asymmetric, and with a transitive \<open>not less\<close>.
  Elements of which neither is less than the other are \<^emph>\<open>tied\<close>.
\<close>

definition tied :: "('a \<Rightarrow> 'a \<Rightarrow> bool) \<Rightarrow> 'a \<Rightarrow> 'a \<Rightarrow> bool" where
  "tied lt x y \<longleftrightarrow> \<not> lt x y \<and> \<not> lt y x"

abbreviation in_order :: "('a \<Rightarrow> 'a \<Rightarrow> bool) \<Rightarrow> 'a list \<Rightarrow> bool" where
  "in_order lt \<equiv> sorted_wrt (\<lambda>x y. \<not> lt y x)"

definition stable_perm :: "('a \<Rightarrow> 'a \<Rightarrow> bool) \<Rightarrow> 'a list \<Rightarrow> 'a list \<Rightarrow> bool" where
  "stable_perm lt xs ys \<longleftrightarrow> mset ys = mset xs \<and> (\<forall>x. filter (tied lt x) ys = filter (tied lt x) xs)"

fun mrg :: "('a \<Rightarrow> 'a \<Rightarrow> bool) \<Rightarrow> 'a list \<Rightarrow> 'a list \<Rightarrow> 'a list" where
  "mrg lt (a # as) (b # bs) = (if \<not> lt b a then a # mrg lt as (b # bs) else b # mrg lt (a # as) bs)"
| "mrg lt [] bs = bs"
| "mrg lt as [] = as"

text \<open>The longest run after \<^term>\<open>x\<close>, and the number of places where a list descends.\<close>

fun run :: "('a \<Rightarrow> 'a \<Rightarrow> bool) \<Rightarrow> 'a \<Rightarrow> 'a list \<Rightarrow> 'a list \<times> 'a list" where
  "run lt x [] = ([], [])"
| "run lt x (y # ys) = (if \<not> lt y x then (let (r, s) = run lt y ys in (y # r, s)) else ([], y # ys))"

fun descents :: "('a \<Rightarrow> 'a \<Rightarrow> bool) \<Rightarrow> 'a list \<Rightarrow> nat" where
  "descents lt (x # y # ys) = (if lt y x then 1 else 0) + descents lt (y # ys)"
| "descents lt _ = 0"

definition run_count :: "('a \<Rightarrow> 'a \<Rightarrow> bool) \<Rightarrow> 'a list \<Rightarrow> nat" where
  "run_count lt xs = (if xs = [] then 0 else Suc (descents lt xs))"

lemma run_append: "run lt x ys = (r, s) \<Longrightarrow> ys = r @ s"
  by (induction lt x ys arbitrary: r rule: run.induct) (auto split: if_splits prod.splits)

lemma run_descents:
  "run lt x ys = (r, s) \<Longrightarrow> descents lt (x # r) = 0
     \<and> descents lt (x # ys) = (if s = [] then 0 else Suc (descents lt s))"
proof (induction lt x ys arbitrary: r rule: run.induct)
  case (2 lt x y ys)
  then show ?case by (auto split: if_splits prod.splits)
qed simp

lemma descents_append:
  "descents lt (xs @ ys) \<le> descents lt xs + descents lt ys + 1"
proof (induction xs rule: induct_list012)
  case (2 x)
  then show ?case by (cases ys) auto
qed auto

lemma run_count_le: "run_count lt xs \<le> length xs"
proof -
  have "xs \<noteq> [] \<Longrightarrow> descents lt xs < length xs" by (induction lt xs rule: descents.induct) auto
  then show ?thesis by (auto simp: run_count_def Suc_le_eq)
qed

lemma mset_mrg [simp]: "mset (mrg lt as bs) = mset as + mset bs"
  by (induction lt as bs rule: mrg.induct) auto

lemma set_mrg [simp]: "set (mrg lt as bs) = set as \<union> set bs"
  by (induction lt as bs rule: mrg.induct) auto

locale list_order =
  fixes lt :: "'a \<Rightarrow> 'a \<Rightarrow> bool"
  assumes asym: "lt x y \<Longrightarrow> \<not> lt y x"
    and neg_trans: "\<not> lt y x \<Longrightarrow> \<not> lt z y \<Longrightarrow> \<not> lt z x"
begin

lemma not_less_trans: "transp (\<lambda>x y. \<not> lt y x)"
  by (rule transpI) (rule neg_trans)

lemma in_order_iff_descents: "in_order lt xs \<longleftrightarrow> descents lt xs = 0"
proof (induction xs rule: induct_list012)
  case (3 x y zs)
  have "in_order lt (x # y # zs) \<longleftrightarrow> \<not> lt y x \<and> in_order lt (y # zs)"
    using neg_trans by auto
  with 3 show ?case by simp
qed simp_all

lemma in_order_le: "in_order lt (x # xs) \<Longrightarrow> \<not> lt x e \<Longrightarrow> y \<in> set (x # xs) \<Longrightarrow> \<not> lt y e"
  using neg_trans [of x e y] by auto

lemma in_order_mrg: "in_order lt as \<Longrightarrow> in_order lt bs \<Longrightarrow> in_order lt (mrg lt as bs)"
proof (induction as arbitrary: bs)
  case (Cons a as)
  from Cons.prems(2) show ?case
  proof (induction bs)
    case (Cons b bs)
    show ?case
    proof (cases "lt b a")
      case True
      then have "\<forall>y \<in> set (a # as). \<not> lt y b"
        using in_order_le [OF \<open>in_order lt (a # as)\<close>] asym by blast
      then show ?thesis using True Cons by auto
    next
      case False
      then have "\<forall>y \<in> set (b # bs). \<not> lt y a" using in_order_le [OF Cons.prems] by blast
      then show ?thesis using False \<open>in_order lt (a # as)\<close> Cons.prems
          \<open>\<And>bs. in_order lt as \<Longrightarrow> in_order lt bs \<Longrightarrow> in_order lt (mrg lt as bs)\<close> by auto
    qed
  qed (use Cons.prems in simp)
qed simp

lemma tied_below:
  assumes "lt b a" and "in_order lt (a # as)" and "tied lt x b" and "y \<in> set (a # as)"
  shows "\<not> tied lt x y"
proof
  assume "tied lt x y"
  then have "\<not> lt y b" "\<not> lt b y" using assms(3) neg_trans [of x b y] neg_trans [of x y b] by (auto simp: tied_def)
  moreover have "\<not> lt y a" using in_order_le [OF assms(2) _ assms(4)] asym by blast
  ultimately show False using neg_trans [of y a b] assms(1) by blast
qed

lemma mrg_stable:
  "in_order lt as \<Longrightarrow> filter (tied lt x) (mrg lt as bs) = filter (tied lt x) as @ filter (tied lt x) bs"
proof (induction as arbitrary: bs)
  case (Cons a as)
  note ord = Cons.prems and IHa = Cons.IH
  show ?case
  proof (induction bs)
    case (Cons b bs)
    show ?case
    proof (cases "lt b a")
      case True
      have "filter (tied lt x) (a # as) = []" if "tied lt x b"
        using tied_below [OF True ord that] by (simp add: filter_empty_conv)
      then show ?thesis using True Cons.IH by auto
    qed (use ord IHa in auto)
  qed simp
qed simp

lemma in_order_ins_ord: "in_order lt xs \<Longrightarrow> in_order lt (ins_ord lt e xs)"
proof (induction xs)
  case (Cons x xs)
  then show ?case using asym [of e x] in_order_le [OF Cons.prems, of e] by auto
qed simp

text \<open>An inserted element goes behind every element it is tied with.\<close>

lemma ins_ord_fifo:
  assumes "in_order lt xs"
  shows "filter (tied lt x) (ins_ord lt e xs)
       = filter (tied lt x) xs @ (if tied lt x e then [e] else [])"
  using assms
proof (induction xs)
  case (Cons y ys)
  show ?case
  proof (cases "lt e y")
    case True
    have "filter (tied lt x) (y # ys) = []" if "tied lt x e"
      using tied_below [OF True Cons.prems that] by (simp add: filter_empty_conv)
    then show ?thesis using True by auto
  qed (use Cons in auto)
qed simp

text \<open>No element is greater than the one \<^verbatim>\<open>list_max\<close> returns.\<close>

lemma pick_max_greatest: "y \<in> set (m # xs) \<Longrightarrow> \<not> lt (pick_max lt m xs) y"
proof (induction xs arbitrary: m y)
  case Nil
  then show ?case using asym by auto
next
  case (Cons x xs)
  let ?m = "if lt m x then x else m"
  have "\<not> lt (pick_max lt ?m xs) ?m" "z \<in> set xs \<Longrightarrow> \<not> lt (pick_max lt ?m xs) z" for z
    using Cons.IH [of _ ?m] by simp_all
  then show ?case
    using Cons.prems asym [of m x] neg_trans [of x m "pick_max lt x xs"]
      neg_trans [of m x "pick_max lt m xs"] by auto
qed

end

section \<open>The passes of the sort on abstract lists\<close>

function pass :: "('a \<Rightarrow> 'a \<Rightarrow> bool) \<Rightarrow> 'a list \<Rightarrow> nat \<times> 'a list" where
  "pass lt [] = (0, [])"
| "pass lt (x # xs) =
     (let (r, s) = run lt x xs
      in case s of [] \<Rightarrow> (1, x # r)
         | y # ys \<Rightarrow> (let (q, u) = run lt y ys; (n, zs) = pass lt u
                     in (Suc n, mrg lt (x # r) (y # q) @ zs)))"
  by pat_completeness auto
termination
proof (relation "measure (length \<circ> snd)", simp)
  fix lt :: "'a \<Rightarrow> 'a \<Rightarrow> bool" and x xs xa r s y ys xb q u
  assume "xa = run lt x xs" "(r, s) = xa" "s = y # ys" "xb = run lt y ys" "(q, u) = xb"
  then have "xs = r @ y # q @ u"
    using run_append [of lt x xs r s] run_append [of lt y ys q u] by simp
  then show "((lt, u), lt, x # xs) \<in> measure (length \<circ> snd)" by simp
qed

lemma pass_induct [consumes 1, case_names Nil one_run two_runs]:
  assumes "pass lt xs = (n, zs)"
    and "P [] 0 []"
    and "\<And>x xs r. run lt x xs = (r, []) \<Longrightarrow> P (x # xs) 1 (x # r)"
    and "\<And>x xs r y ys q u m ws. run lt x xs = (r, y # ys) \<Longrightarrow> run lt y ys = (q, u) \<Longrightarrow> pass lt u = (m, ws)
        \<Longrightarrow> P u m ws \<Longrightarrow> P (x # xs) (Suc m) (mrg lt (x # r) (y # q) @ ws)"
  shows "P xs n zs"
  using assms(1)
proof (induction xs arbitrary: n zs rule: length_induct)
  case (1 xs)
  show ?case
  proof (cases xs)
    case Nil
    then show ?thesis using "1.prems" assms(2) by simp
  next
    case (Cons x xs')
    obtain r s where rs: "run lt x xs' = (r, s)" by fastforce
    show ?thesis
    proof (cases s)
      case Nil
      then show ?thesis using "1.prems" rs Cons assms(3) by auto
    next
      case (Cons y ys)
      obtain q u where qu: "run lt y ys = (q, u)" by fastforce
      obtain m ws where mw: "pass lt u = (m, ws)" by fastforce
      have "length u < length xs"
        using run_append [OF rs] run_append [OF qu] Cons \<open>xs = x # xs'\<close> by simp
      then have "P u m ws" using "1.IH" mw by blast
      from assms(4) [OF rs [unfolded Cons] qu mw this] show ?thesis
        using "1.prems" rs qu mw Cons \<open>xs = x # xs'\<close> by simp
    qed
  qed
qed

lemma pass_count: "pass lt xs = (n, zs) \<Longrightarrow> n = (run_count lt xs + 1) div 2"
proof (induction rule: pass_induct)
  case (one_run x xs r)
  then show ?case using run_descents [OF one_run] by (simp add: run_count_def)
next
  case (two_runs x xs r y ys q u m ws)
  then show ?case using run_descents [OF two_runs(1)] run_descents [OF two_runs(2)] by (simp add: run_count_def)
qed (simp add: run_count_def)

lemma mset_pass: "pass lt xs = (n, zs) \<Longrightarrow> mset zs = mset xs"
proof (induction rule: pass_induct)
  case (two_runs x xs r y ys q u m ws)
  then show ?case using run_append [OF two_runs(1)] run_append [OF two_runs(2)] by simp
qed (auto dest: run_append)

context list_order
begin

lemma run_in_order: "run lt x ys = (r, s) \<Longrightarrow> in_order lt (x # r)"
  using run_descents [of lt x ys r s] by (simp only: in_order_iff_descents)

lemma pass_stable: "pass lt xs = (n, zs) \<Longrightarrow> filter (tied lt a) zs = filter (tied lt a) xs"
proof (induction rule: pass_induct)
  case (two_runs x xs r y ys q u m ws)
  have "xs = r @ y # q @ u" using run_append [OF two_runs(1)] run_append [OF two_runs(2)] by simp
  then show ?case
    using mrg_stable [OF run_in_order [OF two_runs(1)], of a "y # q"] two_runs(4)
    by (simp only: filter_append append_Cons append_assoc)
      (simp only: append_Cons [symmetric] filter_append append_assoc)
qed (auto dest: run_append)

lemma pass_runs: "pass lt xs = (n, zs) \<Longrightarrow> run_count lt zs \<le> n"
proof (induction rule: pass_induct)
  case (one_run x xs r)
  then show ?case using run_descents [OF one_run] by (simp add: run_count_def)
next
  case (two_runs x xs r y ys q u m ws)
  let ?m = "mrg lt (x # r) (y # q)"
  have "descents lt ?m = 0"
    using in_order_mrg [OF run_in_order [OF two_runs(1)] run_in_order [OF two_runs(2)]]
    by (simp only: in_order_iff_descents)
  then show ?case
    using descents_append [of lt ?m ws] two_runs(4) by (simp add: run_count_def split: if_splits)
qed (simp add: run_count_def)

lemma run_count_one: "run_count lt xs \<le> 1 \<longleftrightarrow> in_order lt xs"
  by (simp add: run_count_def in_order_iff_descents)

end

section \<open>The sort on the heap\<close>

lemma is_sorted_loop_dll:
  "dll h l (xs @ (y # ys) @ zs) \<Longrightarrow>
     is_sorted_loop h lt y (hd (zs @ [l + 8])) = Some (descents lt (y # ys) = 0)"
proof (induction ys arbitrary: xs y)
  case Nil
  then show ?case using list_next_dll [of h l xs y zs] by (subst is_sorted_loop.simps) simp
next
  case (Cons w ws)
  have "list_next h y = Some w" "list_prev h w = Some y"
    using list_next_dll [of h l xs y "w # ws @ zs"] list_prev_dll [of h l "xs @ [y]" "w # ws @ zs" w] Cons.prems
    by simp_all
  moreover have "w \<noteq> hd (zs @ [l + 8])" using Cons.prems by (cases zs) (auto simp: dll_def)
  moreover have "dll h l ((xs @ [y]) @ (w # ws) @ zs)" using Cons.prems by simp
  note Cons.IH [OF this]
  ultimately show ?case by (subst is_sorted_loop.simps) simp
qed

lemma is_sorted_dll:
  "dll h l (xs @ ys @ zs) \<Longrightarrow>
     is_sorted h lt (hd (ys @ zs @ [l + 8])) (hd (zs @ [l + 8])) = Some (descents lt ys = 0)"
proof (cases ys)
  case (Cons y ys')
  assume d: "dll h l (xs @ ys @ zs)"
  then have "y \<noteq> hd (zs @ [l + 8])" using Cons by (cases zs) (auto simp: dll_def)
  then show ?thesis using is_sorted_loop_dll [of h l xs y ys' zs] d Cons by (simp add: is_sorted_def)
qed (simp add: is_sorted_def)

lemma end_of_run_dll:
  "dll h l (xs @ y # ys) \<Longrightarrow> run lt y ys = (r, s) \<Longrightarrow>
     find_end_of_run h lt y (l + 8) = Some (hd (s @ [l + 8]))"
proof -
  have loop: "dll h l (xs @ y # ys) \<Longrightarrow> run lt y ys = (r, s) \<Longrightarrow>
     end_of_run_loop h lt y (l + 8) = Some (hd (s @ [l + 8]))" for xs y ys r
  proof (induction ys arbitrary: xs y r)
    case Nil
    then show ?case using list_next_dll [of h l xs y "[]"] by (subst end_of_run_loop.simps) simp
  next
    case (Cons w ws)
    have "list_next h y = Some w" "list_prev h w = Some y" "w \<noteq> l + 8"
      using list_next_dll [of h l xs y "w # ws"] list_prev_dll [of h l "xs @ [y]" "w # ws" w] Cons.prems
      by (auto simp: dll_def)
    moreover have "dll h l ((xs @ [y]) @ w # ws)" using Cons.prems by simp
    note Cons.IH [OF this]
    ultimately show ?case
      using Cons.prems(2) by (subst end_of_run_loop.simps) (auto split: if_splits prod.splits)
  qed
  assume "dll h l (xs @ y # ys)" "run lt y ys = (r, s)"
  moreover from this(1) have "y \<noteq> NULL" "y \<noteq> l + 8" by (auto simp: dll_def)
  ultimately show ?thesis using loop by (simp add: find_end_of_run_def)
qed

lemma merge_loop_dll:
  assumes "dll h l (xs @ as @ bs @ zs)"
  shows "\<exists>h'. merge_loop h lt (hd (as @ bs @ zs @ [l + 8])) (hd (bs @ zs @ [l + 8])) (hd (zs @ [l + 8])) = Some h'
     \<and> dll h' l (xs @ mrg lt as bs @ zs) \<and> same_outside (cells l (xs @ as @ bs @ zs)) h h'"
  using assms
proof (induction lt as bs arbitrary: h xs rule: mrg.induct)
  case (1 lt a as b bs)
  have ne: "a \<noteq> b" "b \<noteq> hd (zs @ [l + 8])" using "1.prems" by (cases zs; auto simp: dll_def)+
  show ?case
  proof (cases "lt b a")
    case False
    have "list_next h a = Some (hd (as @ b # bs @ zs @ [l + 8]))"
      using list_next_dll [of h l xs a "as @ b # bs @ zs"] "1.prems" by simp
    then show ?thesis
      using "1.IH"(1) [of h "xs @ [a]"] False ne "1.prems" by (subst merge_loop.simps) simp
  next
    case True
    let ?n = "hd (bs @ zs @ [l + 8])"
    have n: "list_next h b = Some ?n" "list_prev h ?n = Some b"
      using list_next_dll [of h l "xs @ a # as" b "bs @ zs"] "1.prems"
        list_prev_dll [of h l "xs @ a # as @ [b]" "bs @ zs" ?n] by simp_all
    obtain h1 where h1: "list_splice h a b ?n = Some h1" "dll h1 l ((xs @ [b]) @ (a # as) @ bs @ zs)"
      "same_outside (cells l (xs @ (a # as) @ (b # bs) @ zs)) h h1"
      using list_splice_dll [of h l xs "a # as" "[b]" "bs @ zs"] "1.prems" by auto
    have cs: "cells l ((xs @ [b]) @ (a # as) @ bs @ zs) = cells l (xs @ (a # as) @ (b # bs) @ zs)"
      by (auto simp: cells_def)
    from "1.IH"(2) [OF _ h1(2)] True obtain h' where
      "merge_loop h1 lt a ?n (hd (zs @ [l + 8])) = Some h'" "dll h' l ((xs @ [b]) @ mrg lt (a # as) bs @ zs)"
      "same_outside (cells l (xs @ (a # as) @ (b # bs) @ zs)) h1 h'"
      unfolding cs by auto
    then show ?thesis
      using True ne n h1 by (subst merge_loop.simps) (auto intro: same_outside_trans)
  qed
next
  case (2 lt bs)
  then show ?case by (subst merge_loop.simps) simp
next
  case (3 lt a as)
  then show ?case by (subst merge_loop.simps) simp
qed

lemma hd_rest_not_null: "dll h l (xs @ ys) \<Longrightarrow> hd (ys @ [l + 8]) \<noteq> NULL"
  using cells_not_null [OF _ hd_cells] by blast

lemma inplace_merge_dll:
  assumes "dll h l (xs @ as @ bs @ zs)" and "descents lt as = 0" and "descents lt bs = 0"
  shows "\<exists>h'. inplace_merge h lt (hd (as @ bs @ zs @ [l + 8])) (hd (bs @ zs @ [l + 8])) (hd (zs @ [l + 8])) = Some h'
     \<and> dll h' l (xs @ mrg lt as bs @ zs) \<and> same_outside (cells l (xs @ as @ bs @ zs)) h h'"
  using merge_loop_dll [OF assms(1), of lt] is_sorted_dll [of h l xs as "bs @ zs" lt]
    is_sorted_dll [of h l "xs @ as" bs zs lt] hd_rest_not_null [of h l xs "as @ bs @ zs"]
    hd_rest_not_null [of h l "xs @ as" "bs @ zs"] hd_rest_not_null [of h l "xs @ as @ bs" zs] assms
  by (simp add: inplace_merge_def)

lemma sort_pass_dll:
  assumes "pass lt ys = (n, zs)" and "dll h l (xs @ ys)"
  shows "\<exists>h'. sort_pass h lt (hd (ys @ [l + 8])) (l + 8) c = Some (c + of_nat n, h') \<and> dll h' l (xs @ zs)
     \<and> same_outside (cells l (xs @ ys)) h h'"
  using assms
proof (induction arbitrary: h xs c rule: pass_induct)
  case Nil
  then show ?case by (subst sort_pass.simps) simp
next
  case (one_run y ys r)
  have "y \<noteq> l + 8" using one_run.prems by (simp add: dll_def)
  then show ?case
    using end_of_run_dll [OF one_run.prems one_run(1)] run_append [OF one_run(1)] one_run.prems
    by (subst sort_pass.simps) simp
next
  case (two_runs x ys r y ws q u m vs)
  have e: "ys = r @ y # ws" "ws = q @ u" using run_append [OF two_runs(1)] run_append [OF two_runs(2)] by auto
  have d: "dll h l (xs @ (x # r) @ (y # q) @ u)" using two_runs.prems e by simp
  have e1: "find_end_of_run h lt x (l + 8) = Some y"
    using end_of_run_dll [OF two_runs.prems two_runs(1)] by simp
  have e2: "find_end_of_run h lt y (l + 8) = Some (hd (u @ [l + 8]))"
    using end_of_run_dll [of h l "xs @ x # r" y ws lt q u] two_runs(2) d e by simp
  obtain h1 where h1: "inplace_merge h lt x y (hd (u @ [l + 8])) = Some h1"
    "dll h1 l ((xs @ mrg lt (x # r) (y # q)) @ u)" "same_outside (cells l (xs @ x # ys)) h h1"
    using inplace_merge_dll [OF d, of lt] run_descents [OF two_runs(1)] run_descents [OF two_runs(2)] e by auto
  have cs: "cells l ((xs @ mrg lt (x # r) (y # q)) @ u) = cells l (xs @ x # ys)" by (auto simp: cells_def e)
  obtain h' where h': "sort_pass h1 lt (hd (u @ [l + 8])) (l + 8) (c + 1) = Some (c + 1 + of_nat m, h')"
    "dll h' l ((xs @ mrg lt (x # r) (y # q)) @ vs)" "same_outside (cells l (xs @ x # ys)) h1 h'"
    using two_runs.IH [OF h1(2), of "c + 1"] unfolding cs by blast
  have "x \<noteq> l + 8" "y \<noteq> l + 8" using d by (simp_all add: dll_def)
  then show ?case
    using e1 e2 h1(1,3) h' by (subst sort_pass.simps) (auto simp: ac_simps intro: same_outside_trans)
qed

lemma sort_loop_dll:
  assumes "list_order lt" and "dll h l xs" and "length xs < 2 ^ 32"
  shows "\<exists>h' zs. sort_loop h lt l = Some h' \<and> dll h' l zs \<and> in_order lt zs \<and> stable_perm lt xs zs
     \<and> same_outside (cells l xs) h h'"
  using assms(2,3)
proof (induction "run_count lt xs" arbitrary: h xs rule: less_induct)
  case less
  obtain n zs where p: "pass lt xs = (n, zs)" by fastforce
  obtain h1 where h1: "sort_pass h lt (hd (xs @ [l + 8])) (l + 8) 0 = Some (of_nat n, h1)" "dll h1 l zs"
    "same_outside (cells l xs) h h1"
    using sort_pass_dll [OF p, of h l "[]" 0] less.prems(1) by auto
  have m: "mset zs = mset xs" using mset_pass [OF p] .
  have len: "length zs = length xs" and st: "set zs = set xs"
    using arg_cong [OF m, of size] arg_cong [OF m, of set_mset] by simp_all
  have stab: "stable_perm lt xs zs" using m list_order.pass_stable [OF assms(1) p] by (simp add: stable_perm_def)
  note runs = list_order.pass_runs [OF assms(1) p] and cnt = pass_count [OF p]
  have "n < 2 ^ 32" using cnt run_count_le [of lt xs] less.prems(2) by linarith
  then have n: "1 < (of_nat n :: u32) \<longleftrightarrow> 1 < n" by (simp add: word_less_nat_alt unat_of_nat_32)
  show ?case
  proof (cases "1 < n")
    case True
    then have "run_count lt zs < run_count lt xs" using runs cnt by linarith
    from less.hyps [OF this h1(2)] len less.prems(2) obtain h2 ws where
      "sort_loop h1 lt l = Some h2" "dll h2 l ws" "in_order lt ws" "stable_perm lt zs ws"
      "same_outside (cells l zs) h1 h2" by auto
    then show ?thesis
      using True n h1 less.prems(1) stab st
      by (subst sort_loop.simps) (auto simp: list_begin_dll list_end_dll stable_perm_def cells_def
          intro: same_outside_trans)
  next
    case False
    then have "in_order lt zs" using runs list_order.run_count_one [OF assms(1), of zs] by simp
    then show ?thesis
      using False n h1 less.prems(1) stab
      by (subst sort_loop.simps) (auto simp: list_begin_dll list_end_dll)
  qed
qed

section \<open>What the lists promise\<close>

text \<open>
  C15. \<^verbatim>\<open>list_sort\<close> terminates without a panic on every list and with every comparison function that is a strict weak
  order; the list then holds the same elements in nondecreasing order, elements that compare equal
  keep their relative order, and no memory outside the list is touched.
\<close>

theorem list_sort_correct:
  assumes "list_order lt" and "dll h l xs" and "length xs < 2 ^ 32"
  shows "\<exists>h' zs. list_sort h l lt = Some h' \<and> dll h' l zs \<and> sorted_wrt (\<lambda>x y. \<not> lt y x) zs
     \<and> mset zs = mset xs \<and> (\<forall>x. filter (tied lt x) zs = filter (tied lt x) xs)
     \<and> same_outside (cells l xs) h h'"
proof -
  obtain h' zs where s: "sort_loop h lt l = Some h'" "dll h' l zs" "in_order lt zs" "stable_perm lt xs zs"
    "same_outside (cells l xs) h h'"
    using sort_loop_dll [OF assms] by blast
  have "is_sorted h' lt (hd (zs @ [l + 8])) (l + 8) = Some True"
    using is_sorted_dll [of h' l "[]" zs "[]" lt] s(2,3) list_order.in_order_iff_descents [OF assms(1), of zs]
    by simp
  then show ?thesis
    using s assms(2) by (auto simp: list_sort_def list_begin_dll list_end_dll dll_facts(1) stable_perm_def)
qed

text \<open>
  A list at address 8 with the elements 48, 32, 40 and a free element 56; element addresses compare as numbers.
\<close>

definition heap_ex :: list_elem_heap where
  "heap_ex = \<lparr>prv = (\<lambda>_. 0)(48 := 8, 32 := 48, 40 := 32, 16 := 40),
             nxt = (\<lambda>_. 0)(8 := 48, 48 := 32, 32 := 40, 40 := 16)\<rparr>"

lemma dll_ex: "dll heap_ex 8 [48, 32, 40]"
  by (simp add: dll_def heap_ex_def)

lemma list_order_nat: "list_order ((<) :: ptr \<Rightarrow> ptr \<Rightarrow> bool)"
  by unfold_locales auto

theorem list_sort_correct_witness:
  "\<exists>h'. list_sort heap_ex 8 (<) = Some h' \<and> dll h' 8 [32, 40, 48]"
proof -
  obtain h' zs where z: "list_sort heap_ex 8 (<) = Some h'" "dll h' 8 zs"
    "sorted_wrt (\<lambda>x y. \<not> y < x) zs" "mset zs = mset [48, 32, 40]"
    using list_sort_correct [OF list_order_nat dll_ex] by auto
  have "sorted zs" using z(3) by (simp add: not_less)
  then have "zs = sort [48, 32, 40]" using z(4) by (metis properties_for_sort)
  then show ?thesis using z(1,2) by auto
qed



text \<open>
  C17. Lists as stable priority queues. Inserting with \<^verbatim>\<open>list_insert_ordered\<close> into a list that is in order gives a list
  in order, with the new element behind all elements it is tied with and no other pair of elements
  reordered; \<^verbatim>\<open>list_update_elem\<close> does the same for an element whose key has changed, as long as the other
  elements are in order.
\<close>

theorem list_insert_ordered_queue:
  assumes "list_order lt"
  shows "(dll h l xs \<and> sorted_wrt (\<lambda>x y. \<not> lt y x) xs \<and> e \<notin> cells l xs \<and> e \<noteq> NULL \<longrightarrow>
      (\<exists>h' zs. list_insert_ordered h l e lt = Some h' \<and> dll h' l zs \<and> sorted_wrt (\<lambda>x y. \<not> lt y x) zs
         \<and> remove1 e zs = xs \<and> filter (tied lt e) zs = filter (tied lt e) xs @ [e]))
   \<and> (dll h l (xs @ e # ys) \<and> sorted_wrt (\<lambda>x y. \<not> lt y x) (xs @ ys) \<longrightarrow>
      (\<exists>h' zs. list_update_elem h l e lt = Some h' \<and> dll h' l zs \<and> sorted_wrt (\<lambda>x y. \<not> lt y x) zs
         \<and> remove1 e zs = xs @ ys \<and> filter (tied lt e) zs = filter (tied lt e) (xs @ ys) @ [e]))"
proof -
  have t: "tied lt e e" using list_order.asym [OF assms] by (auto simp: tied_def)
  have r: "remove1 e (ins_ord lt e zs) = zs" if "e \<notin> set zs" for zs
    using that by (induction zs) auto
  have p: "in_order lt (ins_ord lt e zs)" "filter (tied lt e) (ins_ord lt e zs) = filter (tied lt e) zs @ [e]"
    if "in_order lt zs" for zs
    using list_order.in_order_ins_ord [OF assms that] list_order.ins_ord_fifo [OF assms that] t by simp_all
  show ?thesis
  proof (intro conjI impI)
    assume a: "dll h l xs \<and> in_order lt xs \<and> e \<notin> cells l xs \<and> e \<noteq> NULL"
    then obtain h' where "list_insert_ordered h l e lt = Some h'" "dll h' l (ins_ord lt e xs)"
      using list_insert_ordered_dll [of h l xs e lt] by blast
    moreover have "e \<notin> set xs" using a by (simp add: cells_def)
    ultimately show "\<exists>h' zs. list_insert_ordered h l e lt = Some h' \<and> dll h' l zs \<and> in_order lt zs
        \<and> remove1 e zs = xs \<and> filter (tied lt e) zs = filter (tied lt e) xs @ [e]"
      using a p [of xs] r [of xs] by blast
  next
    assume a: "dll h l (xs @ e # ys) \<and> in_order lt (xs @ ys)"
    then obtain h' where "list_update_elem h l e lt = Some h'" "dll h' l (ins_ord lt e (xs @ ys))"
      using list_update_elem_dll [of h l xs e ys lt] by blast
    moreover have "e \<notin> set (xs @ ys)" using a by (simp add: dll_def)
    ultimately show "\<exists>h' zs. list_update_elem h l e lt = Some h' \<and> dll h' l zs \<and> in_order lt zs
        \<and> remove1 e zs = xs @ ys \<and> filter (tied lt e) zs = filter (tied lt e) (xs @ ys) @ [e]"
      using a p [of "xs @ ys"] r [of "xs @ ys"] by blast
  qed
qed

text \<open>Greater keys first, as in the ready list; the key of an element is its address divided by 16.\<close>

theorem list_insert_ordered_queue_witness:
  "\<exists>h' zs. list_insert_ordered heap_ex 8 56 (\<lambda>x y. y div 16 < x div 16) = Some h' \<and> dll h' 8 zs
     \<and> remove1 56 zs = [48, 32, 40] \<and> filter (\<lambda>x. x div 16 = 3) zs = [48, 56]"
proof -
  let ?lt = "\<lambda>x y :: ptr. y div 16 < x div 16"
  have o: "list_order ?lt" by unfold_locales auto
  have t: "tied ?lt 56 = (\<lambda>x. x div 16 = 3)" by (auto simp: tied_def fun_eq_iff)
  show ?thesis
    using list_insert_ordered_queue [OF o, of heap_ex 8 "[48, 32, 40]" 56 "[]"] dll_ex unfolding t
    by (auto simp: cells_def)
qed

lemma uniq_spec:
  "mset (fst (uniq lt xs)) + mset (snd (uniq lt xs)) = mset xs
   \<and> (xs \<noteq> [] \<longrightarrow> fst (uniq lt xs) \<noteq> [] \<and> hd (fst (uniq lt xs)) = hd xs)
   \<and> successively (\<lambda>x y. \<not> tied lt x y) (fst (uniq lt xs))
   \<and> subseq (fst (uniq lt xs)) xs \<and> (\<forall>u \<in> set (snd (uniq lt xs)). \<exists>k \<in> set (fst (uniq lt xs)). tied lt k u)"
proof (induction lt xs rule: uniq.induct)
  case (1 lt x y ys)
  obtain k d where xy: "uniq lt (x # ys) = (k, d)" by force
  obtain k' d' where y: "uniq lt (y # ys) = (k', d')" by force
  show ?case
  proof (cases "\<not> lt x y \<and> \<not> lt y x")
    case True
    with 1(1) xy obtain ks where "k = x # ks" by (cases k) auto
    with True 1(1) xy show ?thesis by (auto simp: tied_def split: prod.splits)
  next
    case False
    with 1(2) y obtain ks where "k' = y # ks" by (cases k') auto
    with False 1(2) y show ?thesis by (auto simp: tied_def split: prod.splits)
  qed
qed simp_all

text \<open>
  \<^verbatim>\<open>list_reverse\<close> reverses the list. \<^verbatim>\<open>list_unique\<close> moves elements to the end of the second list: nothing is lost,
  what remains is in its old order with no two neighbours tied, and every element moved is tied with one that remains. \<^verbatim>\<open>list_size\<close> counts the elements.
\<close>

theorem list_reverse_unique_size:
  "(dll h l xs \<longrightarrow> (\<exists>h'. list_reverse h l = Some h' \<and> dll h' l (rev xs)) \<and> list_size h l = Some (of_nat (length xs)))
   \<and> (dll h l xs \<and> dll h d ds \<and> cells l xs \<inter> cells d ds = {} \<longrightarrow>
      (\<exists>h' ks us. list_unique h l d lt = Some h' \<and> dll h' l ks \<and> dll h' d (ds @ us)
         \<and> mset ks + mset us = mset xs \<and> subseq ks xs \<and> successively (\<lambda>x y. \<not> tied lt x y) ks
         \<and> (\<forall>u \<in> set us. \<exists>k \<in> set ks. tied lt k u)))"
proof (intro conjI impI)
  assume "dll h l xs \<and> dll h d ds \<and> cells l xs \<inter> cells d ds = {}"
  then obtain h' where "list_unique h l d lt = Some h'" "dll h' l (fst (uniq lt xs))" "dll h' d (ds @ snd (uniq lt xs))"
    using list_unique_dll [of h l xs d ds lt] by blast
  then show "\<exists>h' ks us. list_unique h l d lt = Some h' \<and> dll h' l ks \<and> dll h' d (ds @ us)
      \<and> mset ks + mset us = mset xs \<and> subseq ks xs \<and> successively (\<lambda>x y. \<not> tied lt x y) ks
      \<and> (\<forall>u \<in> set us. \<exists>k \<in> set ks. tied lt k u)"
    using uniq_spec [of lt xs] by blast
qed (use list_reverse_dll list_size_dll in blast)+

theorem list_reverse_unique_size_witness:
  "(\<exists>h'. list_reverse heap_ex 8 = Some h' \<and> dll h' 8 [40, 32, 48]) \<and> list_size heap_ex 8 = Some 3"
  using list_reverse_unique_size [of heap_ex 8 "[48, 32, 40]"] dll_ex by simp

lemma pick_max_in: "pick_max lt m xs \<in> set (m # xs)"
  by (induction lt m xs rule: pick_max.induct) (auto split: if_splits)

text \<open>
  \<^verbatim>\<open>list_max\<close> and \<^verbatim>\<open>list_min\<close> of a nonempty list return an element of the list that no element exceeds, or that exceeds
  no element.
\<close>

theorem list_max_min_extreme:
  assumes "list_order lt" and "dll h l xs" and "xs \<noteq> []"
  shows "(\<exists>m \<in> set xs. list_max h l lt = Some m \<and> (\<forall>y \<in> set xs. \<not> lt m y))
     \<and> (\<exists>m \<in> set xs. list_min h l lt = Some m \<and> (\<forall>y \<in> set xs. \<not> lt y m))"
proof -
  obtain x ys where xs: "xs = x # ys" using assms(3) by (cases xs) auto
  have rev: "list_order (\<lambda>x y. lt y x)"
    using list_order.asym [OF assms(1)] list_order.neg_trans [OF assms(1)] by unfold_locales blast+
  note mm = list_max_min_dll [of h l x ys lt]
  show ?thesis
    using assms(2) mm pick_max_in [of lt x ys] pick_max_in [of "\<lambda>x y. lt y x" x ys]
      list_order.pick_max_greatest [OF assms(1), of _ x ys] list_order.pick_max_greatest [OF rev, of _ x ys]
    unfolding xs by blast
qed

theorem list_max_min_extreme_witness:
  "\<exists>m \<in> {48, 32, 40}. list_max heap_ex 8 (<) = Some m \<and> (\<forall>y \<in> {48, 32, 40}. \<not> m < y)"
  using list_max_min_extreme [OF list_order_nat dll_ex] by auto

end
