(* ===== verification/Thread.thy ===== *)
theory Thread
  imports Kernel_State List_Sort
begin

text \<open>
  The scheduler, \<^verbatim>\<open>threads/thread.c\<close>. Every function is translated up to the point where it gives up the
  processor; what follows that point has been pushed on the calling thread's stack of pending calls.
  \<^verbatim>\<open>process_activate\<close> and \<^verbatim>\<open>process_exit\<close>, which belong to user processes, are not part of this model.
\<close>

section \<open>The running thread\<close>

definition thread_current :: "kstate \<Rightarrow> tptr option" where
  "thread_current s = do {
     ASSERT (is_thread s (running s));
     ASSERT (status (threads s (running s)) = THREAD_RUNNING);
     Some (running s)
   }"

definition thread_get_priority :: "kstate \<Rightarrow> int option" where
  "thread_get_priority s = do { t \<leftarrow> thread_current s; Some (priority (threads s t)) }"

definition thread_get_nice :: "kstate \<Rightarrow> u32 option" where
  "thread_get_nice s = do { t \<leftarrow> thread_current s; Some (nice (threads s t)) }"

definition thread_get_recent_cpu :: "kstate \<Rightarrow> u32 option" where
  "thread_get_recent_cpu s = do {
     t \<leftarrow> thread_current s;
     Some (100 * rnconv_fptoi (recent_cpu (threads s t)))
   }"

definition thread_get_load_avg :: "kstate \<Rightarrow> u32" where
  "thread_get_load_avg s = 100 * rnconv_fptoi (load_avg s)"

section \<open>Scheduling\<close>

definition next_thread_to_run :: "kstate \<Rightarrow> tptr \<times> kstate" where
  "next_thread_to_run s =
     (case ready_list s of
        [] \<Rightarrow> (idle_thread s, s)
      | t # ts \<Rightarrow> (t, upd_thread t (\<lambda>th. th\<lparr>thread_pl := None\<rparr>) (s\<lparr>ready_list := ts\<rparr>)))"

text \<open>A freed page is filled with 0xcc, which destroys the magic number.\<close>

definition free_thread :: "tptr \<Rightarrow> kstate \<Rightarrow> kstate" where
  "free_thread t s = (upd_thread t (\<lambda>th. th\<lparr>magic := 0xcccccccc\<rparr>) s)\<lparr>stacks := (stacks s)(t := [])\<rparr>"

definition thread_schedule_tail :: "tptr \<Rightarrow> kstate \<Rightarrow> kstate option" where
  "thread_schedule_tail prev s = do {
     let cur = running s;
     ASSERT (intr s = INTR_OFF);
     let s = upd_thread cur (\<lambda>th. th\<lparr>status := THREAD_RUNNING\<rparr>) s;
     let s = s\<lparr>thread_ticks := 0\<rparr>;
     if prev \<noteq> NULL \<and> status (threads s prev) = THREAD_DYING \<and> prev \<noteq> initial_thread s
     then do { ASSERT (prev \<noteq> cur); Some (free_thread prev s) }
     else Some s
   }"

definition schedule :: "kstate \<Rightarrow> kstate option" where
  "schedule s = do {
     let cur = running s;
     let (nxt_t, s) = next_thread_to_run s;
     ASSERT (intr s = INTR_OFF);
     ASSERT (status (threads s cur) \<noteq> THREAD_RUNNING);
     ASSERT (is_thread s nxt_t);
     if cur \<noteq> nxt_t then thread_schedule_tail cur (s\<lparr>running := nxt_t\<rparr>)
     else thread_schedule_tail NULL s
   }"

definition thread_block :: "kstate \<Rightarrow> kstate option" where
  "thread_block s = do {
     ASSERT (\<not> in_external_intr s);
     ASSERT (intr s = INTR_OFF);
     cur \<leftarrow> thread_current s;
     schedule (upd_thread cur (\<lambda>th. th\<lparr>status := THREAD_BLOCKED\<rparr>) s)
   }"

definition thread_yield :: "kstate \<Rightarrow> kstate option" where
  "thread_yield s = do {
     cur \<leftarrow> thread_current s;
     ASSERT (\<not> in_external_intr s);
     let (old_level, s) = intr_disable s;
     s \<leftarrow> (if cur \<noteq> idle_thread s then pl_insert ReadyList cur s else Some s);
     let s = upd_thread cur (\<lambda>th. th\<lparr>status := THREAD_READY\<rparr>) s;
     schedule (push [C_intr_set_level old_level] s)
   }"

definition thread_unblock :: "tptr \<Rightarrow> kstate \<Rightarrow> kstate option" where
  "thread_unblock t s = do {
     ASSERT (is_thread s t);
     let (old_level, s) = intr_disable s;
     ASSERT (status (threads s t) = THREAD_BLOCKED);
     s \<leftarrow> pl_insert ReadyList t s;
     let s = upd_thread t (\<lambda>th. th\<lparr>status := THREAD_READY\<rparr>) s;
     pri \<leftarrow> thread_get_priority s;
     if pri < thread_list_top_pri s (ready_list s) \<and> old_level \<noteq> INTR_OFF
     then thread_yield (push [C_intr_set_level old_level] s)
     else intr_set_level old_level s
   }"

definition thread_sleep :: "kstate \<Rightarrow> kstate option" where
  "thread_sleep s = do {
     cur \<leftarrow> thread_current s;
     ASSERT (\<not> elem_linked s cur);
     thread_block (s\<lparr>sleeping_list := sleeping_list s @ [cur]\<rparr>)
   }"

definition thread_exit :: "kstate \<Rightarrow> kstate option" where
  "thread_exit s = do {
     ASSERT (\<not> in_external_intr s);
     let (_, s) = intr_disable s;
     cur \<leftarrow> thread_current s;
     ASSERT (cur \<in> set (all_list s));
     let s = s\<lparr>all_list := remove1 cur (all_list s)\<rparr>;
     let s = upd_thread cur (\<lambda>th. th\<lparr>thread_pl := None, status := THREAD_DYING\<rparr>) s;
     schedule (push [C_not_reached] s)
   }"

section \<open>Sleeping threads\<close>

definition timer_ticks :: "kstate \<Rightarrow> int" where
  "timer_ticks s = ticks s"

definition timer_elapsed :: "int \<Rightarrow> kstate \<Rightarrow> int" where
  "timer_elapsed since s = timer_ticks s - since"

text \<open>The loop of \<^verbatim>\<open>thread_update_timers\<close> over the elements of the sleeping list that are still to be visited.\<close>

fun wake_loop :: "tptr list \<Rightarrow> kstate \<Rightarrow> kstate option" where
  "wake_loop [] s = Some s"
| "wake_loop (t # ts) s =
     (if sleep (threads s t) \<le> timer_elapsed (start (threads s t)) s then do {
        let s = s\<lparr>sleeping_list := remove1 t (sleeping_list s)\<rparr>;
        s \<leftarrow> pl_insert ReadyList t s;
        wake_loop ts (upd_thread t (\<lambda>th. th\<lparr>status := THREAD_READY\<rparr>) s)
      } else wake_loop ts s)"

definition thread_update_timers :: "kstate \<Rightarrow> kstate option" where
  "thread_update_timers s = wake_loop (sleeping_list s) s"

section \<open>The multi-level feedback queue\<close>

definition thread_calculate_load_avg :: "kstate \<Rightarrow> kstate option" where
  "thread_calculate_load_avg s = do {
     q \<leftarrow> div_fpn (conv_itofp 59) 60;
     let product1 = mult_fpfp q (load_avg s);
     let num_ready = (of_nat (length (ready_list s)) :: u32);
     cur \<leftarrow> thread_current s;
     let num_ready = (if cur \<noteq> NULL \<and> cur \<noteq> idle_thread s then num_ready + 1 else num_ready);
     product2 \<leftarrow> div_fpn (conv_itofp num_ready) 60;
     let avg = add_fpfp product1 product2;
     coeff \<leftarrow> div_fpfp (mult_fpn avg 2) (add_fpn (mult_fpn avg 2) 1);
     Some (s\<lparr>load_avg := avg, load_avg_coefficient := coeff\<rparr>)
   }"

definition thread_calculate_recent_cpu :: "tptr \<Rightarrow> kstate \<Rightarrow> kstate option" where
  "thread_calculate_recent_cpu t s = do {
     let product = mult_fpfp (load_avg_coefficient s) (recent_cpu (threads s t));
     let sum = add_fpn product (nice (threads s t));
     Some (upd_thread t (\<lambda>th. th\<lparr>recently_up := True, recent_cpu := sum\<rparr>) s)
   }"

definition mlfqs_priority :: "fp \<Rightarrow> u32 \<Rightarrow> int option" where
  "mlfqs_priority rc nc = do {
     quarter_cpu \<leftarrow> div_fpn rc 4;
     let sub1 = sub_fpfp (conv_itofp (word_of_int PRI_MAX)) quarter_cpu;
     let new_priority = sub_fpn sub1 (nc * 2);
     let p = sint (rzconv_fptoi new_priority);
     Some (if p < PRI_MIN then PRI_MIN else if p > PRI_MAX then PRI_MAX else p)
   }"

definition thread_calculate_priority :: "tptr \<Rightarrow> kstate \<Rightarrow> kstate option" where
  "thread_calculate_priority t s = do {
     let (old_level, s) = intr_disable s;
     p \<leftarrow> mlfqs_priority (recent_cpu (threads s t)) (nice (threads s t));
     let s = upd_thread t (\<lambda>th. th\<lparr>priority := p\<rparr>) s;
     s \<leftarrow> (if thread_pl (threads s t) \<noteq> None then pl_update t s else Some s);
     if priority (threads s t) < thread_list_top_pri s (ready_list s)
     then (if in_external_intr s
           then do { s \<leftarrow> intr_yield_on_return s; intr_set_level old_level s }
           else do {
             s \<leftarrow> intr_set_level old_level s;
             Some (push [C_thread_yield, C_intr_set_level old_level] s)
           })
     else intr_set_level old_level s
   }"

definition thread_update_priorities :: "tptr \<Rightarrow> kstate \<Rightarrow> kstate option" where
  "thread_update_priorities t s =
     (if \<not> recently_up (threads s t) then Some s
      else thread_calculate_priority t (upd_thread t (\<lambda>th. th\<lparr>recently_up := False\<rparr>) s))"

definition thread_foreach :: "(tptr \<Rightarrow> kstate \<Rightarrow> kstate option) \<Rightarrow> kstate \<Rightarrow> kstate option" where
  "thread_foreach func s = do { ASSERT (intr s = INTR_OFF); foldM func (all_list s) s }"

definition thread_set_nice :: "u32 \<Rightarrow> kstate \<Rightarrow> kstate option" where
  "thread_set_nice n s = do {
     ASSERT (sint n \<le> 20 \<and> - 20 \<le> sint n);
     cur \<leftarrow> thread_current s;
     thread_calculate_priority cur (upd_thread cur (\<lambda>th. th\<lparr>nice := n\<rparr>) s)
   }"

definition thread_set_priority :: "int \<Rightarrow> kstate \<Rightarrow> kstate option" where
  "thread_set_priority new_priority s =
     (if thread_mlfqs s then Some s else do {
        t \<leftarrow> thread_current s;
        let (old_level, s) = intr_disable s;
        let s = upd_thread t (\<lambda>th. th\<lparr>original_priority := new_priority\<rparr>) s;
        let s = (if donated (threads s t)
                 then (if priority (threads s t) < new_priority
                       then upd_thread t (\<lambda>th. th\<lparr>priority := new_priority, donated := False\<rparr>) s
                       else s)
                 else upd_thread t (\<lambda>th. th\<lparr>priority := new_priority\<rparr>) s);
        if priority (threads s t) < thread_list_top_pri s (ready_list s)
        then thread_yield (push [C_intr_set_level old_level] s)
        else intr_set_level old_level s
      })"

definition count_tick :: "tptr \<Rightarrow> kstate \<Rightarrow> kstate" where
  "count_tick t s =
     (if t = idle_thread s then s\<lparr>idle_ticks := idle_ticks s + 1\<rparr>
      else if has_pagedir (threads s t) then s\<lparr>user_ticks := user_ticks s + 1\<rparr>
      else s\<lparr>kernel_ticks := kernel_ticks s + 1\<rparr>)"

definition mlfqs_tick :: "tptr \<Rightarrow> kstate \<Rightarrow> kstate option" where
  "mlfqs_tick t s = do {
     let s = (if t \<noteq> idle_thread s
              then upd_thread t (\<lambda>th. th\<lparr>recent_cpu := add_fpn (recent_cpu th) 1, recently_up := True\<rparr>) s
              else s);
     s \<leftarrow> (if timer_ticks s mod TIMER_FREQ = 0
          then do {
            s \<leftarrow> thread_calculate_load_avg s;
            let (old_level, s) = intr_disable s;
            s \<leftarrow> thread_foreach thread_calculate_recent_cpu s;
            intr_set_level old_level s
          } else Some s);
     if timer_ticks s mod int TIME_SLICE = 0
     then do {
       let (old_level, s) = intr_disable s;
       s \<leftarrow> thread_foreach thread_update_priorities s;
       intr_set_level old_level s
     } else Some s
   }"

definition thread_tick :: "kstate \<Rightarrow> kstate option" where
  "thread_tick s = do {
     t \<leftarrow> thread_current s;
     s \<leftarrow> (if sleeping_list s \<noteq> [] then thread_update_timers s else Some s);
     s \<leftarrow> (if priority (threads s t) > thread_list_top_pri s (ready_list s)
          then intr_yield_on_return s else Some s);
     let s = count_tick t s;
     s \<leftarrow> (if thread_mlfqs s then mlfqs_tick t s else Some s);
     let s = s\<lparr>thread_ticks := thread_ticks s + 1\<rparr>;
     if of_nat TIME_SLICE \<le> thread_ticks s then intr_yield_on_return s else Some s
   }"

section \<open>Creation\<close>

definition init_thread :: "tptr \<Rightarrow> string \<Rightarrow> int \<Rightarrow> kstate \<Rightarrow> kstate option" where
  "init_thread t nm pri s = do {
     ASSERT (t \<noteq> NULL);
     ASSERT (PRI_MIN \<le> pri \<and> pri \<le> PRI_MAX);
     let (old_level, s) = intr_disable s;
     let p = (if thread_mlfqs s then PRI_DEFAULT else pri);
     let th = \<lparr>tid = 0, status = THREAD_BLOCKED, name = take 15 nm, priority = p, original_priority = p,
               nice = 0, recent_cpu = 0, start = - 1, sleep = - 1, recently_up = False, donated = False,
               thread_pl = None, waiting_for_tlock = NULL, acquired_locks = [], has_pagedir = False,
               magic = THREAD_MAGIC\<rparr>;
     let s = s\<lparr>threads := (threads s)(t := th), stacks := (stacks s)(t := []), all_list := all_list s @ [t]\<rparr>;
     intr_set_level old_level s
   }"

text \<open>
  \<^verbatim>\<open>palloc_get_page\<close> has returned \<^term>\<open>t\<close>, or \<^verbatim>\<open>NULL\<close>. The rest of the function is the three statements of
  \<^verbatim>\<open>allocate_tid\<close>, the first of which may block, and then the initial stack frame and \<^verbatim>\<open>thread_unblock\<close>.
\<close>

definition thread_create :: "tptr \<Rightarrow> string \<Rightarrow> int \<Rightarrow> thread_func \<Rightarrow> kstate \<Rightarrow> kstate option" where
  "thread_create t nm pri func s =
     (if t = NULL then Some s
      else do {
        s \<leftarrow> init_thread t nm pri s;
        Some (push [C_lock_acquire TidLock, C_allocate_tid t, C_lock_release TidLock, C_create_tail t func] s)
      })"

definition allocate_tid :: "tptr \<Rightarrow> kstate \<Rightarrow> kstate" where
  "allocate_tid t s =
     (upd_thread t (\<lambda>th. th\<lparr>tid := next_tid s\<rparr>) s)\<lparr>next_tid := next_tid s + 1\<rparr>"

definition create_tail :: "tptr \<Rightarrow> thread_func \<Rightarrow> kstate \<Rightarrow> kstate option" where
  "create_tail t func s = do {
     ASSERT (is_thread s t);
     thread_unblock t (s\<lparr>stacks := (stacks s)(t := [C_kernel_thread func])\<rparr>)
   }"

text \<open>
  The first code of a new thread: interrupts go on and its function is called. \<^verbatim>\<open>idle\<close> announces itself; any
  other function is code outside this model, and \<^verbatim>\<open>thread_exit\<close> follows it.
\<close>

definition kernel_thread :: "thread_func \<Rightarrow> kstate \<Rightarrow> kstate option" where
  "kernel_thread func s = do {
     s \<leftarrow> intr_enable s;
     case func of
       Idle idle_started \<Rightarrow> do {
         cur \<leftarrow> thread_current s;
         Some (push [C_sema_up idle_started, C_idle_loop] (s\<lparr>idle_thread := cur\<rparr>))
       }
     | Func \<Rightarrow> Some s
   }"

definition idle_loop :: "kstate \<Rightarrow> kstate option" where
  "idle_loop s = do {
     let (_, s) = intr_disable s;
     thread_block (push [C_sti_hlt, C_idle_loop] s)
   }"

section \<open>Priorities order threads\<close>

interpretation pri: list_order "thread_cmp s" for s
  by unfold_locales (auto simp: thread_cmp_def)

end
