(* ===== verification/Synch.thy ===== *)
theory Synch
  imports Thread
begin

text \<open>
  Synchronization, \<^verbatim>\<open>threads/synch.c\<close>: semaphores, locks with priority donation, condition variables and
  shared (reader/writer) locks. As in theory \<^verbatim>\<open>Thread\<close>, a function that may block pushes the calls that
  make up its rest.
\<close>

section \<open>Semaphores\<close>

definition sema_init :: "sptr \<Rightarrow> u32 \<Rightarrow> kstate \<Rightarrow> kstate" where
  "sema_init x v s = s\<lparr>semas := (semas s)(x := \<lparr>sema_value = v, waiters = []\<rparr>)\<rparr>"

text \<open>The \<^verbatim>\<open>while\<close> loop of \<^verbatim>\<open>sema_down\<close> and what follows it, entered again each time the thread is woken.\<close>

definition sema_loop :: "sptr \<Rightarrow> intr_level \<Rightarrow> kstate \<Rightarrow> kstate option" where
  "sema_loop x old_level s =
     (if sema_value (semas s x) = 0 then do {
        cur \<leftarrow> thread_current s;
        s \<leftarrow> pl_insert (WaitersOf x) cur s;
        thread_block (push [C_sema_loop x old_level] s)
      } else intr_set_level old_level (upd_sema x (\<lambda>m. m\<lparr>sema_value := sema_value m - 1\<rparr>) s))"

definition sema_down :: "sptr \<Rightarrow> kstate \<Rightarrow> kstate option" where
  "sema_down x s = do {
     ASSERT (\<not> in_external_intr s);
     let (old_level, s) = intr_disable s;
     sema_loop x old_level s
   }"

definition sema_try_down :: "sptr \<Rightarrow> kstate \<Rightarrow> (bool \<times> kstate) option" where
  "sema_try_down x s = do {
     let (old_level, s) = intr_disable s;
     let (success, s) =
       (if 0 < sema_value (semas s x)
        then (True, upd_sema x (\<lambda>m. m\<lparr>sema_value := sema_value m - 1\<rparr>) s)
        else (False, s));
     s \<leftarrow> intr_set_level old_level s;
     Some (success, s)
   }"

text \<open>
  \<^verbatim>\<open>sema_up\<close> restores the interrupt level before it takes the first waiter off the list and unblocks it: that
  call is pending with interrupts possibly on, and the list may be empty when it is executed.
\<close>

definition sema_up :: "sptr \<Rightarrow> kstate \<Rightarrow> kstate option" where
  "sema_up x s = do {
     let (old_level, s) = intr_disable s;
     let s = upd_sema x (\<lambda>m. m\<lparr>sema_value := sema_value m + 1\<rparr>) s;
     s' \<leftarrow> intr_set_level old_level s;
     Some (if waiters (semas s x) \<noteq> [] then push [C_sema_pop x, C_intr_set_level old_level] s' else s')
   }"

definition sema_pop :: "sptr \<Rightarrow> kstate \<Rightarrow> kstate option" where
  "sema_pop x s =
     (case waiters (semas s x) of
        [] \<Rightarrow> None
      | t # ts \<Rightarrow> thread_unblock t (upd_sema x (\<lambda>m. m\<lparr>waiters := ts\<rparr>) s))"

section \<open>Locks\<close>

definition lock_init :: "lptr \<Rightarrow> kstate \<Rightarrow> kstate" where
  "lock_init l s = sema_init (LockSema l) 1 (s\<lparr>holder := (holder s)(l := NULL)\<rparr>)"

definition lock_held_by_current_thread :: "lptr \<Rightarrow> kstate \<Rightarrow> bool option" where
  "lock_held_by_current_thread l s = do { t \<leftarrow> thread_current s; Some (holder s l = t) }"

function donate_loop :: "nat \<Rightarrow> tptr \<Rightarrow> int \<Rightarrow> kstate \<Rightarrow> kstate option" where
  "donate_loop cnt cur donate_pri s =
     (if cur \<noteq> NULL \<and> cnt < 9 then do {
        th \<leftarrow> deref s cur;
        if donate_pri \<le> priority th then Some s
        else do {
          let s = upd_thread cur (\<lambda>th. th\<lparr>priority := donate_pri, donated := True\<rparr>) s;
          s \<leftarrow> pl_update cur s;
          donate_loop (Suc cnt) (waiting_for_tlock (threads s cur)) donate_pri s
        }
      } else Some s)"
  by pat_completeness auto
termination by (relation "measure (\<lambda>(cnt, _). 9 - cnt)") auto

declare donate_loop.simps [simp del]

definition lock_donate :: "lptr \<Rightarrow> int \<Rightarrow> kstate \<Rightarrow> kstate option" where
  "lock_donate l donate_pri s = donate_loop 0 (holder s l) donate_pri s"

definition give_lock :: "lptr \<Rightarrow> tptr \<Rightarrow> kstate \<Rightarrow> kstate" where
  "give_lock l t s =
     upd_thread t (\<lambda>th. th\<lparr>waiting_for_tlock := NULL, acquired_locks := acquired_locks th @ [l]\<rparr>)
       (s\<lparr>holder := (holder s)(l := t)\<rparr>)"

definition lock_try_acquire :: "lptr \<Rightarrow> kstate \<Rightarrow> (bool \<times> kstate) option" where
  "lock_try_acquire l s = do {
     held \<leftarrow> lock_held_by_current_thread l s;
     ASSERT (\<not> held);
     let (old_level, s) = intr_disable s;
     (success, s) \<leftarrow> sema_try_down (LockSema l) s;
     t \<leftarrow> thread_current s;
     let s = (if success then give_lock l t s else s);
     s \<leftarrow> intr_set_level old_level s;
     Some (success, s)
   }"

definition lock_acquire :: "lptr \<Rightarrow> kstate \<Rightarrow> kstate option" where
  "lock_acquire l s = do {
     ASSERT (\<not> in_external_intr s);
     held \<leftarrow> lock_held_by_current_thread l s;
     ASSERT (\<not> held);
     let (old_level, s) = intr_disable s;
     t \<leftarrow> thread_current s;
     let current_priority = priority (threads s t);
     (success, s) \<leftarrow> lock_try_acquire l s;
     if success then intr_set_level old_level s
     else do {
       let s = upd_thread t (\<lambda>th. th\<lparr>waiting_for_tlock := holder s l\<rparr>) s;
       h \<leftarrow> deref s (holder s l);
       s \<leftarrow> (if priority h < current_priority \<and> \<not> thread_mlfqs s
            then lock_donate l current_priority s else Some s);
       sema_down (LockSema l) (push [C_give_lock l t old_level] s)
     }
   }"

text \<open>The end of \<^verbatim>\<open>lock_acquire\<close>, after \<^verbatim>\<open>sema_down\<close> has returned.\<close>

definition acquire_tail :: "lptr \<Rightarrow> tptr \<Rightarrow> intr_level \<Rightarrow> kstate \<Rightarrow> kstate option" where
  "acquire_tail l t old_level s = intr_set_level old_level (give_lock l t s)"

definition next_potential_donation :: "tptr \<Rightarrow> kstate \<Rightarrow> int" where
  "next_potential_donation t s =
     fold (\<lambda>l max_pri. let p = thread_list_top_pri s (waiters (semas s (LockSema l)))
                       in if p > max_pri then p else max_pri)
       (acquired_locks (threads s t)) 0"

text \<open>
  \<^verbatim>\<open>list_remove (&lock->lock_list_elem)\<close> takes the lock out of the list of its holder, which is the running
  thread.
\<close>

definition lock_release :: "lptr \<Rightarrow> kstate \<Rightarrow> kstate option" where
  "lock_release l s = do {
     held \<leftarrow> lock_held_by_current_thread l s;
     ASSERT held;
     let (old_level, s) = intr_disable s;
     t \<leftarrow> thread_current s;
     ASSERT (l \<in> set (acquired_locks (threads s t)));
     let s = upd_thread t (\<lambda>th. th\<lparr>acquired_locks := remove1 l (acquired_locks th)\<rparr>) s;
     let s = (if \<not> thread_mlfqs s then
                (let s = upd_thread t (\<lambda>th. th\<lparr>priority := original_priority th, donated := False\<rparr>) s;
                     max_pri = next_potential_donation t s
                 in if acquired_locks (threads s t) \<noteq> [] \<and> original_priority (threads s t) < max_pri
                    then upd_thread t (\<lambda>th. th\<lparr>priority := max_pri, donated := True\<rparr>) s
                    else s)
              else s);
     let s = s\<lparr>holder := (holder s)(l := NULL)\<rparr>;
     s \<leftarrow> intr_set_level old_level s;
     Some (push [C_sema_up (LockSema l)] s)
   }"

section \<open>Condition variables\<close>

definition cond_init :: "cptr \<Rightarrow> kstate \<Rightarrow> kstate" where
  "cond_init c s = s\<lparr>conds := (conds s)(c := [])\<rparr>"

text \<open>
  A condition holds a list of semaphores with one waiter each; an element is named by the thread whose local
  variable it is. \<^verbatim>\<open>cond_cmp\<close> reads the priority of the first waiter, also when there is none.
\<close>

definition cond_key :: "kstate \<Rightarrow> tptr \<Rightarrow> int" where
  "cond_key s w =
     (case waiters (semas s (WaiterSema w)) of [] \<Rightarrow> junk s w | t # _ \<Rightarrow> priority (threads s t))"

definition cond_cmp :: "kstate \<Rightarrow> tptr \<Rightarrow> tptr \<Rightarrow> bool" where
  "cond_cmp s a b \<longleftrightarrow> cond_key s a > cond_key s b"

definition cond_wait :: "cptr \<Rightarrow> lptr \<Rightarrow> kstate \<Rightarrow> kstate option" where
  "cond_wait c l s = do {
     ASSERT (\<not> in_external_intr s);
     held \<leftarrow> lock_held_by_current_thread l s;
     ASSERT held;
     t \<leftarrow> thread_current s;
     let s = sema_init (WaiterSema t) 0 s;
     ASSERT (t \<notin> set (conds s c));
     let s = s\<lparr>conds := (conds s)(c := ins_ord (cond_cmp s) t (conds s c))\<rparr>;
     Some (push [C_lock_release l, C_sema_down (WaiterSema t), C_lock_acquire l] s)
   }"

text \<open>\<^verbatim>\<open>list_sort\<close> is a stable sort (theory \<^verbatim>\<open>List_Sort\<close>): greatest key first.\<close>

definition cond_sort_priority :: "cptr \<Rightarrow> kstate \<Rightarrow> kstate" where
  "cond_sort_priority c s = s\<lparr>conds := (conds s)(c := sort_key (\<lambda>w. - cond_key s w) (conds s c))\<rparr>"

definition cond_signal :: "cptr \<Rightarrow> lptr \<Rightarrow> kstate \<Rightarrow> kstate option" where
  "cond_signal c l s = do {
     ASSERT (\<not> in_external_intr s);
     held \<leftarrow> lock_held_by_current_thread l s;
     ASSERT held;
     let s = cond_sort_priority c s;
     (case conds s c of
        [] \<Rightarrow> Some s
      | w # ws \<Rightarrow> Some (push [C_sema_up (WaiterSema w)] (s\<lparr>conds := (conds s)(c := ws)\<rparr>)))
   }"

definition cond_broadcast :: "cptr \<Rightarrow> lptr \<Rightarrow> kstate \<Rightarrow> kstate option" where
  "cond_broadcast c l s =
     (if conds s c \<noteq> [] then cond_signal c l (push [C_cond_broadcast c l] s) else Some s)"

section \<open>Shared locks\<close>

definition slock_init :: "nat \<Rightarrow> kstate \<Rightarrow> kstate" where
  "slock_init x s =
     (cond_init (SharedCond x) (lock_init (SharedLock x) s))\<lparr>slock_i := (slock_i s)(x := 0)\<rparr>"

definition lock_acquire_exclusive :: "nat \<Rightarrow> kstate \<Rightarrow> kstate" where
  "lock_acquire_exclusive x s = push [C_lock_acquire (SharedLock x), C_exclusive_loop x] s"

definition exclusive_loop :: "nat \<Rightarrow> kstate \<Rightarrow> kstate" where
  "exclusive_loop x s =
     (if slock_i s x \<noteq> 0
      then push [C_cond_wait (SharedCond x) (SharedLock x), C_exclusive_loop x] s
      else push [C_lock_release (SharedLock x)] (s\<lparr>slock_i := (slock_i s)(x := - 1)\<rparr>))"

definition lock_acquire_shared :: "nat \<Rightarrow> kstate \<Rightarrow> kstate" where
  "lock_acquire_shared x s = push [C_lock_acquire (SharedLock x), C_shared_loop x] s"

definition shared_loop :: "nat \<Rightarrow> kstate \<Rightarrow> kstate" where
  "shared_loop x s =
     (if slock_i s x < 0
      then push [C_cond_wait (SharedCond x) (SharedLock x), C_shared_loop x] s
      else push [C_lock_release (SharedLock x)] (s\<lparr>slock_i := (slock_i s)(x := slock_i s x + 1)\<rparr>))"

definition lock_release_shared :: "nat \<Rightarrow> kstate \<Rightarrow> kstate" where
  "lock_release_shared x s = push [C_lock_acquire (SharedLock x), C_shared_drop x] s"

definition shared_drop :: "nat \<Rightarrow> kstate \<Rightarrow> kstate" where
  "shared_drop x s =
     (let s = s\<lparr>slock_i := (slock_i s)(x := slock_i s x - 1)\<rparr>
      in push ((if slock_i s x = 0 then [C_cond_signal (SharedCond x) (SharedLock x)] else [])
               @ [C_lock_release (SharedLock x)]) s)"

definition lock_release_exclusive :: "nat \<Rightarrow> kstate \<Rightarrow> kstate" where
  "lock_release_exclusive x s = push [C_lock_acquire (SharedLock x), C_exclusive_drop x] s"

definition exclusive_drop :: "nat \<Rightarrow> kstate \<Rightarrow> kstate" where
  "exclusive_drop x s =
     push [C_cond_broadcast (SharedCond x) (SharedLock x), C_lock_release (SharedLock x)]
       (s\<lparr>slock_i := (slock_i s)(x := 0)\<rparr>)"

section \<open>Signals go to the greatest key\<close>

interpretation cond_pri: list_order "cond_cmp s" for s
  by unfold_locales (auto simp: cond_cmp_def)

end
