(* ===== verification/Kernel.thy ===== *)
theory Kernel
  imports Synch
begin

text \<open>
  The kernel as a transition system: the timer (\<^verbatim>\<open>devices/timer.c\<close>), external interrupts (\<^verbatim>\<open>intr_handler\<close> of
  \<^verbatim>\<open>threads/interrupt.c\<close>), booting (\<^verbatim>\<open>thread_init\<close>, \<^verbatim>\<open>thread_start\<close>) and the step relation that interleaves the
  kernel calls of all threads with timer interrupts.
\<close>

section \<open>Timer and interrupts\<close>

definition timer_sleep :: "int \<Rightarrow> kstate \<Rightarrow> kstate option" where
  "timer_sleep n s = do {
     ASSERT (intr s = INTR_ON);
     let (old_level, s) = intr_disable s;
     cur \<leftarrow> thread_current s;
     let s = upd_thread cur (\<lambda>th. th\<lparr>start := timer_ticks s, sleep := n\<rparr>) s;
     thread_sleep (push [C_intr_set_level old_level] s)
   }"

definition timer_interrupt :: "kstate \<Rightarrow> kstate option" where
  "timer_interrupt s = thread_tick (s\<lparr>ticks := ticks s + 1\<rparr>)"

text \<open>
  The processor takes the interrupt with interrupts on and turns them off; the return from the interrupt turns
  them on again.
\<close>

definition intr_handler :: "(kstate \<Rightarrow> kstate option) \<Rightarrow> kstate \<Rightarrow> kstate option" where
  "intr_handler handler s = do {
     let s = s\<lparr>intr := INTR_OFF\<rparr>;
     ASSERT (\<not> in_external_intr s);
     s \<leftarrow> handler (s\<lparr>in_external_intr := True, yield_on_return := False\<rparr>);
     ASSERT (intr s = INTR_OFF);
     ASSERT (in_external_intr s);
     let s = s\<lparr>in_external_intr := False\<rparr>;
     if yield_on_return s then thread_yield (push [C_intr_set_level INTR_ON] s)
     else Some (s\<lparr>intr := INTR_ON\<rparr>)
   }"

section \<open>Executing pending calls\<close>

fun exec :: "call \<Rightarrow> kstate \<Rightarrow> kstate option" where
  "exec (C_intr_set_level level) s = intr_set_level level s"
| "exec C_not_reached s = None"
| "exec C_thread_yield s = thread_yield s"
| "exec C_thread_exit s = thread_exit s"
| "exec (C_thread_set_priority p) s = thread_set_priority p s"
| "exec (C_thread_set_nice n) s = thread_set_nice n s"
| "exec (C_thread_create t nm pri func) s = thread_create t nm pri func s"
| "exec (C_allocate_tid t) s = Some (allocate_tid t s)"
| "exec (C_create_tail t func) s = create_tail t func s"
| "exec (C_kernel_thread func) s = kernel_thread func s"
| "exec C_idle_loop s = idle_loop s"
| "exec C_sti_hlt s = Some (s\<lparr>intr := INTR_ON\<rparr>)"
| "exec (C_timer_sleep n) s = timer_sleep n s"
| "exec (C_sema_down x) s = sema_down x s"
| "exec (C_sema_loop x old_level) s = sema_loop x old_level s"
| "exec (C_sema_up x) s = sema_up x s"
| "exec (C_sema_pop x) s = sema_pop x s"
| "exec (C_sema_try_down x) s = map_option snd (sema_try_down x s)"
| "exec (C_lock_acquire l) s = lock_acquire l s"
| "exec (C_lock_try_acquire l) s = map_option snd (lock_try_acquire l s)"
| "exec (C_give_lock l t old_level) s = acquire_tail l t old_level s"
| "exec (C_lock_release l) s = lock_release l s"
| "exec (C_cond_wait c l) s = cond_wait c l s"
| "exec (C_cond_signal c l) s = cond_signal c l s"
| "exec (C_cond_broadcast c l) s = cond_broadcast c l s"
| "exec (C_acquire_exclusive x) s = Some (lock_acquire_exclusive x s)"
| "exec (C_exclusive_loop x) s = Some (exclusive_loop x s)"
| "exec (C_acquire_shared x) s = Some (lock_acquire_shared x s)"
| "exec (C_shared_loop x) s = Some (shared_loop x s)"
| "exec (C_release_shared x) s = Some (lock_release_shared x s)"
| "exec (C_shared_drop x) s = Some (shared_drop x s)"
| "exec (C_release_exclusive x) s = Some (lock_release_exclusive x s)"
| "exec (C_exclusive_drop x) s = Some (exclusive_drop x s)"

section \<open>Booting\<close>

text \<open>Memory before \<^verbatim>\<open>thread_init\<close>: no threads, every lock initialized, semaphores with given values.\<close>

definition power_on :: "bool \<Rightarrow> (nat \<Rightarrow> u32) \<Rightarrow> kstate" where
  "power_on mlfqs vals =
     \<lparr>threads = (\<lambda>_. \<lparr>tid = 0, status = THREAD_BLOCKED, name = [], priority = 0, original_priority = 0,
        nice = 0, recent_cpu = 0, start = 0, sleep = 0, recently_up = False, donated = False,
        thread_pl = None, waiting_for_tlock = NULL, acquired_locks = [], has_pagedir = False, magic = 0\<rparr>),
      stacks = (\<lambda>_. []), running = NULL, idle_thread = NULL, initial_thread = NULL,
      ready_list = [], all_list = [], sleeping_list = [],
      semas = (\<lambda>x. case x of Sema n \<Rightarrow> \<lparr>sema_value = vals n, waiters = []\<rparr>
                 | LockSema _ \<Rightarrow> \<lparr>sema_value = 1, waiters = []\<rparr>
                 | WaiterSema _ \<Rightarrow> \<lparr>sema_value = 0, waiters = []\<rparr>),
      holder = (\<lambda>_. NULL), conds = (\<lambda>_. []), slock_i = (\<lambda>_. 0), junk = (\<lambda>_. 0),
      next_tid = 1, intr = INTR_OFF, in_external_intr = False, yield_on_return = False, thread_ticks = 0,
      ticks = 0, idle_ticks = 0, kernel_ticks = 0, user_ticks = 0, load_avg = 0, load_avg_coefficient = 0,
      thread_mlfqs = mlfqs\<rparr>"

definition thread_init :: "tptr \<Rightarrow> kstate \<Rightarrow> kstate option" where
  "thread_init t s = do {
     ASSERT (intr s = INTR_OFF);
     let s = lock_init TidLock s;
     let s = s\<lparr>ready_list := [], all_list := [], sleeping_list := [], load_avg := 0,
               load_avg_coefficient := 0, running := t, initial_thread := t\<rparr>;
     s \<leftarrow> init_thread t ''main'' PRI_DEFAULT s;
     let s = upd_thread t (\<lambda>th. th\<lparr>status := THREAD_RUNNING\<rparr>) s;
     Some (push [C_lock_acquire TidLock, C_allocate_tid t, C_lock_release TidLock] s)
   }"

text \<open>\<^term>\<open>t\<close> is the page for the idle thread and \<^term>\<open>x\<close> the address of the local semaphore \<^verbatim>\<open>idle_started\<close>.\<close>

definition thread_start :: "tptr \<Rightarrow> nat \<Rightarrow> kstate \<Rightarrow> kstate" where
  "thread_start t x s =
     (let s = sema_init (Sema x) 0 s
      in s\<lparr>stacks := (stacks s)(running s := stacks s (running s) @
             [C_thread_create t ''idle'' PRI_MIN (Idle (Sema x)), C_intr_set_level INTR_ON, C_sema_down (Sema x)])\<rparr>)"

definition boot :: "bool \<Rightarrow> (nat \<Rightarrow> u32) \<Rightarrow> tptr \<Rightarrow> tptr \<Rightarrow> nat \<Rightarrow> kstate option" where
  "boot mlfqs vals t t_idle x =
     map_option (thread_start t_idle x) (thread_init t (power_on mlfqs vals))"

section \<open>The step relation\<close>

text \<open>The calls that code outside the scheduler makes.\<close>

fun api_call :: "call \<Rightarrow> bool" where
  "api_call C_thread_yield = True"
| "api_call C_thread_exit = True"
| "api_call (C_thread_set_priority p) = True"
| "api_call (C_thread_set_nice n) = True"
| "api_call (C_thread_create t nm pri func) = (func = Func)"
| "api_call (C_timer_sleep n) = True"
| "api_call (C_sema_down (Sema n)) = True"
| "api_call (C_sema_up (Sema n)) = True"
| "api_call (C_sema_try_down (Sema n)) = True"
| "api_call (C_lock_acquire (Lock n)) = True"
| "api_call (C_lock_try_acquire (Lock n)) = True"
| "api_call (C_lock_release (Lock n)) = True"
| "api_call (C_cond_wait (Cond c) (Lock n)) = True"
| "api_call (C_cond_signal (Cond c) (Lock n)) = True"
| "api_call (C_cond_broadcast (Cond c) (Lock n)) = True"
| "api_call (C_acquire_exclusive x) = True"
| "api_call (C_acquire_shared x) = True"
| "api_call (C_release_shared x) = True"
| "api_call (C_release_exclusive x) = True"
| "api_call _ = False"

definition run_pending :: "kstate \<Rightarrow> kstate option" where
  "run_pending s =
     (case stacks s (running s) of
        [] \<Rightarrow> None
      | c # cs \<Rightarrow> exec c (s\<lparr>stacks := (stacks s)(running s := cs)\<rparr>))"

text \<open>The page that \<^verbatim>\<open>palloc_get_page\<close> returns to \<^verbatim>\<open>thread_create\<close> holds no thread.\<close>

definition fresh_page :: "kstate \<Rightarrow> bool" where
  "fresh_page s =
     (case stacks s (running s) of C_thread_create t nm pri func # cs \<Rightarrow> \<not> is_thread s t | _ \<Rightarrow> True)"

text \<open>The idle thread executes \<^verbatim>\<open>idle\<close> and nothing else.\<close>

inductive kstep :: "kstate \<Rightarrow> kstate \<Rightarrow> bool" where
  pending: "fresh_page s \<Longrightarrow> run_pending s = Some s' \<Longrightarrow> kstep s s'"
| call: "stacks s (running s) = [] \<Longrightarrow> running s \<noteq> idle_thread s \<Longrightarrow> intr s = INTR_ON \<Longrightarrow> api_call c \<Longrightarrow>
    kstep s (push [c] s)"
| tick: "intr s = INTR_ON \<Longrightarrow> intr_handler timer_interrupt s = Some s' \<Longrightarrow> kstep s s'"
| scribble: "kstep s (s\<lparr>junk := j\<rparr>)"

inductive reachable :: "kstate \<Rightarrow> bool" where
  boot: "boot mlfqs vals t t_idle x = Some s \<Longrightarrow> t_idle \<noteq> t \<Longrightarrow> reachable s"
| step: "reachable s \<Longrightarrow> kstep s s' \<Longrightarrow> reachable s'"

inductive_cases kstepE: "kstep s s'"

end
