(* ===== verification/Sched_Inv.thy ===== *)
theory Sched_Inv
  imports Kernel
begin

text \<open>
  What holds in every state the kernel can reach, over all interleavings of kernel calls and timer interrupts: one thread
  runs, the lists of threads hold what they should and are in priority order, the idle thread stays out of every list,
  sleeping threads are not past their deadline, and a lock is held by one thread, free, or being handed over. The
  invariant is stated here and shown for the primitives that the operations are made of.
\<close>

section \<open>The invariant\<close>

subsection \<open>Lists of threads\<close>

definition list_status :: "plist \<Rightarrow> thread_status" where
  "list_status q = (case q of ReadyList \<Rightarrow> THREAD_READY | WaitersOf _ \<Rightarrow> THREAD_BLOCKED)"

lemma list_status_simps [simp]:
  "list_status ReadyList = THREAD_READY" "list_status (WaitersOf x) = THREAD_BLOCKED"
  "list_status q = THREAD_READY \<longleftrightarrow> q = ReadyList" "list_status q = THREAD_BLOCKED \<longleftrightarrow> q \<noteq> ReadyList"
  "list_status q \<noteq> THREAD_RUNNING" "list_status q \<noteq> THREAD_DYING"
  by (cases q; simp add: list_status_def)+

definition linked_ok :: "kstate \<Rightarrow> bool" where
  "linked_ok s \<longleftrightarrow>
     (\<forall>q. distinct (pl_list s q)) \<and> distinct (sleeping_list s)
     \<and> (\<forall>q. \<forall>t \<in> set (pl_list s q). is_thread s t \<and> status (threads s t) = list_status q
          \<and> thread_pl (threads s t) = Some q)
     \<and> (\<forall>t \<in> set (sleeping_list s). is_thread s t \<and> status (threads s t) = THREAD_BLOCKED
          \<and> (\<forall>q. t \<notin> set (pl_list s q)))
     \<and> (\<forall>t. is_thread s t \<and> status (threads s t) = THREAD_READY \<longrightarrow>
          t \<in> set (pl_list s ReadyList) \<or> t = idle_thread s)"

definition sorted_ok :: "kstate \<Rightarrow> bool" where
  "sorted_ok s \<longleftrightarrow> (\<forall>q. in_order (thread_cmp s) (pl_list s q))"

definition idle_out :: "kstate \<Rightarrow> bool" where
  "idle_out s \<longleftrightarrow> (\<forall>q. idle_thread s \<notin> set (pl_list s q)) \<and> idle_thread s \<notin> set (sleeping_list s)
     \<and> (idle_thread s \<noteq> NULL \<longrightarrow> is_thread s (idle_thread s) \<and> status (threads s (idle_thread s)) \<noteq> THREAD_DYING)"

definition waiter_ok :: "kstate \<Rightarrow> bool" where
  "waiter_ok s \<longleftrightarrow> (\<forall>w. set (pl_list s (WaitersOf (WaiterSema w))) \<subseteq> {w})"

text \<open>\<^term>\<open>d\<close> is the number of ticks up to which the sleeping list has been looked through.\<close>

definition deadline_ok :: "int \<Rightarrow> kstate \<Rightarrow> bool" where
  "deadline_ok d s \<longleftrightarrow> (\<forall>t \<in> set (sleeping_list s). d < start (threads s t) + max 1 (sleep (threads s t)))"

definition one_running :: "kstate \<Rightarrow> bool" where
  "one_running s \<longleftrightarrow> is_thread s (running s) \<and> status (threads s (running s)) = THREAD_RUNNING
     \<and> (\<forall>t. is_thread s t \<and> status (threads s t) = THREAD_RUNNING \<longrightarrow> t = running s)"

definition none_running :: "kstate \<Rightarrow> bool" where
  "none_running s \<longleftrightarrow> (\<forall>t. is_thread s t \<longrightarrow> status (threads s t) \<noteq> THREAD_RUNNING)"

subsection \<open>Pending calls\<close>

text \<open>
  What a pending call has a claim to: the right to start a thread that has been created, to become the idle thread, or to
  hand over a lock. A thread in the loop of \<^verbatim>\<open>sema_down\<close> does not have the lock it waits for yet.
\<close>

datatype claim = Creates tptr | IdleStart | Token lptr

fun idle_claim :: "thread_func \<Rightarrow> claim list" where
  "idle_claim (Idle x) = [IdleStart]"
| "idle_claim Func = []"

fun claims :: "call list \<Rightarrow> claim list" where
  "claims [] = []"
| "claims (C_thread_create t nm pri f # cs) = idle_claim f @ claims cs"
| "claims (C_create_tail t f # cs) = Creates t # idle_claim f @ claims cs"
| "claims (C_kernel_thread f # cs) = idle_claim f @ claims cs"
| "claims (C_sema_up (LockSema l) # cs) = Token l # claims cs"
| "claims (C_give_lock l t lv # cs) = Token l # claims cs"
| "claims (C_sema_loop (LockSema l) lv # cs) = remove1 (Token l) (claims cs)"
| "claims (_ # cs) = claims cs"

fun idle_func_ok :: "thread_func \<Rightarrow> bool" where
  "idle_func_ok (Idle (Sema n)) = True"
| "idle_func_ok (Idle _) = False"
| "idle_func_ok Func = True"

text \<open>The shape of the stack of pending calls of thread \<^term>\<open>u\<close>.\<close>

fun wf_stack :: "tptr \<Rightarrow> call list \<Rightarrow> bool" where
  "wf_stack u [] = True"
| "wf_stack u (C_thread_create t nm pri f # cs) = (idle_func_ok f \<and> wf_stack u cs)"
| "wf_stack u (C_create_tail t f # cs) = (idle_func_ok f \<and> wf_stack u cs)"
| "wf_stack u (C_kernel_thread f # cs) = (idle_func_ok f \<and> cs = [])"
| "wf_stack u (C_sema_down (LockSema l) # cs) = False"
| "wf_stack u (C_sema_down (WaiterSema w) # cs) = (w = u \<and> wf_stack u cs)"
| "wf_stack u (C_sema_loop (WaiterSema w) lv # cs) = (w = u \<and> wf_stack u cs)"
| "wf_stack u (C_sema_loop (LockSema l) lv # cs) = ((\<exists>t lv'. cs \<noteq> [] \<and> hd cs = C_give_lock l t lv') \<and> wf_stack u cs)"
| "wf_stack u (C_sema_try_down (LockSema l) # cs) = False"
| "wf_stack u (C_give_lock l t lv # cs) = (t = u \<and> wf_stack u cs)"
| "wf_stack u (_ # cs) = wf_stack u cs"

text \<open>The calls of the idle thread.\<close>

fun idle_call :: "call \<Rightarrow> bool" where
  "idle_call (C_intr_set_level lv) = True"
| "idle_call (C_sema_up (Sema n)) = True"
| "idle_call (C_sema_pop (Sema n)) = True"
| "idle_call C_sti_hlt = True"
| "idle_call C_idle_loop = True"
| "idle_call _ = False"

text \<open>A thread that has been created and not been started.\<close>

definition limbo :: "kstate \<Rightarrow> tptr \<Rightarrow> bool" where
  "limbo s t \<longleftrightarrow> is_thread s t \<and> status (threads s t) = THREAD_BLOCKED \<and> t \<noteq> running s \<and> t \<noteq> idle_thread s
     \<and> (\<forall>q. t \<notin> set (pl_list s q)) \<and> t \<notin> set (sleeping_list s)"

fun claim_ok :: "kstate \<Rightarrow> claim \<Rightarrow> bool" where
  "claim_ok s (Creates t) = limbo s t"
| "claim_ok s IdleStart = (idle_thread s = NULL)"
| "claim_ok s (Token l) = (holder s l = NULL \<and> sema_value (semas s (LockSema l)) = 0)"

definition stack_ok :: "kstate \<Rightarrow> bool" where
  "stack_ok s \<longleftrightarrow> (\<forall>u. wf_stack u (stacks s u)) \<and> (\<forall>u. distinct (claims (stacks s u)))
     \<and> (\<forall>u v. u \<noteq> v \<longrightarrow> set (claims (stacks s u)) \<inter> set (claims (stacks s v)) = {})
     \<and> (\<forall>u. \<forall>r \<in> set (claims (stacks s u)). claim_ok s r)
     \<and> (idle_thread s \<noteq> NULL \<longrightarrow> (\<forall>c \<in> set (stacks s (idle_thread s)). idle_call c))"

definition lock_ok :: "kstate \<Rightarrow> bool" where
  "lock_ok s \<longleftrightarrow> (\<forall>l. sema_value (semas s (LockSema l)) \<le> 1
     \<and> (sema_value (semas s (LockSema l)) \<noteq> 0 \<longrightarrow> holder s l = NULL))"

definition base :: "int \<Rightarrow> kstate \<Rightarrow> bool" where
  "base d s \<longleftrightarrow> linked_ok s \<and> sorted_ok s \<and> idle_out s \<and> waiter_ok s \<and> deadline_ok d s \<and> stack_ok s \<and> lock_ok s"

definition inv :: "kstate \<Rightarrow> bool" where
  "inv s \<longleftrightarrow> base (ticks s) s \<and> one_running s"

text \<open>The running thread has the highest priority, as far as threads that are ready are concerned.\<close>

definition top_ok :: "kstate \<Rightarrow> bool" where
  "top_ok s \<longleftrightarrow> (\<forall>u \<in> set (ready_list s). priority (threads s u) \<le> priority (threads s (running s)))
     \<and> (running s = idle_thread s \<longrightarrow> ready_list s = [])"

section \<open>States that are alike\<close>

text \<open>The invariant reads only some fields of the state and of the thread structures.\<close>

definition view :: "thread \<Rightarrow> thread_status \<times> int \<times> plist option \<times> int \<times> int \<times> u32" where
  "view th = (status th, priority th, thread_pl th, start th, sleep th, magic th)"

definition alike :: "kstate \<Rightarrow> kstate \<Rightarrow> bool" where
  "alike s s' \<longleftrightarrow> running s' = running s \<and> idle_thread s' = idle_thread s \<and> pl_list s' = pl_list s
     \<and> sleeping_list s' = sleeping_list s \<and> stacks s' = stacks s \<and> holder s' = holder s
     \<and> (\<forall>x. sema_value (semas s' x) = sema_value (semas s x)) \<and> ticks s' = ticks s
     \<and> (\<forall>t. view (threads s' t) = view (threads s t))"

lemma alike_refl [simp]: "alike s s"
  by (simp add: alike_def)

lemma alike_trans: "alike s s1 \<Longrightarrow> alike s1 s2 \<Longrightarrow> alike s s2"
  by (simp add: alike_def)

lemma alike_thread:
  assumes "alike s s'"
  shows "is_thread s' t = is_thread s t" "status (threads s' t) = status (threads s t)" "priority (threads s' t) = priority (threads s t)"
    "thread_pl (threads s' t) = thread_pl (threads s t)" "start (threads s' t) = start (threads s t)" "sleep (threads s' t) = sleep (threads s t)"
  using assms by (simp_all add: alike_def view_def is_thread_def)

lemma alike_cmp: "alike s s' \<Longrightarrow> thread_cmp s' = thread_cmp s"
  by (simp add: thread_cmp_def fun_eq_iff alike_thread)

lemma alike_claim_ok: "alike s s' \<Longrightarrow> claim_ok s' = claim_ok s"
proof (rule ext)
  fix r assume a: "alike s s'"
  then show "claim_ok s' r = claim_ok s r"
    using alike_thread [OF a] by (cases r) (simp_all add: alike_def limbo_def)
qed

lemma alike_inv:
  assumes "alike s s'"
  shows "base d s' = base d s" "one_running s' = one_running s" "none_running s' = none_running s" "inv s' = inv s"
    "top_ok s' = top_ok s"
proof -
  have r: "ready_list t = pl_list t ReadyList" for t by (simp add: pl_list_def)
  have b: "base d s' = base d s" for d
    using assms alike_thread [OF assms] alike_cmp [OF assms] alike_claim_ok [OF assms]
    unfolding base_def linked_ok_def sorted_ok_def idle_out_def waiter_ok_def deadline_ok_def stack_ok_def lock_ok_def
    by (simp add: alike_def)
  then show "base d s' = base d s" .
  show o: "one_running s' = one_running s" "none_running s' = none_running s" "top_ok s' = top_ok s"
    using assms alike_thread [OF assms] by (simp_all add: one_running_def none_running_def top_ok_def r alike_def)
  show "inv s' = inv s" using b o(1) assms by (simp add: inv_def alike_def)
qed

lemma pl_list_set [simp]:
  "pl_list (set_pl_list q xs s) = (pl_list s)(q := xs)"
  by (rule ext) (auto simp: set_pl_list_def pl_list_def split: plist.splits)

lemma set_pl_list_sel [simp]:
  "threads (set_pl_list q xs s) = threads s"
  "stacks (set_pl_list q xs s) = stacks s"
  "running (set_pl_list q xs s) = running s"
  "idle_thread (set_pl_list q xs s) = idle_thread s"
  "initial_thread (set_pl_list q xs s) = initial_thread s"
  "all_list (set_pl_list q xs s) = all_list s"
  "sleeping_list (set_pl_list q xs s) = sleeping_list s"
  "sema_value (semas (set_pl_list q xs s) x) = sema_value (semas s x)"
  "holder (set_pl_list q xs s) = holder s"
  "conds (set_pl_list q xs s) = conds s"
  "slock_i (set_pl_list q xs s) = slock_i s"
  "intr (set_pl_list q xs s) = intr s"
  "in_external_intr (set_pl_list q xs s) = in_external_intr s"
  "thread_mlfqs (set_pl_list q xs s) = thread_mlfqs s"
  "ticks (set_pl_list q xs s) = ticks s"
  "is_thread (set_pl_list q xs s) t = is_thread s t"
  by (auto simp: set_pl_list_def is_thread_def split: plist.splits)

lemma pl_list_field [simp]:
  "pl_list (upd_thread t f s) = pl_list s" "pl_list (push cs s) = pl_list s"
  "pl_list (s\<lparr>running := r\<rparr>) = pl_list s" "pl_list (s\<lparr>thread_ticks := n\<rparr>) = pl_list s"
  "pl_list (s\<lparr>ready_list := xs\<rparr>) = (pl_list s)(ReadyList := xs)" "pl_list (s\<lparr>intr := lv\<rparr>) = pl_list s"
  "pl_list (s\<lparr>sleeping_list := xs\<rparr>) = pl_list s" "pl_list (s\<lparr>all_list := xs\<rparr>) = pl_list s"
  "pl_list (s\<lparr>stacks := st\<rparr>) = pl_list s" "pl_list (s\<lparr>idle_thread := r\<rparr>) = pl_list s"
  "pl_list (s\<lparr>holder := hs\<rparr>) = pl_list s" "pl_list (s\<lparr>conds := cds\<rparr>) = pl_list s"
  "pl_list (s\<lparr>slock_i := is\<rparr>) = pl_list s" "pl_list (s\<lparr>junk := js\<rparr>) = pl_list s"
  "pl_list (s\<lparr>in_external_intr := b\<rparr>) = pl_list s" "pl_list (s\<lparr>yield_on_return := b\<rparr>) = pl_list s"
  "pl_list (s\<lparr>ticks := i\<rparr>) = pl_list s" "pl_list (s\<lparr>threads := ths\<rparr>) = pl_list s" "pl_list (s\<lparr>next_tid := i\<rparr>) = pl_list s"
  "pl_list (s\<lparr>idle_ticks := i\<rparr>) = pl_list s" "pl_list (s\<lparr>kernel_ticks := i\<rparr>) = pl_list s" "pl_list (s\<lparr>user_ticks := i\<rparr>) = pl_list s"
  "pl_list (s\<lparr>load_avg := a\<rparr>) = pl_list s" "pl_list (s\<lparr>load_avg_coefficient := a\<rparr>) = pl_list s"
  by (auto simp: pl_list_def fun_eq_iff split: plist.splits)

named_theorems alike_intros \<open>updates that the invariant does not see\<close>

lemma alike_updates [alike_intros, simp]:
  "(\<And>th. view (f th) = view th) \<Longrightarrow> alike s (upd_thread t f s)"
  "alike s (s\<lparr>intr := lv\<rparr>)" "alike s (s\<lparr>in_external_intr := b\<rparr>)" "alike s (s\<lparr>yield_on_return := b\<rparr>)"
  "alike s (s\<lparr>thread_ticks := n\<rparr>)" "alike s (s\<lparr>all_list := xs\<rparr>)" "alike s (s\<lparr>conds := cds\<rparr>)" "alike s (s\<lparr>slock_i := is\<rparr>)"
  "alike s (s\<lparr>junk := js\<rparr>)" "alike s (s\<lparr>next_tid := i\<rparr>)" "alike s (s\<lparr>idle_ticks := i\<rparr>)" "alike s (s\<lparr>kernel_ticks := i\<rparr>)"
  "alike s (s\<lparr>user_ticks := i\<rparr>)" "alike s (s\<lparr>load_avg := a\<rparr>)" "alike s (s\<lparr>load_avg_coefficient := a\<rparr>)"
  by (simp_all add: alike_def)

lemma intr_set_level_alike: "intr_set_level lv s = Some s' \<Longrightarrow> alike s s' \<and> s' = s\<lparr>intr := lv\<rparr>"
  by (cases lv) (auto simp: intr_set_level_def intr_enable_def intr_disable_def panic_simps)

section \<open>Entering and leaving lists\<close>

lemma unlinked:
  assumes "linked_ok s" and "\<not> elem_linked s t"
  shows "t \<notin> set (pl_list s q)" and "t \<notin> set (sleeping_list s)"
proof -
  show "t \<notin> set (pl_list s q)"
  proof
    assume "t \<in> set (pl_list s q)"
    moreover from this have "thread_pl (threads s t) = Some q" using assms(1) by (simp add: linked_ok_def)
    ultimately show False using assms(2) by (cases q) (auto simp: elem_linked_def pl_list_def)
  qed
  show "t \<notin> set (sleeping_list s)" using assms(2) by (simp add: elem_linked_def)
qed

lemma in_order_cong:
  assumes "\<And>t. t \<in> set xs \<Longrightarrow> priority (threads s' t) = priority (threads s t)"
  shows "in_order (thread_cmp s') xs = in_order (thread_cmp s) xs"
  using assms by (induction xs) (auto simp: thread_cmp_def)

definition unclaimed :: "kstate \<Rightarrow> claim \<Rightarrow> bool" where
  "unclaimed s r \<longleftrightarrow> (\<forall>u. r \<notin> set (claims (stacks s u)))"

lemma stack_okD:
  assumes "stack_ok s"
  shows "wf_stack u (stacks s u)" "distinct (claims (stacks s u))" "u \<noteq> v \<Longrightarrow> set (claims (stacks s u)) \<inter> set (claims (stacks s v)) = {}"
    "r \<in> set (claims (stacks s u)) \<Longrightarrow> claim_ok s r"
    "idle_thread s \<noteq> NULL \<Longrightarrow> c \<in> set (stacks s (idle_thread s)) \<Longrightarrow> idle_call c"
  using assms unfolding stack_ok_def by blast+

lemma baseD:
  assumes "base d s"
  shows "linked_ok s" "sorted_ok s" "idle_out s" "waiter_ok s" "deadline_ok d s" "stack_ok s" "lock_ok s"
  using assms by (simp_all add: base_def)

lemma not_limbo_unclaimed: "base d s \<Longrightarrow> \<not> limbo s t \<Longrightarrow> unclaimed s (Creates t)"
  using stack_okD(4) [OF baseD(6)] unfolding unclaimed_def by fastforce

text \<open>The stacks stay as they are and so does what is claimed.\<close>

lemma stack_ok_keep:
  assumes "stack_ok s" and "stacks s' = stacks s" and "idle_thread s' = idle_thread s"
    and "\<And>r. \<not> unclaimed s r \<Longrightarrow> claim_ok s r \<Longrightarrow> claim_ok s' r"
  shows "stack_ok s'"
  using assms unfolding stack_ok_def unclaimed_def by metis

text \<open>Ordered insertion into a list, with the change of status that goes with it.\<close>

lemma enter_list:
  assumes ins: "pl_insert q t s = Some s1" and b: "base d s" and t: "is_thread s t" "t \<noteq> idle_thread s"
    "status (threads s t) \<noteq> THREAD_READY" "unclaimed s (Creates t)"
    and w: "\<forall>w. q = WaitersOf (WaiterSema w) \<longrightarrow> w = t"
    and s2: "s2 = upd_thread t (\<lambda>th. th\<lparr>status := list_status q\<rparr>) s1"
  shows "base d s2" and "running s2 = running s" "idle_thread s2 = idle_thread s" "stacks s2 = stacks s" "holder s2 = holder s"
    "ticks s2 = ticks s" "sleeping_list s2 = sleeping_list s" "intr s2 = intr s" "is_thread s2 u = is_thread s u"
    "status (threads s2 u) = (if u = t then list_status q else status (threads s u))"
    "priority (threads s2 u) = priority (threads s u)" "sema_value (semas s2 x) = sema_value (semas s x)"
    "pl_list s2 = (pl_list s)(q := ins_ord (thread_cmp s) t (pl_list s q))"
proof -
  have g: "\<not> elem_linked s t" and s1: "s1 = upd_thread t (\<lambda>th. th\<lparr>thread_pl := Some q\<rparr>)
             (set_pl_list q (ins_ord (thread_cmp s) t (pl_list s q)) s)"
    using ins by (auto simp: pl_insert_def ASSERT_bind_Some_iff)
  note un = unlinked [OF baseD(1) [OF b] g]
  show v: "pl_list s2 = (pl_list s)(q := ins_ord (thread_cmp s) t (pl_list s q))" "sleeping_list s2 = sleeping_list s"
    "idle_thread s2 = idle_thread s" "is_thread s2 u = is_thread s u"
    "status (threads s2 u) = (if u = t then list_status q else status (threads s u))"
    "priority (threads s2 u) = priority (threads s u)" "running s2 = running s" "stacks s2 = stacks s" "holder s2 = holder s"
    "ticks s2 = ticks s" "sema_value (semas s2 x) = sema_value (semas s x)" "intr s2 = intr s" for u x
    by (simp_all add: s2 s1)
  have v': "thread_pl (threads s2 u) = (if u = t then Some q else thread_pl (threads s u))"
    "start (threads s2 u) = start (threads s u)" "sleep (threads s2 u) = sleep (threads s u)" for u
    by (simp_all add: s2 s1)
  have "in_order (thread_cmp s2) xs = in_order (thread_cmp s) xs" for xs
    by (rule in_order_cong) (simp add: v)
  then have "sorted_ok s2" using baseD(2) [OF b] by (simp add: sorted_ok_def v pri.in_order_ins_ord)
  moreover have "idle_out s2" using baseD(3) [OF b] t(2) by (auto simp: idle_out_def v)
  moreover have "linked_ok s2" using baseD(1) [OF b] t un by (auto simp: linked_ok_def v v')
  moreover have "waiter_ok s2" using baseD(4) [OF b] w by (auto simp: waiter_ok_def v)
  moreover have "deadline_ok d s2" using baseD(5) [OF b] by (simp add: deadline_ok_def v v')
  moreover have "lock_ok s2" using baseD(7) [OF b] by (simp add: lock_ok_def v)
  moreover have "stack_ok s2"
  proof (rule stack_ok_keep [OF baseD(6) [OF b]])
    fix r assume r: "\<not> unclaimed s r" "claim_ok s r"
    then have "r \<noteq> Creates t" using t(4) by auto
    then show "claim_ok s2 r" using r(2) by (cases r) (auto simp: limbo_def v)
  qed (simp_all add: v)
  ultimately show "base d s2" by (simp add: base_def)
qed

text \<open>Leaving a list: the thread stays blocked until it enters another one.\<close>

lemma subseq_sorted_wrt: "subseq xs ys \<Longrightarrow> sorted_wrt P ys \<Longrightarrow> sorted_wrt P xs"
  by (induction rule: list_emb.induct) (auto dest: list_emb_set)

lemma subseq_distinct: "subseq xs ys \<Longrightarrow> distinct ys \<Longrightarrow> distinct xs"
  by (induction rule: list_emb.induct) (auto dest: list_emb_set)

lemma subseq_remove1: "subseq (remove1 t xs) xs"
  by (induction xs) auto

lemma shrink:
  assumes b: "base d s" and th: "threads s' = threads s" and st: "stacks s' = stacks s" "idle_thread s' = idle_thread s"
      "running s' = running s" "holder s' = holder s" and v: "\<And>l. sema_value (semas s' (LockSema l)) = sema_value (semas s (LockSema l))"
    and r: "pl_list s' ReadyList = pl_list s ReadyList" and q: "\<And>q. subseq (pl_list s' q) (pl_list s q)"
    and sl: "subseq (sleeping_list s') (sleeping_list s)"
  shows "base d s'"
proof -
  have it: "is_thread s' = is_thread s" by (simp add: is_thread_def fun_eq_iff th)
  have cmp: "thread_cmp s' = thread_cmp s" by (simp add: thread_cmp_def fun_eq_iff th)
  have sub: "t \<in> set (pl_list s' q) \<Longrightarrow> t \<in> set (pl_list s q)" "t \<in> set (sleeping_list s') \<Longrightarrow> t \<in> set (sleeping_list s)" for t q
    using q sl by (auto dest: list_emb_set)
  have dq: "distinct (pl_list s' q)" "in_order (thread_cmp s') (pl_list s' q)" for q
    using baseD(1,2) [OF b] q [of q] by (auto simp: linked_ok_def sorted_ok_def cmp intro: subseq_distinct subseq_sorted_wrt)
  have ds: "distinct (sleeping_list s')" using baseD(1) [OF b] sl by (auto simp: linked_ok_def intro: subseq_distinct)
  note l = baseD(1) [OF b, unfolded linked_ok_def]
  have "linked_ok s'" unfolding linked_ok_def th it r st(2) using l dq(1) ds sub by blast
  moreover have "sorted_ok s'" using dq(2) by (simp add: sorted_ok_def)
  moreover have "idle_out s'" using baseD(3) [OF b] sub unfolding idle_out_def st th it by blast
  moreover have "waiter_ok s'" using baseD(4) [OF b] sub unfolding waiter_ok_def by blast
  moreover have "deadline_ok d s'" using baseD(5) [OF b] sub(2) unfolding deadline_ok_def th by blast
  moreover have "lock_ok s'" using baseD(7) [OF b] unfolding lock_ok_def st v .
  moreover have "stack_ok s'"
  proof (rule stack_ok_keep [OF baseD(6) [OF b] st(1,2)])
    fix r assume c: "claim_ok s r"
    have "limbo s t \<Longrightarrow> limbo s' t" for t unfolding limbo_def th it st using sub by blast
    then show "claim_ok s' r" using c by (cases r) (simp_all add: st v)
  qed
  ultimately show ?thesis by (simp add: base_def)
qed

lemma leave_waiters:
  assumes b: "base d s" and t: "waiters (semas s x) = t # ts"
  shows "base d (upd_sema x (\<lambda>m. m\<lparr>waiters := ts\<rparr>) s)"
proof (rule shrink [OF b])
  show "subseq (pl_list (upd_sema x (\<lambda>m. m\<lparr>waiters := ts\<rparr>) s) q) (pl_list s q)" for q
    using t by (auto simp: pl_list_def split: plist.splits)
qed (simp_all add: pl_list_def)

lemma leave_sleeping:
  assumes b: "base d s"
  shows "base d (s\<lparr>sleeping_list := remove1 t (sleeping_list s)\<rparr>)"
  by (rule shrink [OF b]) (simp_all add: subseq_remove1)

text \<open>The local semaphore of \<^verbatim>\<open>cond_wait\<close>.\<close>

lemma reinit_waiter:
  assumes b: "base d s"
  shows "base d (sema_init (WaiterSema w) v s)"
proof (rule shrink [OF b])
  show "subseq (pl_list (sema_init (WaiterSema w) v s) q) (pl_list s q)" for q
    by (auto simp: pl_list_def sema_init_def split: plist.splits)
qed (simp_all add: pl_list_def sema_init_def)

section \<open>Changing a priority\<close>

definition only_priority :: "(thread \<Rightarrow> thread) \<Rightarrow> bool" where
  "only_priority f \<longleftrightarrow> (\<forall>th. status (f th) = status th \<and> thread_pl (f th) = thread_pl th \<and> start (f th) = start th
     \<and> sleep (f th) = sleep th \<and> magic (f th) = magic th)"

lemma only_priority_sel:
  assumes "only_priority f"
  shows "is_thread (upd_thread t f s) u = is_thread s u" "status (threads (upd_thread t f s) u) = status (threads s u)"
    "thread_pl (threads (upd_thread t f s) u) = thread_pl (threads s u)" "start (threads (upd_thread t f s) u) = start (threads s u)"
    "sleep (threads (upd_thread t f s) u) = sleep (threads s u)" "u \<noteq> t \<Longrightarrow> threads (upd_thread t f s) u = threads s u"
  using assms by (simp_all add: only_priority_def is_thread_def)

text \<open>Lists with the same members, in order by the new priorities.\<close>

lemma reorder:
  assumes b: "base d s" and th: "\<And>u. is_thread s' u = is_thread s u" "\<And>u. status (threads s' u) = status (threads s u)"
      "\<And>u. thread_pl (threads s' u) = thread_pl (threads s u)" "\<And>u. start (threads s' u) = start (threads s u)"
      "\<And>u. sleep (threads s' u) = sleep (threads s u)"
    and st: "stacks s' = stacks s" "idle_thread s' = idle_thread s" "running s' = running s" "holder s' = holder s"
      "\<And>x. sema_value (semas s' x) = sema_value (semas s x)" "sleeping_list s' = sleeping_list s"
    and q: "\<And>q. set (pl_list s' q) = set (pl_list s q)" "\<And>q. distinct (pl_list s' q)" "\<And>q. in_order (thread_cmp s') (pl_list s' q)"
  shows "base d s'"
proof -
  have "linked_ok s'" using baseD(1) [OF b] unfolding linked_ok_def th st q(1) using q(2) by blast
  moreover have "sorted_ok s'" using q(3) by (simp add: sorted_ok_def)
  moreover have "idle_out s'" "waiter_ok s'" "deadline_ok d s'" "lock_ok s'"
    using baseD(3,4,5,7) [OF b] unfolding idle_out_def waiter_ok_def deadline_ok_def lock_ok_def th st q(1) by blast+
  moreover have "stack_ok s'"
  proof (rule stack_ok_keep [OF baseD(6) [OF b] st(1,2)])
    fix r assume "claim_ok s r"
    then show "claim_ok s' r" by (cases r) (simp_all add: limbo_def th st q(1))
  qed
  ultimately show ?thesis by (simp add: base_def)
qed

lemma reprioritize_free:
  assumes b: "base d s" and f: "only_priority f" and t: "\<And>q. t \<notin> set (pl_list s q)"
  shows "base d (upd_thread t f s)"
proof (rule reorder [OF b])
  show "in_order (thread_cmp (upd_thread t f s)) (pl_list (upd_thread t f s) q)" for q
    using baseD(2) [OF b] t [of q] in_order_cong [of "pl_list s q" "upd_thread t f s" s]
    by (force simp: sorted_ok_def)
  show "distinct (pl_list (upd_thread t f s) q)" for q using baseD(1) [OF b] by (simp add: linked_ok_def)
qed (simp_all add: only_priority_sel [OF f] del: upd_thread_sel(1))

lemma reprioritize_linked:
  assumes b: "base d s" and f: "only_priority f" and u: "pl_update t (upd_thread t f s) = Some s'"
  shows "base d s'" and "running s' = running s" "stacks s' = stacks s" "holder s' = holder s" "ticks s' = ticks s"
    "sleeping_list s' = sleeping_list s" "sema_value (semas s' x) = sema_value (semas s x)" "idle_thread s' = idle_thread s"
    "is_thread s' v = is_thread s v" "status (threads s' v) = status (threads s v)" "threads s' = threads (upd_thread t f s)"
    "thread_mlfqs s' = thread_mlfqs s" "in_external_intr s' = in_external_intr s"
proof -
  let ?s = "upd_thread t f s"
  obtain q where q: "thread_pl (threads s t) = Some q" "t \<in> set (pl_list s q)"
    and s': "s' = set_pl_list q (ins_ord (thread_cmp ?s) t (remove1 t (pl_list s q))) ?s"
    using u f by (auto simp: pl_update_def only_priority_def ASSERT_bind_Some_iff split: bind_splits)
  note l = baseD(1) [OF b, unfolded linked_ok_def]
  have dq: "distinct (pl_list s q)" using l by blast
  show frame: "running s' = running s" "stacks s' = stacks s" "holder s' = holder s" "ticks s' = ticks s"
    "sleeping_list s' = sleeping_list s" "sema_value (semas s' x) = sema_value (semas s x)" "idle_thread s' = idle_thread s"
    "is_thread s' v = is_thread s v" "status (threads s' v) = status (threads s v)" "threads s' = threads ?s"
    "thread_mlfqs s' = thread_mlfqs s" "in_external_intr s' = in_external_intr s" for x v
    using only_priority_sel [OF f] by (simp_all add: s' set_pl_list_sel)
  have cmp: "in_order (thread_cmp s') xs = in_order (thread_cmp s) xs" if "t \<notin> set xs" for xs
    by (rule in_order_cong) (use that frame(10) in \<open>auto simp: upd_thread_def\<close>)
  have cmp': "thread_cmp s' = thread_cmp ?s" by (simp add: thread_cmp_def fun_eq_iff frame(10))
  have "in_order (thread_cmp s') (remove1 t (pl_list s q))"
    using cmp [of "remove1 t (pl_list s q)"] subseq_sorted_wrt [OF subseq_remove1 [of t "pl_list s q"]] baseD(2) [OF b] dq
    by (simp add: sorted_ok_def)
  then have o: "in_order (thread_cmp s') (pl_list s' q)" unfolding s' cmp' [unfolded s'] by (simp add: pri.in_order_ins_ord)
  have other: "t \<notin> set (pl_list s q')" if "q' \<noteq> q" for q' using l q(1) that by auto
  show "base d s'"
  proof (rule reorder [OF b])
    show "in_order (thread_cmp s') (pl_list s' q')" for q'
      using o cmp [OF other, of q'] baseD(2) [OF b] by (cases "q' = q") (simp_all add: s' sorted_ok_def)
    show "distinct (pl_list s' q')" "set (pl_list s' q') = set (pl_list s q')" for q'
      using l q(2) dq by (auto simp: s' insert_absorb)
  qed (use frame only_priority_sel [OF f] in \<open>simp_all\<close>)
qed

section \<open>Pending calls\<close>

text \<open>Calls that claim nothing.\<close>

definition plain :: "tptr \<Rightarrow> call \<Rightarrow> bool" where
  "plain u c \<longleftrightarrow> (\<forall>cs. claims (c # cs) = claims cs \<and> wf_stack u (c # cs) = wf_stack u cs)"

lemma plain_append:
  "\<forall>c \<in> set cs. plain u c \<Longrightarrow> claims (cs @ st) = claims st \<and> wf_stack u (cs @ st) = wf_stack u st"
  by (induction cs) (simp_all add: plain_def)

lemma plain_calls [simp]:
  "plain u (C_intr_set_level lv)" "plain u C_not_reached" "plain u C_thread_yield" "plain u C_thread_exit"
  "plain u (C_thread_set_priority p)" "plain u (C_thread_set_nice nc)" "plain u (C_thread_create t nm p Func)"
  "plain u (C_allocate_tid t)" "plain u C_idle_loop" "plain u C_sti_hlt" "plain u (C_timer_sleep i)"
  "plain u (C_sema_down (Sema n))" "plain u (C_sema_down (WaiterSema u))" "plain u (C_sema_loop (Sema n) lv)" "plain u (C_sema_loop (WaiterSema u) lv)"
  "plain u (C_sema_up (Sema n))" "plain u (C_sema_up (WaiterSema w))" "plain u (C_sema_pop x)" "plain u (C_sema_try_down (Sema n))"
  "plain u (C_lock_acquire l)" "plain u (C_lock_try_acquire l)" "plain u (C_lock_release l)" "plain u (C_cond_wait c l)"
  "plain u (C_cond_signal c l)" "plain u (C_cond_broadcast c l)" "plain u (C_acquire_exclusive x')" "plain u (C_exclusive_loop x')"
  "plain u (C_acquire_shared x')" "plain u (C_shared_loop x')" "plain u (C_release_shared x')" "plain u (C_shared_drop x')"
  "plain u (C_release_exclusive x')" "plain u (C_exclusive_drop x')"
  by (simp_all add: plain_def)

text \<open>A change of the stack of one thread.\<close>

lemma stack_change:
  assumes b: "base d s" and wf: "wf_stack u cs" and di: "distinct (claims cs)"
    and new: "\<And>r. r \<in> set (claims cs) \<Longrightarrow> r \<notin> set (claims (stacks s u)) \<Longrightarrow> unclaimed s r \<and> claim_ok s r"
    and id: "idle_thread s \<noteq> NULL \<Longrightarrow> u = idle_thread s \<Longrightarrow> \<forall>c \<in> set cs. idle_call c"
  shows "base d (s\<lparr>stacks := (stacks s)(u := cs)\<rparr>)"
proof -
  let ?s = "s\<lparr>stacks := (stacks s)(u := cs)\<rparr>"
  have ok: "claim_ok ?s r = claim_ok s r" for r by (cases r) (simp_all add: limbo_def)
  note so = stack_okD [OF baseD(6) [OF b]]
  have "stack_ok ?s"
    unfolding stack_ok_def ok
  proof (intro conjI allI impI ballI)
    fix v w :: tptr assume vw: "v \<noteq> w"
    have dis: "set (claims cs) \<inter> set (claims (stacks s w)) = {}" if "w \<noteq> u" for w
      using new so(3) [of u w] that unfolding unclaimed_def by blast
    show "set (claims (stacks ?s v)) \<inter> set (claims (stacks ?s w)) = {}"
      using vw dis [of w] dis [of v] so(3) [OF vw] by (auto simp: Int_commute)
  next
    fix v r assume "r \<in> set (claims (stacks ?s v))"
    then show "claim_ok s r" using new so(4) by (cases "v = u") auto
  next
    fix c assume "idle_thread ?s \<noteq> NULL" "c \<in> set (stacks ?s (idle_thread ?s))"
    then show "idle_call c" using id so(5) by (cases "u = idle_thread s") auto
  qed (use wf di so in auto)
  moreover have "in_order (thread_cmp ?s) xs = in_order (thread_cmp s) xs" for xs by (rule in_order_cong) simp
  ultimately show ?thesis
    using b by (simp add: base_def linked_ok_def sorted_ok_def idle_out_def waiter_ok_def deadline_ok_def lock_ok_def)
qed

lemma push_plain:
  assumes b: "base d s" and p: "\<forall>c \<in> set cs. plain (running s) c"
    and id: "running s = idle_thread s \<Longrightarrow> \<forall>c \<in> set cs. idle_call c"
  shows "base d (push cs s)"
  unfolding push_def
proof (rule stack_change [OF b])
  note so = stack_okD [OF baseD(6) [OF b]] and pa = plain_append [OF p, of "stacks s (running s)"]
  show "wf_stack (running s) (cs @ stacks s (running s))" "distinct (claims (cs @ stacks s (running s)))"
    using so(1,2) pa by simp_all
  show "\<forall>c \<in> set (cs @ stacks s (running s)). idle_call c" if "idle_thread s \<noteq> NULL" "running s = idle_thread s"
    using id that so(5) by auto
qed (use plain_append [OF p] in auto)

lemma one_running_stacks [simp]:
  "one_running (push cs s) = one_running s" "one_running (s\<lparr>stacks := st\<rparr>) = one_running s"
  "none_running (push cs s) = none_running s" "none_running (s\<lparr>stacks := st\<rparr>) = none_running s"
  by (simp_all add: one_running_def none_running_def)

text \<open>Taking the first call off the stack of the running thread.\<close>

definition popped :: "kstate \<Rightarrow> kstate" where
  "popped s = s\<lparr>stacks := (stacks s)(running s := tl (stacks s (running s)))\<rparr>"

lemma wf_stack_tl: "wf_stack u (c # cs) \<Longrightarrow> wf_stack u cs"
proof -
  have "c = C_kernel_thread f \<Longrightarrow> wf_stack u (c # cs) \<Longrightarrow> wf_stack u cs" for f by simp
  moreover have "(\<forall>f. c \<noteq> C_kernel_thread f) \<Longrightarrow> wf_stack u (c # cs) \<Longrightarrow> wf_stack u cs"
    by (cases "(u, c # cs)" rule: wf_stack.cases) auto
  ultimately show "wf_stack u (c # cs) \<Longrightarrow> wf_stack u cs" by blast
qed

lemma claims_tl:
  assumes "\<And>l lv. c \<noteq> C_sema_loop (LockSema l) lv"
  obtains xs where "claims (c # cs) = xs @ claims cs"
  using assms by (cases "c # cs" rule: claims.cases) auto

lemma pop_base:
  assumes b: "base d s" and c: "stacks s (running s) = c # cs" "\<And>l lv. c \<noteq> C_sema_loop (LockSema l) lv"
  shows "base d (popped s)"
  unfolding popped_def
proof (rule stack_change [OF b])
  note so = stack_okD(1,2) [OF baseD(6) [OF b], where u = "running s", unfolded c(1)]
  obtain xs where xs: "claims (c # cs) = xs @ claims cs" by (rule claims_tl [OF c(2)])
  show "wf_stack (running s) (tl (stacks s (running s)))" using wf_stack_tl so(1) c(1) by simp
  show "distinct (claims (tl (stacks s (running s))))" using so(2) xs c(1) by simp
  show "\<forall>c \<in> set (tl (stacks s (running s))). idle_call c" if "idle_thread s \<noteq> NULL" "running s = idle_thread s"
    using stack_okD(5) [OF baseD(6) [OF b] that(1)] c(1) that(2) by auto
  show "unclaimed s r \<and> claim_ok s r" if "r \<in> set (claims (tl (stacks s (running s))))" "r \<notin> set (claims (stacks s (running s)))" for r
    using that xs c(1) by auto
qed

lemma popped_sel [simp]:
  "threads (popped s) = threads s" "running (popped s) = running s" "idle_thread (popped s) = idle_thread s"
  "semas (popped s) = semas s" "holder (popped s) = holder s" "ticks (popped s) = ticks s" "pl_list (popped s) = pl_list s"
  "sleeping_list (popped s) = sleeping_list s" "ready_list (popped s) = ready_list s" "one_running (popped s) = one_running s"
  "is_thread (popped s) = is_thread s" "intr (popped s) = intr s"
  by (simp_all add: popped_def is_thread_def fun_eq_iff)

section \<open>Switching threads\<close>

definition next_of :: "kstate \<Rightarrow> tptr" where
  "next_of s = (case ready_list s of [] \<Rightarrow> idle_thread s | t # _ \<Rightarrow> t)"

text \<open>The thread that \<^verbatim>\<open>thread_schedule_tail\<close> destroys.\<close>

definition reaped :: "kstate \<Rightarrow> tptr \<Rightarrow> bool" where
  "reaped s u \<longleftrightarrow> u = running s \<and> u \<noteq> next_of s \<and> u \<noteq> NULL \<and> status (threads s u) = THREAD_DYING
     \<and> u \<noteq> initial_thread s"

lemma free_thread_sel [simp]:
  "threads (free_thread t s) = (threads s)(t := (threads s t)\<lparr>magic := 0xcccccccc\<rparr>)"
  "stacks (free_thread t s) = (stacks s)(t := [])"
  "running (free_thread t s) = running s" "idle_thread (free_thread t s) = idle_thread s"
  "initial_thread (free_thread t s) = initial_thread s" "sleeping_list (free_thread t s) = sleeping_list s"
  "pl_list (free_thread t s) = pl_list s" "semas (free_thread t s) = semas s" "holder (free_thread t s) = holder s"
  "conds (free_thread t s) = conds s" "slock_i (free_thread t s) = slock_i s" "intr (free_thread t s) = intr s"
  "thread_mlfqs (free_thread t s) = thread_mlfqs s" "in_external_intr (free_thread t s) = in_external_intr s"
  "all_list (free_thread t s) = all_list s" "ticks (free_thread t s) = ticks s"
  "is_thread (free_thread t s) u = (u \<noteq> t \<and> is_thread s u)"
  by (auto simp: free_thread_def is_thread_def THREAD_MAGIC_def pl_list_def fun_eq_iff split: plist.splits)

definition switched :: "kstate \<Rightarrow> kstate" where
  "switched s = upd_thread (next_of s)
     (\<lambda>th. th\<lparr>thread_pl := (if ready_list s = [] then thread_pl th else None), status := THREAD_RUNNING\<rparr>)
     (s\<lparr>ready_list := tl (ready_list s), running := next_of s, thread_ticks := 0\<rparr>)"

lemma switched_sel [simp]:
  "running (switched s) = next_of s" "intr (switched s) = intr s" "idle_thread (switched s) = idle_thread s"
  "pl_list (switched s) = (pl_list s)(ReadyList := tl (pl_list s ReadyList))" "sleeping_list (switched s) = sleeping_list s"
  "holder (switched s) = holder s" "ticks (switched s) = ticks s" "semas (switched s) = semas s" "stacks (switched s) = stacks s"
  "is_thread (switched s) u = is_thread s u"
  by (simp_all add: switched_def pl_list_def is_thread_def)

lemma switched_thread:
  "status (threads (switched s) u) = (if u = next_of s then THREAD_RUNNING else status (threads s u))"
  "priority (threads (switched s) u) = priority (threads s u)" "start (threads (switched s) u) = start (threads s u)"
  "sleep (threads (switched s) u) = sleep (threads s u)"
  "thread_pl (threads (switched s) u) = (if u = next_of s \<and> ready_list s \<noteq> [] then None else thread_pl (threads s u))"
  by (simp_all add: switched_def)

lemma schedule_eq:
  assumes "schedule s = Some s'"
  shows "is_thread s (next_of s)" and "intr s = INTR_OFF"
    and "status (threads s (running s)) \<noteq> THREAD_RUNNING"
    and "s' = (if reaped s (running s) then free_thread (running s) (switched s) else switched s)"
proof -
  obtain n s1 where n: "next_thread_to_run s = (n, s1)" by fastforce
  have ns: "n = next_of s" "s1 = upd_thread n (\<lambda>th. th\<lparr>thread_pl := (if ready_list s = [] then thread_pl th else None)\<rparr>)
      (s\<lparr>ready_list := tl (ready_list s)\<rparr>)"
    using n by (auto simp: next_thread_to_run_def next_of_def upd_thread_def split: list.splits)
  have g: "intr s1 = INTR_OFF" "status (threads s1 (running s)) \<noteq> THREAD_RUNNING" "is_thread s1 n"
    and r: "(if running s \<noteq> n then thread_schedule_tail (running s) (s1\<lparr>running := n\<rparr>)
             else thread_schedule_tail NULL s1) = Some s'"
    using assms n by (simp_all add: schedule_def Let_def ASSERT_bind_Some_iff)
  show "is_thread s (next_of s)" "intr s = INTR_OFF" "status (threads s (running s)) \<noteq> THREAD_RUNNING"
    using g by (simp_all add: ns split: if_splits)
  have sw: "switched s = (upd_thread n (\<lambda>th. th\<lparr>status := THREAD_RUNNING\<rparr>) (s1\<lparr>running := n\<rparr>))\<lparr>thread_ticks := 0\<rparr>"
    by (simp add: switched_def ns upd_thread_def)
  have same: "s1\<lparr>running := n\<rparr> = s1" if "running s = n" using that by (simp add: ns upd_thread_def)
  have st: "status (threads (switched s) (running s)) = status (threads s (running s))"
    "initial_thread (switched s) = initial_thread s" if "running s \<noteq> n"
    using that by (simp_all add: switched_def ns)
  show "s' = (if reaped s (running s) then free_thread (running s) (switched s) else switched s)"
  proof (cases "running s = n")
    case True
    have "switched s = (upd_thread n (\<lambda>th. th\<lparr>status := THREAD_RUNNING\<rparr>) s1)\<lparr>thread_ticks := 0\<rparr>"
      using sw same [OF True] by simp
    moreover have "running s1 = n" using True by (simp add: ns)
    ultimately have "s' = switched s" using r g(1) True by (simp add: thread_schedule_tail_def Let_def)
    then show ?thesis using True by (simp add: reaped_def ns)
  next
    case False
    have "thread_schedule_tail (running s) (s1\<lparr>running := n\<rparr>)
        = (if running s \<noteq> NULL \<and> status (threads (switched s) (running s)) = THREAD_DYING
              \<and> running s \<noteq> initial_thread (switched s)
           then Some (free_thread (running s) (switched s)) else Some (switched s))"
      using g(1) False unfolding sw by (simp add: thread_schedule_tail_def Let_def)
    then show ?thesis using r False st [OF False] by (auto simp: reaped_def ns(1) split: if_splits)
  qed
qed

lemma schedule_view:
  assumes "schedule s = Some s'"
  shows "running s' = next_of s" and "is_thread s (next_of s)" and "intr s = INTR_OFF" and "intr s' = INTR_OFF"
    and "pl_list s' = (pl_list s)(ReadyList := tl (pl_list s ReadyList))" and "sleeping_list s' = sleeping_list s"
    and "idle_thread s' = idle_thread s" and "holder s' = holder s" and "ticks s' = ticks s" and "semas s' = semas s"
    and "status (threads s' u) = (if u = next_of s then THREAD_RUNNING else status (threads s u))"
    and "thread_pl (threads s' u) = (if u = next_of s \<and> ready_list s \<noteq> [] then None else thread_pl (threads s u))"
    and "priority (threads s' u) = priority (threads s u)" and "start (threads s' u) = start (threads s u)"
    and "sleep (threads s' u) = sleep (threads s u)"
    and "is_thread s' u = (is_thread s u \<and> \<not> reaped s u)"
    and "stacks s' u = (if reaped s u then [] else stacks s u)"
proof -
  note e = schedule_eq [OF assms]
  show "is_thread s (next_of s)" "intr s = INTR_OFF" by (rule e)+
  have r: "reaped s u \<Longrightarrow> u = running s" for u by (simp add: reaped_def)
  have nr: "reaped s (running s) \<Longrightarrow> running s \<noteq> next_of s" by (simp add: reaped_def)
  show "running s' = next_of s" "intr s' = INTR_OFF" "pl_list s' = (pl_list s)(ReadyList := tl (pl_list s ReadyList))"
    "sleeping_list s' = sleeping_list s" "idle_thread s' = idle_thread s" "holder s' = holder s" "ticks s' = ticks s" "semas s' = semas s"
    using e(2) by (simp_all add: e(4))
  show "status (threads s' u) = (if u = next_of s then THREAD_RUNNING else status (threads s u))"
    "priority (threads s' u) = priority (threads s u)" "start (threads s' u) = start (threads s u)" "sleep (threads s' u) = sleep (threads s u)"
    using e(4) by (simp_all add: switched_thread split: if_splits)
  have "thread_pl (threads s' u) = thread_pl (threads (switched s) u)"
    using e(4) by (simp split: if_splits)
  then show "thread_pl (threads s' u) = (if u = next_of s \<and> ready_list s \<noteq> [] then None else thread_pl (threads s u))"
    unfolding switched_thread .
  show "is_thread s' u = (is_thread s u \<and> \<not> reaped s u)" "stacks s' u = (if reaped s u then [] else stacks s u)"
  proof -
    have "is_thread s' u = (is_thread s u \<and> \<not> reaped s u) \<and> stacks s' u = (if reaped s u then [] else stacks s u)"
    proof (cases "u = running s")
      case True
      then show ?thesis unfolding e(4) by simp
    next
      case False
      then have "\<not> reaped s u" using r by blast
      with False show ?thesis unfolding e(4) by simp
    qed
    then show "is_thread s' u = (is_thread s u \<and> \<not> reaped s u)" "stacks s' u = (if reaped s u then [] else stacks s u)" by simp_all
  qed
qed

lemma sorted_wrt_tail: "sorted_wrt P xs \<Longrightarrow> sorted_wrt P (tl xs)"
  by (cases xs) simp_all

lemma schedule_base:
  assumes sch: "schedule s = Some s'" and b: "base d s" and nr: "none_running s"
  shows "base d s'" and "one_running s'" and "top_ok s'"
proof -
  note v = schedule_view [OF sch] and l = baseD(1) [OF b, unfolded linked_ok_def] and so = stack_okD [OF baseD(6) [OF b]]
  let ?n = "next_of s"
  have rl: "ready_list t = pl_list t ReadyList" for t by (simp add: pl_list_def)
  have n: "ready_list s = [] \<and> ?n = idle_thread s \<or> (\<exists>ts. ready_list s = ?n # ts)" by (auto simp: next_of_def split: list.splits)
  have dying: "\<not> reaped s t" if "status (threads s t) \<noteq> THREAD_DYING" for t using that by (simp add: reaped_def)
  have sub: "t \<in> set (pl_list s' q) \<Longrightarrow> t \<in> set (pl_list s q) \<and> t \<noteq> ?n" for t q
  proof -
    assume t: "t \<in> set (pl_list s' q)"
    then have m: "t \<in> set (pl_list s q)" using v(5) by (cases "pl_list s q") (auto split: if_splits)
    moreover have "t \<noteq> ?n"
    proof (cases "q = ReadyList")
      case True
      then show ?thesis using t n l v(5) rl [of s] baseD(3) [OF b] m by (metis distinct.simps(2) fun_upd_same idle_out_def list.sel(3))
    next
      case False
      have "?n \<notin> set (pl_list s q)"
        using n l False rl [of s] baseD(3) [OF b] by (metis idle_out_def list.set_intros(1) option.inject)
      then show ?thesis using m by blast
    qed
    ultimately show "t \<in> set (pl_list s q) \<and> t \<noteq> ?n" ..
  qed
  have dq: "distinct (pl_list s' q)" for q using l v(5) by (auto simp: distinct_tl)
  have alive: "is_thread s' t" if "is_thread s t" "status (threads s t) \<noteq> THREAD_DYING" for t
    using v(16) dying that by simp
  have sl: "?n \<notin> set (sleeping_list s)"
    using n l rl [of s] baseD(3) [OF b] by (metis idle_out_def list.set_intros(1))
  have "linked_ok s'"
    unfolding linked_ok_def
  proof (intro conjI allI ballI impI)
    fix q t assume "t \<in> set (pl_list s' q)"
    then have t: "t \<in> set (pl_list s q)" "t \<noteq> ?n" using sub by blast+
    then have f: "is_thread s t" "status (threads s t) = list_status q" "thread_pl (threads s t) = Some q" using l by blast+
    show "is_thread s' t" using alive [OF f(1)] f(2) by simp
    show "status (threads s' t) = list_status q" "thread_pl (threads s' t) = Some q" using f(2,3) t(2) v(11,12) by simp_all
  next
    fix t assume "t \<in> set (sleeping_list s')"
    then have t: "t \<in> set (sleeping_list s)" "t \<noteq> ?n" using v(6) sl by auto
    then have f: "is_thread s t" "status (threads s t) = THREAD_BLOCKED" "\<And>q. t \<notin> set (pl_list s q)" using l by blast+
    show "is_thread s' t" using alive [OF f(1)] f(2) by simp
    show "status (threads s' t) = THREAD_BLOCKED" using f(2) t(2) v(11) by simp
    show "t \<notin> set (pl_list s' q)" for q using f(3) sub by blast
  next
    fix t assume "is_thread s' t \<and> status (threads s' t) = THREAD_READY"
    then have "is_thread s t" "status (threads s t) = THREAD_READY" "t \<noteq> ?n" using v(11,16) by (auto split: if_splits)
    then have "t \<in> set (pl_list s ReadyList) \<or> t = idle_thread s" using l by blast
    then show "t \<in> set (pl_list s' ReadyList) \<or> t = idle_thread s'"
      using n \<open>t \<noteq> ?n\<close> rl [of s] v(5,7) by auto
  qed (use dq l v(6) in auto)
  moreover have cmp: "in_order (thread_cmp s') xs = in_order (thread_cmp s) xs" for xs by (rule in_order_cong) (simp add: v(13))
  have "sorted_ok s'"
    using baseD(2) [OF b] sorted_wrt_tail unfolding sorted_ok_def cmp v(5) by auto
  moreover have "waiter_ok s'" "deadline_ok d s'" "lock_ok s'"
    using baseD(4,5,7) [OF b] sub unfolding waiter_ok_def deadline_ok_def lock_ok_def v(6-10,14,15) by blast+
  moreover have "idle_out s'"
    using baseD(3) [OF b] sub alive [of "idle_thread s"] v(11) [of "idle_thread s"] unfolding idle_out_def v(6,7)
    by (metis thread_status.distinct(5))
  moreover have "stack_ok s'"
  proof -
    have ok: "claim_ok s' r" if "claim_ok s r" for r
    proof -
      have "t \<noteq> ?n" if "limbo s t" for t using that n rl [of s] by (metis limbo_def list.set_intros(1))
      then have "limbo s t \<Longrightarrow> limbo s' t" for t
        using sub alive [of t] unfolding limbo_def v(1,6,7,11) by (metis thread_status.distinct(11))
      then show ?thesis using that by (cases r) (simp_all add: v(7-10))
    qed
    have cl: "set (claims (stacks s' u)) \<subseteq> set (claims (stacks s u))" for u by (simp add: v(17))
    show ?thesis
      unfolding stack_ok_def
    proof (intro conjI allI impI ballI)
      fix u show "wf_stack u (stacks s' u)" "distinct (claims (stacks s' u))" using so(1,2) by (simp_all add: v(17))
    next
      fix u v :: tptr assume "u \<noteq> v"
      then show "set (claims (stacks s' u)) \<inter> set (claims (stacks s' v)) = {}" using so(3) cl by blast
    next
      fix u r assume "r \<in> set (claims (stacks s' u))"
      then show "claim_ok s' r" using ok so(4) cl by blast
    next
      fix c assume "idle_thread s' \<noteq> NULL" "c \<in> set (stacks s' (idle_thread s'))"
      then show "idle_call c" using so(5) by (auto simp: v(7,17) split: if_splits)
    qed
  qed
  ultimately show "base d s'" by (simp add: base_def)
  show "one_running s'"
    using nr v(1,2,11,16) unfolding one_running_def none_running_def by (auto simp: reaped_def split: if_splits)
  show "top_ok s'"
    unfolding top_ok_def rl [of s'] v(1)
  proof (intro conjI ballI impI)
    fix u assume "u \<in> set (pl_list s' ReadyList)"
    then have u: "u \<in> set (tl (ready_list s))" using v(5) rl [of s] by simp
    then obtain ts where "ready_list s = ?n # ts" "u \<in> set ts" using n by auto
    then show "priority (threads s' u) \<le> priority (threads s' ?n)"
      using baseD(2) [OF b] rl [of s] v(13) unfolding sorted_ok_def by (metis not_less sorted_wrt.simps(2) thread_cmp_def)
  next
    assume "?n = idle_thread s'"
    then show "pl_list s' ReadyList = []" 
      using n rl [of s] baseD(3) [OF b, unfolded idle_out_def, THEN conjunct1, THEN spec [of _ ReadyList]] v(5,7) by auto
  qed
qed

end
