(* ===== verification/Sched_Ops.thy ===== *)
theory Sched_Ops
  imports Sched_Inv
begin

text \<open>
  The operations of the kernel keep the invariant of theory \<^verbatim>\<open>Sched_Inv\<close>: scheduler, sleeping threads, feedback queue,
  semaphores, locks, conditions, and the timer interrupt.
\<close>

section \<open>What an operation leaves alone\<close>

text \<open>
  A lock that is held stays with its holder, threads that sleep go on sleeping, and if another thread runs afterwards, it
  is one with the highest priority.
\<close>

definition keeps :: "kstate \<Rightarrow> kstate \<Rightarrow> bool" where
  "keeps s s' \<longleftrightarrow> (\<forall>l. holder s l \<noteq> NULL \<longrightarrow> holder s' l = holder s l) \<and> ticks s' = ticks s
     \<and> set (sleeping_list s) \<subseteq> set (sleeping_list s')"

definition after :: "kstate \<Rightarrow> kstate \<Rightarrow> bool" where
  "after s s' \<longleftrightarrow> inv s' \<and> keeps s s' \<and> (running s' = running s \<or> top_ok s')"

lemma keeps_refl [simp]: "keeps s s"
  by (simp add: keeps_def)

lemma keeps_trans: "keeps s s1 \<Longrightarrow> keeps s1 s2 \<Longrightarrow> keeps s s2"
  by (auto simp: keeps_def)

lemma keeps_alike: "alike s s' \<Longrightarrow> keeps s s'"
  by (simp add: keeps_def alike_def)

lemma after_trans: "after s s1 \<Longrightarrow> running s1 = running s \<Longrightarrow> after s1 s2 \<Longrightarrow> after s s2"
  by (auto simp: after_def intro: keeps_trans)

lemma after_keeps: "keeps s s1 \<Longrightarrow> running s1 = running s \<Longrightarrow> after s1 s2 \<Longrightarrow> after s s2"
  by (auto simp: after_def intro: keeps_trans)

lemma after_alike: "inv s \<Longrightarrow> alike s s' \<Longrightarrow> after s s'"
  using alike_inv(4) [of s s'] keeps_alike [of s s'] by (simp add: after_def alike_def)

lemma alike_then: "alike s s1 \<Longrightarrow> after s1 s2 \<Longrightarrow> after s s2"
  by (rule after_keeps [OF keeps_alike]) (simp_all add: alike_def)

lemma then_alike: "after s s1 \<Longrightarrow> alike s1 s2 \<Longrightarrow> after s s2"
  using alike_inv [of s1 s2] keeps_alike [of s1 s2] by (auto simp: after_def alike_def intro: keeps_trans)

lemma invD:
  assumes "inv s"
  shows "base (ticks s) s" "one_running s" "is_thread s (running s)" "status (threads s (running s)) = THREAD_RUNNING" "running s \<noteq> NULL"
  using assms by (simp_all add: inv_def one_running_def is_thread_def)

lemma thread_current_eq: "thread_current s = Some t \<Longrightarrow> t = running s"
  by (simp add: thread_current_def ASSERT_bind_Some_iff)

lemma thread_current_inv: "inv s \<Longrightarrow> thread_current s = Some (running s)"
  using invD(3,4) [of s] by (simp add: thread_current_def)

text \<open>The running thread is in no list and not about to be started.\<close>

lemma running_unlisted:
  assumes "inv s"
  shows "running s \<notin> set (pl_list s q)" "running s \<notin> set (sleeping_list s)" "unclaimed s (Creates (running s))"
proof -
  note l = baseD(1) [OF invD(1) [OF assms], unfolded linked_ok_def] and st = invD(4) [OF assms]
  show "running s \<notin> set (pl_list s q)" using l st by (metis list_status_simps(5))
  show "running s \<notin> set (sleeping_list s)" using l st by (metis thread_status.distinct(3))
  show "unclaimed s (Creates (running s))" by (rule not_limbo_unclaimed [OF invD(1) [OF assms]]) (simp add: limbo_def)
qed

section \<open>Switching\<close>

lemma switch_ok:
  assumes "schedule s1 = Some s'" and "base (ticks s) s1" and "none_running s1" and "keeps s s1"
  shows "after s s'"
proof -
  note b = schedule_base [OF assms(1-3)] and v = schedule_view [OF assms(1)]
  have "keeps s1 s'" by (simp add: keeps_def v(6,8,9))
  then have "keeps s s'" by (rule keeps_trans [OF assms(4)])
  moreover have "ticks s' = ticks s" using v(9) assms(4) by (simp add: keeps_def)
  ultimately show ?thesis using b by (simp add: after_def inv_def)
qed

text \<open>Only one thread was running, and it is not running any more.\<close>

lemma stop_running:
  assumes "one_running s" and "\<And>u. is_thread s' u = is_thread s u"
    and "\<And>u. u \<noteq> running s \<Longrightarrow> status (threads s' u) = status (threads s u)" and "status (threads s' (running s)) \<noteq> THREAD_RUNNING"
  shows "none_running s'"
  using assms unfolding one_running_def none_running_def by metis

text \<open>A thread in no list changes its status.\<close>

lemma restatus:
  assumes b: "base d s" and t: "\<And>q. t \<notin> set (pl_list s q)" "t \<notin> set (sleeping_list s)" "unclaimed s (Creates t)"
    and f: "\<And>th. status (f th) = v" "\<And>th. priority (f th) = priority th" "\<And>th. magic (f th) = magic th"
    and v: "v = THREAD_READY \<Longrightarrow> t = idle_thread s" "v = THREAD_DYING \<Longrightarrow> t \<noteq> idle_thread s"
  shows "base d (upd_thread t f s)"
proof -
  let ?s = "upd_thread t f s"
  have i: "is_thread ?s u = is_thread s u" for u using f(3) by (simp add: is_thread_def)
  have same: "threads ?s u = threads s u" if "u \<noteq> t" for u using that by simp
  have "linked_ok ?s"
    unfolding linked_ok_def
  proof (intro conjI allI ballI impI)
    fix q u assume "u \<in> set (pl_list ?s q)"
    then have "u \<in> set (pl_list s q)" "u \<noteq> t" using t(1) by auto
    then show "is_thread ?s u" "status (threads ?s u) = list_status q" "thread_pl (threads ?s u) = Some q"
      using baseD(1) [OF b] by (auto simp: linked_ok_def i)
  next
    fix u assume "u \<in> set (sleeping_list ?s)"
    then have "u \<in> set (sleeping_list s)" "u \<noteq> t" using t(2) by auto
    then show "is_thread ?s u" "status (threads ?s u) = THREAD_BLOCKED" "u \<notin> set (pl_list ?s q)" for q
      using baseD(1) [OF b] by (auto simp: linked_ok_def i)
  next
    fix u assume "is_thread ?s u \<and> status (threads ?s u) = THREAD_READY"
    then show "u \<in> set (pl_list ?s ReadyList) \<or> u = idle_thread ?s"
      using baseD(1) [OF b] v(1) f(1) by (cases "u = t") (auto simp: linked_ok_def i)
  qed (use baseD(1) [OF b] in \<open>auto simp: linked_ok_def\<close>)
  moreover have "in_order (thread_cmp ?s) xs = in_order (thread_cmp s) xs" for xs by (rule in_order_cong) (simp add: f(2))
  then have "sorted_ok ?s" using baseD(2) [OF b] by (simp add: sorted_ok_def)
  moreover have "idle_out ?s" using baseD(3) [OF b] v(2) f(1) by (auto simp: idle_out_def i)
  moreover have "waiter_ok ?s" "lock_ok ?s" "deadline_ok d ?s"
    using baseD(4,5,7) [OF b] t(2) by (auto simp: waiter_ok_def lock_ok_def deadline_ok_def f)
  moreover have "stack_ok ?s"
  proof (rule stack_ok_keep [OF baseD(6) [OF b]])
    fix r assume r: "\<not> unclaimed s r" "claim_ok s r"
    then have "r \<noteq> Creates t" using t(3) by auto
    then show "claim_ok ?s r" using r(2) by (cases r) (simp_all add: limbo_def i)
  qed simp_all
  ultimately show ?thesis by (simp add: base_def)
qed

section \<open>Yielding and blocking\<close>

text \<open>The running thread goes to a list.\<close>

lemma enter_running:
  assumes i: "inv s" and n: "running s \<noteq> idle_thread s" and p: "pl_insert q (running s) s = Some s1"
    and w: "\<forall>w. q = WaitersOf (WaiterSema w) \<longrightarrow> w = running s"
    and s2: "s2 = upd_thread (running s) (\<lambda>th. th\<lparr>status := list_status q\<rparr>) s1"
  shows "base (ticks s) s2" "none_running s2" "keeps s s2" "running s2 = running s" "idle_thread s2 = idle_thread s" "stacks s2 = stacks s"
proof -
  have st: "status (threads s (running s)) \<noteq> THREAD_READY" using invD(4) [OF i] by simp
  note e = enter_list [OF p invD(1) [OF i] invD(3) [OF i] n st running_unlisted(3) [OF i] w s2]
  show "base (ticks s) s2" "running s2 = running s" "idle_thread s2 = idle_thread s" "stacks s2 = stacks s" by (simp_all only: e)
  show "keeps s s2" using e(5-7) by (simp add: keeps_def)
  show "none_running s2" by (rule stop_running [OF invD(2) [OF i]]) (simp_all add: e(9,10))
qed

lemma thread_yield_ok:
  assumes i: "inv s" and y: "thread_yield s = Some s'"
  shows "after s s'"
proof -
  let ?c = "running s" and ?s0 = "s\<lparr>intr := INTR_OFF\<rparr>"
  have i0: "inv ?s0" using alike_inv(4) [of s ?s0] i by simp
  note u = running_unlisted [OF i0, simplified]
  show ?thesis
  proof (cases "?c = idle_thread s")
    case True
    define s2 where "s2 = upd_thread ?c (\<lambda>th. th\<lparr>status := THREAD_READY\<rparr>) ?s0"
    have sch: "schedule (push [C_intr_set_level (intr s)] s2) = Some s'"
      using y True by (auto simp: s2_def thread_yield_def thread_current_inv [OF i] intr_disable_def ASSERT_bind_Some_iff)
    have "base (ticks s) s2"
      unfolding s2_def by (rule restatus [where v = THREAD_READY]) (use invD(1) [OF i0] u True in simp_all)
    then have b: "base (ticks s) (push [C_intr_set_level (intr s)] s2)" by (rule push_plain) simp_all
    have "none_running s2" by (rule stop_running [OF invD(2) [OF i0]]) (simp_all add: s2_def)
    then show ?thesis by (intro switch_ok [OF sch b]) (simp_all add: keeps_def s2_def)
  next
    case False
    obtain s1 where s1: "pl_insert ReadyList ?c ?s0 = Some s1"
      and sch: "schedule (push [C_intr_set_level (intr s)] (upd_thread ?c (\<lambda>th. th\<lparr>status := THREAD_READY\<rparr>) s1)) = Some s'"
      using y False by (auto simp: thread_yield_def thread_current_inv [OF i] intr_disable_def ASSERT_bind_Some_iff split: bind_splits)
    define s2 where "s2 = upd_thread ?c (\<lambda>th. th\<lparr>status := THREAD_READY\<rparr>) s1"
    have e: "base (ticks s) s2" "none_running s2" "keeps s s2"
      using enter_running [OF i0, of ReadyList s1 s2] False s1 by (simp_all add: s2_def keeps_def)
    have "base (ticks s) (push [C_intr_set_level (intr s)] s2)" by (rule push_plain [OF e(1)]) simp_all
    then show ?thesis using switch_ok [OF sch [folded s2_def]] e by (simp add: keeps_def)
  qed
qed

lemma thread_block_schedule:
  "thread_block s = Some s' \<Longrightarrow> schedule (upd_thread (running s) (\<lambda>th. th\<lparr>status := THREAD_BLOCKED\<rparr>) s) = Some s'"
  by (auto simp: thread_block_def ASSERT_bind_Some_iff split: bind_splits dest!: thread_current_eq)

lemma pl_insert_push:
  assumes "pl_insert q t s = Some s1"
  shows "pl_insert q t (push cs s) = Some (push cs s1)"
proof -
  have g: "\<not> elem_linked s t" and s1: "s1 = upd_thread t (\<lambda>th. th\<lparr>thread_pl := Some q\<rparr>)
             (set_pl_list q (ins_ord (thread_cmp s) t (pl_list s q)) s)"
    using assms by (auto simp: pl_insert_def ASSERT_bind_Some_iff)
  have "thread_cmp (push cs s) = thread_cmp s" by (simp add: thread_cmp_def fun_eq_iff)
  moreover have "\<not> elem_linked (push cs s) t" using g by (simp add: elem_linked_def split: option.splits plist.splits)
  moreover have "upd_thread t f (set_pl_list q xs (push cs s)) = push cs (upd_thread t f (set_pl_list q xs s))" for f xs
    by (cases q) (simp_all add: set_pl_list_def upd_sema_def upd_thread_def push_def)
  ultimately show ?thesis by (simp add: pl_insert_def s1)
qed

text \<open>The running thread waits for a semaphore.\<close>

lemma block_on:
  assumes i: "inv s" and n: "running s \<noteq> idle_thread s" and b: "base (ticks s) (push cs s)"
    and p: "pl_insert (WaitersOf x) (running s) s = Some s1" and bl: "thread_block (push cs s1) = Some s'"
    and w: "\<forall>w. x = WaiterSema w \<longrightarrow> w = running s"
  shows "after s s'"
proof -
  have i': "inv (push cs s)" using b i by (simp add: inv_def)
  define s2 where "s2 = upd_thread (running s) (\<lambda>th. th\<lparr>status := THREAD_BLOCKED\<rparr>) (push cs s1)"
  have r: "running s1 = running s" using p by (auto simp: pl_insert_def ASSERT_bind_Some_iff)
  have e: "base (ticks s) s2" "none_running s2" "keeps (push cs s) s2"
    using enter_running [OF i', of "WaitersOf x" "push cs s1" s2] n pl_insert_push [OF p] w by (simp_all add: s2_def)
  moreover have "schedule s2 = Some s'" using thread_block_schedule [OF bl] r by (simp add: s2_def)
  moreover have "keeps s s2" using e(3) by (simp add: keeps_def)
  ultimately show ?thesis using switch_ok by blast
qed

text \<open>A blocked thread that is in no list becomes ready.\<close>

lemma make_ready:
  assumes i: "base d s" "one_running s" and t: "is_thread s t" "status (threads s t) = THREAD_BLOCKED" "t \<noteq> idle_thread s" "unclaimed s (Creates t)"
    and p: "pl_insert ReadyList t s = Some s1" and s2: "s2 = upd_thread t (\<lambda>th. th\<lparr>status := THREAD_READY\<rparr>) s1"
  shows "base d s2" "one_running s2" "running s2 = running s" "holder s2 = holder s" "ticks s2 = ticks s"
    "sleeping_list s2 = sleeping_list s" "stacks s2 = stacks s" "idle_thread s2 = idle_thread s"
proof -
  have st: "status (threads s t) \<noteq> THREAD_READY" using t(2) by simp
  have s2': "s2 = upd_thread t (\<lambda>th. th\<lparr>status := list_status ReadyList\<rparr>) s1" using s2 by simp
  have w: "\<forall>w. ReadyList = WaitersOf (WaiterSema w) \<longrightarrow> w = t" by simp
  note e = enter_list [OF p i(1) t(1,3) st t(4) w s2']
  show "base d s2" "running s2 = running s" "holder s2 = holder s" "ticks s2 = ticks s"
    "sleeping_list s2 = sleeping_list s" "stacks s2 = stacks s" "idle_thread s2 = idle_thread s" by (simp_all only: e)
  have o: "is_thread s (running s)" "status (threads s (running s)) = THREAD_RUNNING"
    "\<And>u. is_thread s u \<Longrightarrow> status (threads s u) = THREAD_RUNNING \<Longrightarrow> u = running s"
    using i(2) by (simp_all add: one_running_def)
  have ne: "t \<noteq> running s" using o(2) t(2) by (metis thread_status.distinct(3))
  show "one_running s2"
    unfolding one_running_def e(2,9,10) using o ne by (metis list_status_simps(5))
qed

lemma thread_unblock_ok:
  assumes i: "inv s" and t: "t \<noteq> idle_thread s" "unclaimed s (Creates t)" and u: "thread_unblock t s = Some s'"
  shows "after s s'"
proof -
  let ?s0 = "s\<lparr>intr := INTR_OFF\<rparr>"
  obtain s1 where g: "is_thread s t" "status (threads s t) = THREAD_BLOCKED" and s1: "pl_insert ReadyList t ?s0 = Some s1"
    and r: "\<exists>pri s2. s2 = upd_thread t (\<lambda>th. th\<lparr>status := THREAD_READY\<rparr>) s1
       \<and> (if pri < thread_list_top_pri s2 (ready_list s2) \<and> intr s \<noteq> INTR_OFF
          then thread_yield (push [C_intr_set_level (intr s)] s2) else intr_set_level (intr s) s2) = Some s'"
    using u unfolding thread_unblock_def intr_disable_def Let_def prod.case
    by (simp only: ASSERT_bind_Some_iff Option.bind_eq_Some_conv) (auto simp: ASSERT_Some)
  define s2 where "s2 = upd_thread t (\<lambda>th. th\<lparr>status := THREAD_READY\<rparr>) s1"
  have i0: "base (ticks s) ?s0" "one_running ?s0" using alike_inv(1,2) [of s ?s0] invD(1,2) [OF i] by simp_all
  have g0: "is_thread ?s0 t" "status (threads ?s0 t) = THREAD_BLOCKED" "t \<noteq> idle_thread ?s0" "unclaimed ?s0 (Creates t)"
    using g t by (simp_all add: unclaimed_def)
  have m: "base (ticks s) s2" "one_running s2" "running s2 = running s" "holder s2 = holder s" "ticks s2 = ticks s"
      "sleeping_list s2 = sleeping_list s"
    using make_ready [OF i0 g0 s1 s2_def] by simp_all
  have i2: "inv s2" using m by (simp add: inv_def)
  have k: "keeps s s2" using m by (simp add: keeps_def)
  show ?thesis
  proof (rule after_keeps [OF k m(3)])
    consider "thread_yield (push [C_intr_set_level (intr s)] s2) = Some s'" | "intr_set_level (intr s) s2 = Some s'"
      using r unfolding s2_def [symmetric] by (auto split: if_splits)
    then show "after s2 s'"
    proof cases
      case 1
      have "inv (push [C_intr_set_level (intr s)] s2)" using i2 push_plain [of _ s2] by (simp add: inv_def)
      from thread_yield_ok [OF this 1] show ?thesis by (rule after_keeps [rotated 2]) (simp_all add: keeps_def)
    next
      case 2
      then show ?thesis using after_alike [OF i2] intr_set_level_alike by blast
    qed
  qed
qed

section \<open>Sleeping, exiting and idling\<close>

lemma enter_sleeping:
  assumes b: "base d s" and t: "is_thread s t" "status (threads s t) = THREAD_BLOCKED" "t \<noteq> idle_thread s" "\<And>q. t \<notin> set (pl_list s q)"
      "t \<notin> set (sleeping_list s)" "unclaimed s (Creates t)" and dl: "d < start (threads s t) + max 1 (sleep (threads s t))"
  shows "base d (s\<lparr>sleeping_list := sleeping_list s @ [t]\<rparr>)"
proof -
  let ?s = "s\<lparr>sleeping_list := sleeping_list s @ [t]\<rparr>"
  have "linked_ok ?s" using baseD(1) [OF b] t unfolding linked_ok_def by auto
  moreover have "in_order (thread_cmp ?s) xs = in_order (thread_cmp s) xs" for xs by (rule in_order_cong) simp
  then have "sorted_ok ?s" using baseD(2) [OF b] by (simp add: sorted_ok_def)
  moreover have "idle_out ?s" using baseD(3) [OF b] t(3) by (auto simp: idle_out_def)
  moreover have "waiter_ok ?s" "lock_ok ?s" "deadline_ok d ?s"
    using baseD(4,5,7) [OF b] dl by (auto simp: waiter_ok_def lock_ok_def deadline_ok_def)
  moreover have "stack_ok ?s"
  proof (rule stack_ok_keep [OF baseD(6) [OF b]])
    fix r assume r: "\<not> unclaimed s r" "claim_ok s r"
    then have "r \<noteq> Creates t" using t(6) by auto
    then show "claim_ok ?s r" using r(2) by (cases r) (auto simp: limbo_def)
  qed simp_all
  ultimately show ?thesis by (simp add: base_def)
qed

lemma timer_sleep_ok:
  assumes i: "inv s" and n: "running s \<noteq> idle_thread s" and sl: "timer_sleep k s = Some s'"
  shows "after s s'"
proof -
  let ?c = "running s" and ?s0 = "s\<lparr>intr := INTR_OFF\<rparr>"
  define s1 where "s1 = upd_thread ?c (\<lambda>th. th\<lparr>start := ticks s, sleep := k, status := THREAD_BLOCKED\<rparr>) ?s0"
  define s2 where "s2 = s1\<lparr>sleeping_list := sleeping_list s1 @ [?c]\<rparr>"
  have i0: "inv ?s0" using alike_inv(4) [of s ?s0] i by simp
  note u = running_unlisted [OF i0, simplified]
  have e: "schedule (push [C_intr_set_level (intr s)] s2) = Some s'"
  proof -
    let ?s3 = "upd_thread ?c (\<lambda>th. th\<lparr>start := ticks s, sleep := k\<rparr>) ?s0"
    have "thread_sleep (push [C_intr_set_level (intr s)] ?s3) = Some s'"
      using sl by (auto simp: timer_sleep_def intr_disable_def thread_current_inv [OF i0] timer_ticks_def ASSERT_bind_Some_iff Let_def)
    then have "thread_block ((push [C_intr_set_level (intr s)] ?s3)\<lparr>sleeping_list := sleeping_list s @ [?c]\<rparr>) = Some s'"
      by (auto simp: thread_sleep_def ASSERT_bind_Some_iff split: bind_splits dest!: thread_current_eq)
    moreover have "upd_thread ?c (\<lambda>th. th\<lparr>status := THREAD_BLOCKED\<rparr>)
        ((push [C_intr_set_level (intr s)] ?s3)\<lparr>sleeping_list := sleeping_list s @ [?c]\<rparr>) = push [C_intr_set_level (intr s)] s2"
      by (simp add: s2_def s1_def push_def upd_thread_def)
    ultimately show ?thesis by (auto dest!: thread_block_schedule)
  qed
  have b1: "base (ticks s) s1"
    unfolding s1_def by (rule restatus [where v = THREAD_BLOCKED]) (use invD(1) [OF i0] u in simp_all)
  have "base (ticks s) s2"
    unfolding s2_def by (rule enter_sleeping [OF b1]) (use invD(3) [OF i] n u in \<open>simp_all add: s1_def unclaimed_def is_thread_def\<close>)
  moreover have "none_running s2" by (rule stop_running [OF invD(2) [OF i0]]) (simp_all add: s2_def s1_def)
  moreover have "keeps s s2" by (auto simp: keeps_def s2_def s1_def)
  moreover have "running s2 = ?c" "idle_thread s2 = idle_thread s" by (simp_all add: s2_def s1_def)
  ultimately show ?thesis
    using n by (intro switch_ok [OF e] push_plain) (simp_all add: keeps_def)
qed

lemma thread_exit_ok:
  assumes i: "inv s" and n: "running s \<noteq> idle_thread s" and ex: "thread_exit s = Some s'"
  shows "after s s'"
proof -
  let ?c = "running s" and ?s0 = "s\<lparr>intr := INTR_OFF\<rparr>"
  let ?s1 = "?s0\<lparr>all_list := remove1 ?c (all_list s)\<rparr>"
  define s2 where "s2 = upd_thread ?c (\<lambda>th. th\<lparr>thread_pl := None, status := THREAD_DYING\<rparr>) ?s1"
  have a: "alike s ?s1" by (rule alike_trans [of _ ?s0]) simp_all
  have i1: "inv ?s1" using alike_inv(4) [OF a] i by simp
  note u = running_unlisted [OF i1, simplified]
  have i0: "inv ?s0" using alike_inv(4) [of s ?s0] i by simp
  have e: "schedule (push [C_not_reached] s2) = Some s'"
    using ex by (auto simp: thread_exit_def intr_disable_def thread_current_inv [OF i0] s2_def ASSERT_bind_Some_iff Let_def)
  have "base (ticks s) s2"
    unfolding s2_def by (rule restatus [where v = THREAD_DYING]) (use invD(1) [OF i1] u n in simp_all)
  moreover have "none_running s2" by (rule stop_running [OF invD(2) [OF i1]]) (simp_all add: s2_def)
  moreover have "keeps s s2" "running s2 = ?c" "idle_thread s2 = idle_thread s" by (simp_all add: keeps_def s2_def)
  ultimately show ?thesis
    using n by (intro switch_ok [OF e] push_plain) (simp_all add: keeps_def)
qed

lemma idle_loop_ok:
  assumes i: "inv s" and l: "idle_loop s = Some s'"
  shows "after s s'"
proof -
  let ?c = "running s" and ?s0 = "s\<lparr>intr := INTR_OFF\<rparr>"
  define s2 where "s2 = upd_thread ?c (\<lambda>th. th\<lparr>status := THREAD_BLOCKED\<rparr>) ?s0"
  have i0: "inv ?s0" using alike_inv(4) [of s ?s0] i by simp
  note u = running_unlisted [OF i0, simplified]
  have "upd_thread ?c (\<lambda>th. th\<lparr>status := THREAD_BLOCKED\<rparr>) (push [C_sti_hlt, C_idle_loop] ?s0) = push [C_sti_hlt, C_idle_loop] s2"
    by (simp add: s2_def push_def upd_thread_def)
  then have e: "schedule (push [C_sti_hlt, C_idle_loop] s2) = Some s'"
    using thread_block_schedule [of "push [C_sti_hlt, C_idle_loop] ?s0" s'] l
    by (simp add: idle_loop_def intr_disable_def Let_def)
  have "base (ticks s) s2"
    unfolding s2_def by (rule restatus [where v = THREAD_BLOCKED]) (use invD(1) [OF i0] u in simp_all)
  moreover have "none_running s2" by (rule stop_running [OF invD(2) [OF i0]]) (simp_all add: s2_def)
  moreover have "keeps s s2" by (simp add: keeps_def s2_def)
  ultimately show ?thesis by (intro switch_ok [OF e] push_plain) (simp_all add: keeps_def)
qed

section \<open>Waking sleeping threads\<close>

text \<open>After the loop no thread that has been looked at and still sleeps is due; threads that were woken were due.\<close>

lemma wake_loop_ok:
  assumes "wake_loop ts s = Some s'" and "base d s" and "one_running s" and "set ts \<subseteq> set (sleeping_list s)" and "distinct ts"
  shows "base d s' \<and> one_running s' \<and> running s' = running s \<and> holder s' = holder s \<and> ticks s' = ticks s
     \<and> stacks s' = stacks s \<and> idle_thread s' = idle_thread s \<and> in_external_intr s' = in_external_intr s
     \<and> (\<forall>u. start (threads s' u) = start (threads s u) \<and> sleep (threads s' u) = sleep (threads s u))
     \<and> set (sleeping_list s') \<subseteq> set (sleeping_list s)
     \<and> (\<forall>u \<in> set ts. u \<in> set (sleeping_list s') \<longrightarrow> ticks s < start (threads s u) + sleep (threads s u))
     \<and> (\<forall>u \<in> set (sleeping_list s) - set (sleeping_list s'). start (threads s u) + sleep (threads s u) \<le> ticks s)"
  using assms
proof (induction ts arbitrary: s)
  case Nil
  then show ?case by simp
next
  case (Cons t ts)
  show ?case
  proof (cases "sleep (threads s t) \<le> timer_elapsed (start (threads s t)) s")
    case False
    then show ?thesis using Cons.IH [of s] Cons.prems by (simp add: timer_elapsed_def timer_ticks_def)
  next
    case True
    let ?s0 = "s\<lparr>sleeping_list := remove1 t (sleeping_list s)\<rparr>"
    obtain s1 where s1: "pl_insert ReadyList t ?s0 = Some s1"
      and w: "wake_loop ts (upd_thread t (\<lambda>th. th\<lparr>status := THREAD_READY\<rparr>) s1) = Some s'"
      using Cons.prems(1) True by (auto split: bind_splits)
    define s2 where "s2 = upd_thread t (\<lambda>th. th\<lparr>status := THREAD_READY\<rparr>) s1"
    have tm: "t \<in> set (sleeping_list s)" using Cons.prems(4) by simp
    note l = baseD(1) [OF Cons.prems(2), unfolded linked_ok_def]
    have t: "is_thread ?s0 t" "status (threads ?s0 t) = THREAD_BLOCKED" "t \<noteq> idle_thread ?s0" "unclaimed ?s0 (Creates t)"
    proof -
      show "is_thread ?s0 t" "status (threads ?s0 t) = THREAD_BLOCKED" using l tm by simp_all
      show "t \<noteq> idle_thread ?s0" using baseD(3) [OF Cons.prems(2)] tm by (auto simp: idle_out_def)
      have "unclaimed s (Creates t)" by (rule not_limbo_unclaimed [OF Cons.prems(2)]) (simp add: limbo_def tm)
      then show "unclaimed ?s0 (Creates t)" by (simp add: unclaimed_def)
    qed
    have o0: "one_running ?s0" using Cons.prems(3) by (simp add: one_running_def)
    note m = make_ready [OF leave_sleeping [OF Cons.prems(2)] o0 t s1 s2_def]
    have th: "start (threads s2 u) = start (threads s u)" "sleep (threads s2 u) = sleep (threads s u)"
      "in_external_intr s2 = in_external_intr s" for u
      using s1 by (auto simp: s2_def pl_insert_def ASSERT_bind_Some_iff)
    have ds: "distinct (sleeping_list s)" using l by blast
    have sl: "set (sleeping_list s2) = set (sleeping_list s) - {t}" using m(6) ds by simp
    have "set ts \<subseteq> set (sleeping_list s2)" "distinct ts" using sl Cons.prems(4,5) by auto
    note ih = Cons.IH [OF w [folded s2_def] m(1,2) this]
    have "start (threads s t) + sleep (threads s t) \<le> ticks s" using True by (simp add: timer_elapsed_def timer_ticks_def)
    then show ?thesis using ih sl m th by auto
  qed
qed

lemma update_timers_ok:
  assumes u: "thread_update_timers s = Some s'" and b: "base d s" and o: "one_running s"
  shows "base (ticks s) s' \<and> one_running s' \<and> running s' = running s \<and> holder s' = holder s \<and> ticks s' = ticks s
     \<and> stacks s' = stacks s \<and> idle_thread s' = idle_thread s \<and> in_external_intr s' = in_external_intr s
     \<and> (\<forall>u \<in> set (sleeping_list s) - set (sleeping_list s'). start (threads s u) + sleep (threads s u) \<le> ticks s)"
proof -
  have "distinct (sleeping_list s)" using baseD(1) [OF b] by (simp add: linked_ok_def)
  note w = wake_loop_ok [OF u [unfolded thread_update_timers_def] b o order_refl this]
  have "deadline_ok (ticks s) s'" using w by (auto simp: deadline_ok_def)
  then show ?thesis using w by (simp add: base_def)
qed

end
