(* ===== verification/Sched_Tick.thy ===== *)
theory Sched_Tick
  imports Sched_Ops
begin

text \<open>
  The feedback queue scheduler, priorities set by a thread, and the timer interrupt keep the invariant of theory
  \<^verbatim>\<open>Sched_Inv\<close>.
\<close>

section \<open>Operations that do not switch threads\<close>

definition steady :: "int \<Rightarrow> kstate \<Rightarrow> kstate \<Rightarrow> bool" where
  "steady d s s' \<longleftrightarrow> base d s' \<and> one_running s' \<and> running s' = running s \<and> holder s' = holder s \<and> ticks s' = ticks s
     \<and> sleeping_list s' = sleeping_list s \<and> idle_thread s' = idle_thread s \<and> in_external_intr s' = in_external_intr s"

lemma steady_trans: "steady d s s1 \<Longrightarrow> steady d s1 s2 \<Longrightarrow> steady d s s2"
  by (simp add: steady_def)

lemma steady_alike:
  assumes "base d s" and "one_running s" and "alike s s'" and "in_external_intr s' = in_external_intr s"
  shows "steady d s s'"
  using assms alike_inv(1,2) [OF assms(3)] by (simp add: steady_def alike_def)

lemma steady_after: "inv s \<Longrightarrow> steady (ticks s) s s' \<Longrightarrow> after s s'"
  by (simp add: steady_def after_def inv_def keeps_def)

lemma steadyD: "steady d s s' \<Longrightarrow> base d s'" "steady d s s' \<Longrightarrow> one_running s'"
  by (simp_all add: steady_def)

lemma intr_set_level_steady: "base d s \<Longrightarrow> one_running s \<Longrightarrow> intr_set_level lv s = Some s' \<Longrightarrow> steady d s s'"
  by (drule intr_set_level_alike) (simp add: steady_alike)

lemma unlisted_iff: "base d s \<Longrightarrow> thread_pl (threads s t) = None \<Longrightarrow> t \<notin> set (pl_list s q)"
  using baseD(1) [of d s] by (auto simp: linked_ok_def)

lemma running_free: "base d s \<Longrightarrow> one_running s \<Longrightarrow> running s \<notin> set (pl_list s q)"
  using baseD(1) [of d s] unfolding linked_ok_def one_running_def by (metis list_status_simps(5))

lemma one_running_upd: "only_priority f \<Longrightarrow> one_running (upd_thread t f s) = one_running s"
  using only_priority_sel(1,2) [of f t s] by (simp add: one_running_def del: upd_thread_sel(1))

lemma reprioritize_running:
  assumes b: "base d s" "one_running s" and f: "only_priority f"
  shows "steady d s (upd_thread (running s) f s)"
proof -
  have "base d (upd_thread (running s) f s)" by (rule reprioritize_free [OF b(1) f]) (rule running_free [OF b])
  moreover have "one_running (upd_thread (running s) f s)" using b(2) by (simp add: one_running_upd f)
  ultimately show ?thesis by (simp add: steady_def)
qed

lemma reprioritize_steady:
  assumes b: "base d s" "one_running s" and f: "only_priority f" and u: "pl_update t (upd_thread t f s) = Some s'"
  shows "steady d s s'"
proof -
  note r = reprioritize_linked [OF b(1) f u]
  have "one_running s'" using b(2) unfolding one_running_def r(2,9,10) .
  then show ?thesis using r by (simp add: steady_def)
qed

lemma only_priority_simps [simp]:
  "only_priority (\<lambda>th. th\<lparr>priority := p\<rparr>)" "only_priority (\<lambda>th. th\<lparr>priority := p, donated := b\<rparr>)"
  "only_priority (\<lambda>th. th\<lparr>priority := original_priority th, donated := b\<rparr>)" "only_priority (\<lambda>th. th\<lparr>original_priority := p\<rparr>)"
  by (simp_all add: only_priority_def)

section \<open>The feedback queue\<close>

lemma calculate_priority_ok:
  assumes b: "base d s" "one_running s" and e: "in_external_intr s \<or> running s \<noteq> idle_thread s"
    and c: "thread_calculate_priority t s = Some s'"
  shows "steady d s s'"
proof -
  let ?s0 = "s\<lparr>intr := INTR_OFF\<rparr>"
  have st0: "steady d s ?s0" by (rule steady_alike [OF b]) simp_all
  note b0 = steadyD [OF st0]
  define lv where "lv = intr s"
  obtain p s1 where s1': "(if thread_pl (threads (upd_thread t (\<lambda>th. th\<lparr>priority := p\<rparr>) ?s0) t) \<noteq> None
        then pl_update t (upd_thread t (\<lambda>th. th\<lparr>priority := p\<rparr>) ?s0) else Some (upd_thread t (\<lambda>th. th\<lparr>priority := p\<rparr>) ?s0)) = Some s1"
    and r': "(if priority (threads s1 t) < thread_list_top_pri s1 (ready_list s1)
      then (if in_external_intr s1 then intr_yield_on_return s1 \<bind> intr_set_level lv
           else intr_set_level lv s1 \<bind> (\<lambda>s. Some (push [C_thread_yield, C_intr_set_level lv] s)))
      else intr_set_level lv s1) = Some s'"
    using c unfolding thread_calculate_priority_def intr_disable_def Let_def prod.case lv_def [symmetric]
    by (auto simp only: Option.bind_eq_Some_conv)
  have s1: "(if thread_pl (threads s t) \<noteq> None then pl_update t (upd_thread t (\<lambda>th. th\<lparr>priority := p\<rparr>) ?s0)
        else Some (upd_thread t (\<lambda>th. th\<lparr>priority := p\<rparr>) ?s0)) = Some s1" using s1' by simp
  have r: "intr_set_level lv s1 = Some s' \<or> in_external_intr s1 \<and> intr_set_level lv (s1\<lparr>yield_on_return := True\<rparr>) = Some s'
      \<or> \<not> in_external_intr s1 \<and> (\<exists>s2. intr_set_level lv s1 = Some s2 \<and> s' = push [C_thread_yield, C_intr_set_level lv] s2)"
    using r' by (auto simp: intr_yield_on_return_def ASSERT_bind_Some_iff Option.bind_eq_Some_conv split: if_splits)
  have st1: "steady d ?s0 s1"
  proof (cases "thread_pl (threads s t) = None")
    case True
    then have s1: "s1 = upd_thread t (\<lambda>th. th\<lparr>priority := p\<rparr>) ?s0" using s1 by simp
    have "base d s1" unfolding s1 by (rule reprioritize_free [OF b0(1)]) (use unlisted_iff [OF b(1) True] in simp_all)
    moreover have "one_running s1" using b0(2) by (simp add: s1 one_running_upd)
    ultimately show ?thesis by (simp add: steady_def s1)
  next
    case False
    then show ?thesis using s1 by (intro reprioritize_steady [OF b0, of "\<lambda>th. th\<lparr>priority := p\<rparr>" t]) simp_all
  qed
  note b1 = steadyD [OF st1] and st = steady_trans [OF st0 st1]
  from r show ?thesis
  proof (elim disjE conjE exE)
    assume "intr_set_level lv s1 = Some s'"
    then show ?thesis using st intr_set_level_steady [OF b1] steady_trans by blast
  next
    assume y: "intr_set_level lv (s1\<lparr>yield_on_return := True\<rparr>) = Some s'"
    have st2: "steady d s1 (s1\<lparr>yield_on_return := True\<rparr>)" by (rule steady_alike [OF b1]) simp_all
    then show ?thesis using st intr_set_level_steady [OF steadyD [OF st2] y] steady_trans by blast
  next
    fix s2 assume "\<not> in_external_intr s1" and s2: "intr_set_level lv s1 = Some s2" and
      s': "s' = push [C_thread_yield, C_intr_set_level lv] s2"
    then have st2: "steady d s s2" using st intr_set_level_steady [OF b1] steady_trans by blast
    have "running s2 \<noteq> idle_thread s2" using e st st2 \<open>\<not> in_external_intr s1\<close> by (auto simp: steady_def)
    then have "base d s'" unfolding s' by (intro push_plain [OF steadyD(1) [OF st2]]) simp_all
    then show ?thesis using st2 by (simp add: steady_def s')
  qed
qed

lemma set_nice_ok:
  assumes i: "inv s" and n: "running s \<noteq> idle_thread s" and c: "thread_set_nice k s = Some s'"
  shows "after s s'"
proof -
  let ?s = "upd_thread (running s) (\<lambda>th. th\<lparr>nice := k\<rparr>) s"
  have c': "thread_calculate_priority (running s) ?s = Some s'"
    using c by (auto simp: thread_set_nice_def thread_current_inv [OF i] ASSERT_bind_Some_iff)
  have a: "alike s ?s" by (simp add: view_def)
  have i': "inv ?s" using alike_inv(4) [OF a] i by simp
  have "steady (ticks s) ?s s'" by (rule calculate_priority_ok [OF _ _ _ c']) (use invD [OF i'] n in simp_all)
  then have "after ?s s'" using steady_after [OF i'] by simp
  then show ?thesis by (rule alike_then [OF a])
qed

lemma recent_cpu_ok:
  "base d s \<Longrightarrow> one_running s \<Longrightarrow> thread_calculate_recent_cpu t s = Some s' \<Longrightarrow> steady d s s'"
  by (auto simp: thread_calculate_recent_cpu_def Let_def view_def intro!: steady_alike)

lemma load_avg_ok:
  assumes "base d s" and "one_running s" and "thread_calculate_load_avg s = Some s'"
  shows "steady d s s'"
proof -
  obtain a c where s': "s' = s\<lparr>load_avg := a, load_avg_coefficient := c\<rparr>"
    using assms(3) by (auto simp: thread_calculate_load_avg_def Let_def Option.bind_eq_Some_conv)
  have "alike s s'" unfolding s' by (rule alike_trans [of _ "s\<lparr>load_avg := a\<rparr>"]) simp_all
  then show ?thesis by (rule steady_alike [OF assms(1,2)]) (simp add: s')
qed

lemma update_priorities_ok:
  assumes b: "base d s" "one_running s" and e: "in_external_intr s" and c: "thread_update_priorities t s = Some s'"
  shows "steady d s s'"
proof (cases "recently_up (threads s t)")
  case False
  then show ?thesis using c b by (simp add: thread_update_priorities_def steady_def)
next
  case True
  let ?s = "upd_thread t (\<lambda>th. th\<lparr>recently_up := False\<rparr>) s"
  have st: "steady d s ?s" by (rule steady_alike [OF b]) (simp_all add: view_def)
  have "steady d ?s s'"
    by (rule calculate_priority_ok [OF steadyD [OF st], of t]) (use c e True in \<open>simp_all add: thread_update_priorities_def\<close>)
  then show ?thesis by (rule steady_trans [OF st])
qed

lemma foreach_ok:
  assumes b: "base d s" "one_running s" and f: "thread_foreach f s = Some s'"
    and step: "\<And>t s1 s2. base d s1 \<Longrightarrow> one_running s1 \<Longrightarrow> in_external_intr s1 = in_external_intr s \<Longrightarrow> f t s1 = Some s2 \<Longrightarrow> steady d s1 s2"
  shows "steady d s s'"
proof (rule foldM_preserves [where P = "steady d s"])
  show "foldM f (all_list s) s = Some s'" using f by (simp add: thread_foreach_def ASSERT_bind_Some_iff)
  show "steady d s s" using b by (simp add: steady_def)
  fix t s1 s2 assume "steady d s s1" "f t s1 = Some s2"
  then show "steady d s s2" using step [of s1 t s2] steady_trans by (simp add: steady_def)
qed

lemma foreach_off_ok:
  assumes b: "base d s" "one_running s"
    and f: "(do { s \<leftarrow> thread_foreach f (s\<lparr>intr := INTR_OFF\<rparr>); intr_set_level lv s }) = Some s'"
    and step: "\<And>t s1 s2. base d s1 \<Longrightarrow> one_running s1 \<Longrightarrow> in_external_intr s1 = in_external_intr s \<Longrightarrow> f t s1 = Some s2 \<Longrightarrow> steady d s1 s2"
  shows "steady d s s'"
proof -
  obtain s1 where s1: "thread_foreach f (s\<lparr>intr := INTR_OFF\<rparr>) = Some s1" "intr_set_level lv s1 = Some s'"
    using f by (auto simp: Option.bind_eq_Some_conv)
  have st: "steady d s (s\<lparr>intr := INTR_OFF\<rparr>)" by (rule steady_alike [OF b]) simp_all
  have st1: "steady d s s1" by (rule steady_trans [OF st foreach_ok [OF steadyD [OF st] s1(1)]]) (simp add: step)
  then show ?thesis using intr_set_level_steady [OF steadyD [OF st1] s1(2)] steady_trans by blast
qed

section \<open>Setting a priority\<close>

lemma set_priority_ok:
  assumes i: "inv s" and n: "running s \<noteq> idle_thread s" and c: "thread_set_priority p s = Some s'"
  shows "after s s'"
proof (cases "thread_mlfqs s")
  case True
  then show ?thesis using c i by (simp add: thread_set_priority_def after_def)
next
  case False
  let ?c = "running s" and ?s0 = "s\<lparr>intr := INTR_OFF\<rparr>"
  define lv s1 where "lv = intr s" and "s1 = upd_thread ?c (\<lambda>th. th\<lparr>original_priority := p\<rparr>) ?s0"
  define s2 where "s2 = (if donated (threads s1 ?c)
     then (if priority (threads s1 ?c) < p then upd_thread ?c (\<lambda>th. th\<lparr>priority := p, donated := False\<rparr>) s1 else s1)
     else upd_thread ?c (\<lambda>th. th\<lparr>priority := p\<rparr>) s1)"
  have st0: "steady (ticks s) s ?s0" by (rule steady_alike) (use invD(1,2) [OF i] in simp_all)
  have st1: "steady (ticks s) s s1"
    using steady_trans [OF st0 reprioritize_running [OF steadyD [OF st0]]] by (simp add: s1_def)
  have "steady (ticks s) s1 s2"
  proof -
    have r: "running s1 = ?c" by (simp add: s1_def)
    have "steady (ticks s) s1 s1" using steadyD [OF st1] by (simp add: steady_def)
    then show ?thesis
      using reprioritize_running [OF steadyD [OF st1], of "\<lambda>th. th\<lparr>priority := p, donated := False\<rparr>"]
        reprioritize_running [OF steadyD [OF st1], of "\<lambda>th. th\<lparr>priority := p\<rparr>"] unfolding r s2_def by simp
  qed
  then have st: "steady (ticks s) s s2" by (rule steady_trans [OF st1])
  then have k: "inv s2" "keeps s s2" "running s2 = ?c" "idle_thread s2 = idle_thread s" by (simp_all add: steady_def inv_def keeps_def)
  have r: "(if priority (threads s2 ?c) < thread_list_top_pri s2 (ready_list s2)
      then thread_yield (push [C_intr_set_level lv] s2) else intr_set_level lv s2) = Some s'"
    using c False unfolding thread_set_priority_def thread_current_inv [OF i] intr_disable_def Let_def prod.case
    by (simp only: s2_def s1_def lv_def if_False bind.bind_lunit)
  show ?thesis
  proof (cases "priority (threads s2 ?c) < thread_list_top_pri s2 (ready_list s2)")
    case True
    have "inv (push [C_intr_set_level lv] s2)" using k(1) push_plain [of "ticks s2" s2] by (simp add: inv_def)
    from thread_yield_ok [OF this] True r have "after (push [C_intr_set_level lv] s2) s'" by simp
    then show ?thesis by (rule after_keeps [rotated 2]) (use k in \<open>simp_all add: keeps_def\<close>)
  next
    case False
    then have "alike s2 s'" using r intr_set_level_alike by auto
    then show ?thesis using after_keeps [OF k(2,3)] after_alike [OF k(1)] by blast
  qed
qed

section \<open>The timer interrupt\<close>

lemma count_tick_alike: "alike s (count_tick t s) \<and> in_external_intr (count_tick t s) = in_external_intr s"
  by (simp add: count_tick_def)

lemma mlfqs_tick_ok:
  assumes b: "base d s" "one_running s" and e: "in_external_intr s" and m: "mlfqs_tick t s = Some s'"
  shows "steady d s s'"
proof -
  define s1 where "s1 = (if t \<noteq> idle_thread s
    then upd_thread t (\<lambda>th. th\<lparr>recent_cpu := add_fpn (recent_cpu th) 1, recently_up := True\<rparr>) s else s)"
  have st1: "steady d s s1" by (rule steady_alike [OF b]) (simp_all add: s1_def view_def)
  obtain s2 where s2: "(if timer_ticks s1 mod TIMER_FREQ = 0 then do {
            s \<leftarrow> thread_calculate_load_avg s1;
            s' \<leftarrow> thread_foreach thread_calculate_recent_cpu (s\<lparr>intr := INTR_OFF\<rparr>);
            intr_set_level (intr s) s' } else Some s1) = Some s2"
    and s3: "(if timer_ticks s2 mod int TIME_SLICE = 0 then do {
       s \<leftarrow> thread_foreach thread_update_priorities (s2\<lparr>intr := INTR_OFF\<rparr>);
       intr_set_level (intr s2) s } else Some s2) = Some s'"
    using m unfolding mlfqs_tick_def Let_def intr_disable_def prod.case s1_def [symmetric]
    by (auto simp only: Option.bind_eq_Some_conv)
  have "steady d s1 s2"
  proof (cases "timer_ticks s1 mod TIMER_FREQ = 0")
    case True
    then obtain s3 where a: "thread_calculate_load_avg s1 = Some s3"
      and f: "(do { s' \<leftarrow> thread_foreach thread_calculate_recent_cpu (s3\<lparr>intr := INTR_OFF\<rparr>); intr_set_level (intr s3) s' }) = Some s2"
      using s2 by (auto simp: Option.bind_eq_Some_conv)
    note st3 = load_avg_ok [OF steadyD [OF st1] a]
    show ?thesis by (rule steady_trans [OF st3 foreach_off_ok [OF steadyD [OF st3] f]]) (rule recent_cpu_ok)
  next
    case False
    then show ?thesis using s2 st1 by (simp add: steady_def)
  qed
  then have st2: "steady d s s2" by (rule steady_trans [OF st1])
  have "steady d s2 s'"
  proof (cases "timer_ticks s2 mod int TIME_SLICE = 0")
    case True
    have "in_external_intr s2" using st2 e by (simp add: steady_def)
    then show ?thesis using True s3 by (intro foreach_off_ok [OF steadyD [OF st2]]) (auto intro: update_priorities_ok)
  next
    case False
    then show ?thesis using s3 st2 by (simp add: steady_def)
  qed
  then show ?thesis by (rule steady_trans [OF st2])
qed

text \<open>The handler wakes the threads that are due, and no others.\<close>

text \<open>The stages of \<^verbatim>\<open>thread_tick\<close>: waking threads, asking for preemption, the feedback queue, the end of the time slice.\<close>

lemma thread_tick_stages:
  assumes o: "one_running s" and t: "thread_tick s = Some s'"
  obtains s1 s2 s3 where "(if sleeping_list s \<noteq> [] then thread_update_timers s else Some s) = Some s1"
    "(if priority (threads s1 (running s)) > thread_list_top_pri s1 (ready_list s1) then intr_yield_on_return s1 else Some s1) = Some s2"
    "(if thread_mlfqs (count_tick (running s) s2) then mlfqs_tick (running s) (count_tick (running s) s2)
              else Some (count_tick (running s) s2)) = Some s3"
    "(if of_nat TIME_SLICE \<le> thread_ticks (s3\<lparr>thread_ticks := thread_ticks s3 + 1\<rparr>)
              then intr_yield_on_return (s3\<lparr>thread_ticks := thread_ticks s3 + 1\<rparr>) else Some (s3\<lparr>thread_ticks := thread_ticks s3 + 1\<rparr>)) = Some s'"
proof -
  have cur: "thread_current s = Some (running s)" using o by (simp add: thread_current_def one_running_def)
  show thesis using t that unfolding thread_tick_def Let_def cur by (auto simp only: Option.bind_eq_Some_conv bind.bind_lunit)
qed

lemma thread_tick_ok:
  assumes b: "base d s" "one_running s" and e: "in_external_intr s" and t: "thread_tick s = Some s'"
  shows "base (ticks s) s' \<and> one_running s' \<and> running s' = running s \<and> holder s' = holder s \<and> ticks s' = ticks s
     \<and> idle_thread s' = idle_thread s \<and> in_external_intr s'
     \<and> (\<forall>u \<in> set (sleeping_list s) - set (sleeping_list s'). start (threads s u) + sleep (threads s u) \<le> ticks s)
     \<and> (\<exists>s1. (if sleeping_list s \<noteq> [] then thread_update_timers s else Some s) = Some s1 \<and> sleeping_list s' = sleeping_list s1)"
proof -
  from thread_tick_stages [OF b(2) t] obtain s1 s2 s3 where s1: "(if sleeping_list s \<noteq> [] then thread_update_timers s else Some s) = Some s1"
    and s2: "(if priority (threads s1 (running s)) > thread_list_top_pri s1 (ready_list s1) then intr_yield_on_return s1 else Some s1) = Some s2"
    and s3: "(if thread_mlfqs (count_tick (running s) s2) then mlfqs_tick (running s) (count_tick (running s) s2)
              else Some (count_tick (running s) s2)) = Some s3"
    and s4: "(if of_nat TIME_SLICE \<le> thread_ticks (s3\<lparr>thread_ticks := thread_ticks s3 + 1\<rparr>)
              then intr_yield_on_return (s3\<lparr>thread_ticks := thread_ticks s3 + 1\<rparr>) else Some (s3\<lparr>thread_ticks := thread_ticks s3 + 1\<rparr>)) = Some s'" .
  have w: "base (ticks s) s1 \<and> one_running s1 \<and> running s1 = running s \<and> holder s1 = holder s \<and> ticks s1 = ticks s
     \<and> idle_thread s1 = idle_thread s \<and> in_external_intr s1 = in_external_intr s
     \<and> (\<forall>u \<in> set (sleeping_list s) - set (sleeping_list s1). start (threads s u) + sleep (threads s u) \<le> ticks s)"
  proof (cases "sleeping_list s = []")
    case True
    then have "deadline_ok (ticks s) s" by (simp add: deadline_ok_def)
    then show ?thesis using True s1 b by (simp add: base_def)
  next
    case False
    then show ?thesis using update_timers_ok [OF _ b] s1 by simp
  qed
  have y: "steady (ticks s) s1 s2"
    using s2 w by (intro steady_alike) (auto simp: intr_yield_on_return_def ASSERT_bind_Some_iff split: if_splits)
  have c: "steady (ticks s) s2 (count_tick (running s) s2)"
    by (rule steady_alike) (use steadyD [OF y] count_tick_alike in simp_all)
  note st2 = steady_trans [OF y c]
  have m: "steady (ticks s) (count_tick (running s) s2) s3"
  proof (cases "thread_mlfqs (count_tick (running s) s2)")
    case True
    have "in_external_intr (count_tick (running s) s2)" using st2 w e by (simp add: steady_def)
    then show ?thesis using True s3 mlfqs_tick_ok [OF steadyD [OF st2]] by simp
  next
    case False
    then show ?thesis using s3 steadyD [OF st2] by (simp add: steady_def)
  qed
  note st3 = steady_trans [OF st2 m]
  let ?s3 = "s3\<lparr>thread_ticks := thread_ticks s3 + 1\<rparr>"
  have "alike s3 s' \<and> in_external_intr s' = in_external_intr s3"
  proof (cases "of_nat TIME_SLICE \<le> thread_ticks ?s3")
    case True
    then have "s' = ?s3\<lparr>yield_on_return := True\<rparr>" using s4 by (simp add: intr_yield_on_return_def ASSERT_bind_Some_iff)
    then show ?thesis using alike_trans [of s3 ?s3 s'] by simp
  next
    case False
    then show ?thesis using s4 by auto
  qed
  then have "steady (ticks s) s3 s'" using steady_alike [OF steadyD [OF st3]] by blast
  then have "steady (ticks s) s1 s'" by (rule steady_trans [OF st3])
  then show ?thesis using w e s1 by (auto simp: steady_def)
qed

lemma base_ticks [simp]: "base d (s\<lparr>ticks := i\<rparr>) = base d s" "one_running (s\<lparr>ticks := i\<rparr>) = one_running s"
proof -
  let ?s = "s\<lparr>ticks := i\<rparr>"
  have "claim_ok ?s r = claim_ok s r" for r by (cases r) (simp_all add: limbo_def)
  moreover have "thread_cmp ?s = thread_cmp s" by (simp add: thread_cmp_def fun_eq_iff)
  ultimately show "base d ?s = base d s"
    unfolding base_def linked_ok_def sorted_ok_def idle_out_def waiter_ok_def deadline_ok_def stack_ok_def lock_ok_def by simp
  show "one_running ?s = one_running s" by (simp add: one_running_def)
qed

lemma tick_ok:
  assumes i: "inv s" and h: "intr_handler timer_interrupt s = Some s'"
  shows "inv s' \<and> ticks s' = ticks s + 1 \<and> (\<forall>l. holder s l \<noteq> NULL \<longrightarrow> holder s' l = holder s l) \<and> (running s' = running s \<or> top_ok s')
     \<and> (\<forall>u \<in> set (sleeping_list s) - set (sleeping_list s'). start (threads s u) + sleep (threads s u) \<le> ticks s')"
proof -
  let ?s0 = "s\<lparr>intr := INTR_OFF, in_external_intr := True, yield_on_return := False\<rparr>"
  let ?s1 = "?s0\<lparr>ticks := ticks s + 1\<rparr>"
  obtain s2 where t: "thread_tick ?s1 = Some s2" and
    r: "(if yield_on_return (s2\<lparr>in_external_intr := False\<rparr>) then thread_yield (push [C_intr_set_level INTR_ON] (s2\<lparr>in_external_intr := False\<rparr>))
         else Some (s2\<lparr>in_external_intr := False, intr := INTR_ON\<rparr>)) = Some s'"
    using h unfolding intr_handler_def Let_def timer_interrupt_def
    by (auto simp: Option.bind_eq_Some_conv ASSERT_bind_Some_iff)
  have "alike s ?s0"
    by (rule alike_trans [of _ "s\<lparr>intr := INTR_OFF\<rparr>"], simp, rule alike_trans [of _ "s\<lparr>intr := INTR_OFF, in_external_intr := True\<rparr>"]) simp_all
  then have b0: "base (ticks s) ?s0" "one_running ?s0" using alike_inv(1,2) invD(1,2) [OF i] by blast+
  have ts: "ticks ?s1 = ticks s + 1" "sleeping_list ?s1 = sleeping_list s" "holder ?s1 = holder s" "running ?s1 = running s"
    "threads ?s1 = threads s" "in_external_intr ?s1" by simp_all
  note w = thread_tick_ok [OF _ _ ts(6) t, of "ticks s", unfolded ts, simplified base_ticks, OF b0]
  let ?s3 = "s2\<lparr>in_external_intr := False\<rparr>"
  have a3: "alike s2 ?s3" by simp
  have i2: "inv s2" using w by (simp add: inv_def)
  then have i3: "inv ?s3" using alike_inv(4) [OF a3] by simp
  have "after s2 s'"
  proof (cases "yield_on_return ?s3")
    case True
    have "inv (push [C_intr_set_level INTR_ON] ?s3)" using i3 push_plain [of "ticks ?s3" ?s3] by (simp add: inv_def)
    from thread_yield_ok [OF this] True r have "after (push [C_intr_set_level INTR_ON] ?s3) s'" by simp
    then show ?thesis by (rule after_keeps [rotated 2]) (simp_all add: keeps_def)
  next
    case False
    then have "alike s2 s'" using r alike_trans [OF a3, of s'] by auto
    then show ?thesis by (rule after_alike [OF i2])
  qed
  then show ?thesis using w by (auto simp: after_def keeps_def)
qed

end
