(* ===== verification/Sched_Safe.thy ===== *)
theory Sched_Safe
  imports Sched_Tick
begin

text \<open>
  Synchronization and the creation of threads keep the invariant of theory \<^verbatim>\<open>Sched_Inv\<close>, so that it holds in every state the
  kernel can reach. The properties of the scheduler and of locks follow.
\<close>

section \<open>Semaphores\<close>

text \<open>Changing the value of a semaphore.\<close>

lemma set_value:
  assumes b: "base d s" and v: "\<And>m. waiters (f m) = waiters m"
    and l: "\<And>l. x = LockSema l \<Longrightarrow> unclaimed s (Token l) \<and> sema_value (f (semas s x)) \<le> 1 \<and> holder s l = NULL"
  shows "base d (upd_sema x f s)"
proof -
  let ?s = "upd_sema x f s"
  have pl: "pl_list ?s = pl_list s" using v by (auto simp: pl_list_def fun_eq_iff split: plist.splits)
  have "thread_cmp ?s = thread_cmp s" by (simp add: thread_cmp_def fun_eq_iff)
  moreover have "lock_ok ?s" using baseD(7) [OF b] l by (auto simp: lock_ok_def)
  moreover have "stack_ok ?s"
  proof (rule stack_ok_keep [OF baseD(6) [OF b]])
    fix r assume r: "\<not> unclaimed s r" "claim_ok s r"
    then show "claim_ok ?s r" using l by (cases r) (auto simp: limbo_def pl)
  qed simp_all
  ultimately show ?thesis
    using b by (simp add: base_def linked_ok_def sorted_ok_def idle_out_def waiter_ok_def deadline_ok_def pl)
qed

lemma one_running_sema [simp]: "one_running (upd_sema x f s) = one_running s"
  by (simp add: one_running_def)

text \<open>A semaphore that belongs to no lock.\<close>

definition no_lock :: "sptr \<Rightarrow> bool" where
  "no_lock x \<longleftrightarrow> (\<forall>l. x \<noteq> LockSema l)"

lemma plain_loop: "no_lock x \<Longrightarrow> \<forall>w. x = WaiterSema w \<longrightarrow> w = u \<Longrightarrow> plain u (C_sema_loop x lv)"
  by (cases x) (auto simp: no_lock_def plain_def)

lemma sema_loop_ok:
  assumes i: "inv s" and n: "running s \<noteq> idle_thread s" and x: "no_lock x" "\<forall>w. x = WaiterSema w \<longrightarrow> w = running s"
    and l: "sema_loop x lv s = Some s'"
  shows "after s s'"
proof (cases "sema_value (semas s x) = 0")
  case True
  obtain s1 where s1: "pl_insert (WaitersOf x) (running s) s = Some s1" "thread_block (push [C_sema_loop x lv] s1) = Some s'"
    using l True by (auto simp: sema_loop_def thread_current_inv [OF i] Option.bind_eq_Some_conv)
  have "base (ticks s) (push [C_sema_loop x lv] s)"
    by (rule push_plain [OF invD(1) [OF i]]) (use n plain_loop [OF x] in simp_all)
  then show ?thesis by (rule block_on [OF i n _ s1 x(2)])
next
  case False
  let ?s = "upd_sema x (\<lambda>m. m\<lparr>sema_value := sema_value m - 1\<rparr>) s"
  have "base (ticks s) ?s" by (rule set_value [OF invD(1) [OF i]]) (use x(1) in \<open>auto simp: no_lock_def\<close>)
  then have "inv ?s" using invD(2) [OF i] by (simp add: inv_def)
  moreover have "alike ?s s'" using l False intr_set_level_alike by (auto simp: sema_loop_def)
  ultimately have "after ?s s'" by (rule after_alike)
  then show ?thesis by (rule after_keeps [rotated 2]) (simp_all add: keeps_def)
qed

lemma sema_down_ok:
  assumes i: "inv s" and n: "running s \<noteq> idle_thread s" and x: "no_lock x" "\<forall>w. x = WaiterSema w \<longrightarrow> w = running s"
    and l: "sema_down x s = Some s'"
  shows "after s s'"
proof -
  let ?s = "s\<lparr>intr := INTR_OFF\<rparr>"
  have a: "alike s ?s" by simp
  have "inv ?s" using alike_inv(4) [OF a] i by simp
  moreover have "sema_loop x (intr s) ?s = Some s'"
    using l by (simp add: sema_down_def intr_disable_def ASSERT_bind_Some_iff)
  ultimately have "after ?s s'" using sema_loop_ok [of ?s x] n x by simp
  then show ?thesis by (rule alike_then [OF a])
qed

lemma sema_try_down_ok:
  assumes i: "inv s" and x: "no_lock x" and l: "sema_try_down x s = Some (r, s')"
  shows "after s s'"
proof -
  let ?f = "\<lambda>m. m\<lparr>sema_value := sema_value m - 1\<rparr>"
  define s1 where "s1 = (if 0 < sema_value (semas s x) then upd_sema x ?f (s\<lparr>intr := INTR_OFF\<rparr>) else s\<lparr>intr := INTR_OFF\<rparr>)"
  have i0: "inv (s\<lparr>intr := INTR_OFF\<rparr>)" using alike_inv(4) [of s "s\<lparr>intr := INTR_OFF\<rparr>"] i by simp
  have "base (ticks s) (upd_sema x ?f (s\<lparr>intr := INTR_OFF\<rparr>))"
    by (rule set_value) (use invD(1) [OF i0] x in \<open>auto simp: no_lock_def\<close>)
  then have "inv s1" using invD(1,2) [OF i0] by (simp add: s1_def inv_def)
  moreover have "intr_set_level (intr s) s1 = Some s'"
    using l by (auto simp: sema_try_down_def intr_disable_def Let_def s1_def Option.bind_eq_Some_conv split: if_splits)
  ultimately have "after s1 s'" using after_alike intr_set_level_alike by blast
  then show ?thesis by (rule after_keeps [rotated 2]) (simp_all add: keeps_def s1_def)
qed

text \<open>A thread that raises the semaphore of a lock has the claim to the lock and gives it up.\<close>

lemma sema_up_ok:
  assumes i: "inv s" and l: "sema_up x s = Some s'"
    and x: "\<And>l. x = LockSema l \<Longrightarrow> unclaimed s (Token l) \<and> claim_ok s (Token l)"
    and n: "running s = idle_thread s \<Longrightarrow> \<exists>n. x = Sema n"
  shows "after s s'"
proof -
  let ?f = "\<lambda>m. m\<lparr>sema_value := sema_value m + 1\<rparr>" and ?s0 = "s\<lparr>intr := INTR_OFF\<rparr>"
  have i0: "inv ?s0" using alike_inv(4) [of s ?s0] i by simp
  have "base (ticks s) (upd_sema x ?f ?s0)"
    by (rule set_value) (use invD(1) [OF i0] x in \<open>auto simp: unclaimed_def\<close>)
  then have i1: "inv (upd_sema x ?f ?s0)" using invD(2) [OF i0] by (simp add: inv_def)
  obtain s1 where s1: "intr_set_level (intr s) (upd_sema x ?f ?s0) = Some s1"
    and s': "s' = (if waiters (semas s x) \<noteq> [] then push [C_sema_pop x, C_intr_set_level (intr s)] s1 else s1)"
    using l by (auto simp: sema_up_def intr_disable_def Let_def Option.bind_eq_Some_conv)
  note a1 = intr_set_level_alike [OF s1, THEN conjunct1]
  have i2: "inv s1" using alike_inv(4) [OF a1] i1 by simp
  have r: "running s1 = running s" "idle_thread s1 = idle_thread s" using a1 by (simp_all add: alike_def)
  have "base (ticks s1) s'"
    unfolding s' using invD(1) [OF i2] n r by (auto intro!: push_plain)
  then have "inv s'" using invD(2) [OF i2] by (auto simp: inv_def s')
  moreover have "keeps s s'" using a1 by (auto simp: keeps_def s' alike_def)
  ultimately show ?thesis using r by (simp add: after_def s')
qed

lemma sema_pop_ok:
  assumes i: "inv s" and l: "sema_pop x s = Some s'"
  shows "after s s'"
proof -
  obtain t ts where w: "waiters (semas s x) = t # ts" and u: "thread_unblock t (upd_sema x (\<lambda>m. m\<lparr>waiters := ts\<rparr>) s) = Some s'"
    using l by (auto simp: sema_pop_def split: list.splits)
  let ?s = "upd_sema x (\<lambda>m. m\<lparr>waiters := ts\<rparr>) s"
  note b = invD(1) [OF i]
  have t: "t \<in> set (pl_list s (WaitersOf x))" using w by (simp add: pl_list_def)
  then have "t \<noteq> idle_thread s" using baseD(3) [OF b] by (auto simp: idle_out_def)
  moreover have "unclaimed s (Creates t)" by (rule not_limbo_unclaimed [OF b]) (use t in \<open>auto simp: limbo_def\<close>)
  moreover have "inv ?s" using leave_waiters [OF b w] invD(2) [OF i] by (simp add: inv_def)
  ultimately have "after ?s s'" by (intro thread_unblock_ok [OF _ _ _ u]) (simp_all add: unclaimed_def)
  then show ?thesis by (rule after_keeps [rotated 2]) (simp_all add: keeps_def)
qed

section \<open>Locks\<close>

lemma set_holder:
  assumes b: "base d s" and l: "unclaimed s (Token l)" "t \<noteq> NULL \<Longrightarrow> sema_value (semas s (LockSema l)) = 0"
  shows "base d (s\<lparr>holder := (holder s)(l := t)\<rparr>)"
proof -
  let ?s = "s\<lparr>holder := (holder s)(l := t)\<rparr>"
  have "thread_cmp ?s = thread_cmp s" by (simp add: thread_cmp_def fun_eq_iff)
  moreover have "lock_ok ?s" using baseD(7) [OF b] l(2) by (auto simp: lock_ok_def)
  moreover have "stack_ok ?s"
  proof (rule stack_ok_keep [OF baseD(6) [OF b]])
    fix r assume r: "\<not> unclaimed s r" "claim_ok s r"
    then show "claim_ok ?s r" using l(1) by (cases r) (auto simp: limbo_def)
  qed simp_all
  ultimately show ?thesis
    using b by (simp add: base_def linked_ok_def sorted_ok_def idle_out_def waiter_ok_def deadline_ok_def)
qed

lemma give_lock_ok:
  assumes i: "inv s" and l: "unclaimed s (Token l)" "sema_value (semas s (LockSema l)) = 0" "holder s l = NULL"
  shows "inv (give_lock l t s)" "keeps s (give_lock l t s)" "running (give_lock l t s) = running s"
proof -
  let ?s = "s\<lparr>holder := (holder s)(l := t)\<rparr>"
  have "base (ticks s) ?s" by (rule set_holder [OF invD(1) [OF i] l(1)]) (rule l(2))
  then have "inv ?s" using invD(2) [OF i] by (simp add: inv_def one_running_def)
  moreover have "alike ?s (give_lock l t s)" by (simp add: give_lock_def view_def)
  ultimately show "inv (give_lock l t s)" using alike_inv(4) by blast
  show "keeps s (give_lock l t s)" "running (give_lock l t s) = running s" using l(3) by (auto simp: give_lock_def keeps_def)
qed

lemma token_free: "base d s \<Longrightarrow> holder s l \<noteq> NULL \<or> sema_value (semas s (LockSema l)) \<noteq> 0 \<Longrightarrow> unclaimed s (Token l)"
  using stack_okD(4) [OF baseD(6)] unfolding unclaimed_def by fastforce

lemma word_le_one: "(v :: u32) \<le> 1 \<Longrightarrow> v \<noteq> 0 \<Longrightarrow> v = 1"
proof -
  assume "v \<le> 1" "v \<noteq> 0"
  then have "unat v \<le> 1" "unat v \<noteq> 0" by (simp_all add: word_le_nat_alt unat_eq_0)
  then have "unat v = unat (1 :: u32)" by simp
  then show "v = 1" by (simp only: unat_eq_iff)
qed

lemma lock_try_acquire_ok:
  assumes i: "inv s" and l: "lock_try_acquire l s = Some (r, s')"
  shows "inv s' \<and> keeps s s' \<and> running s' = running s \<and> idle_thread s' = idle_thread s
    \<and> (\<not> r \<longrightarrow> sema_value (semas s' (LockSema l)) = 0 \<and> alike s s')"
proof -
  let ?f = "\<lambda>m. m\<lparr>sema_value := sema_value m - 1\<rparr>" and ?s0 = "s\<lparr>intr := INTR_OFF\<rparr>" and ?v = "sema_value (semas s (LockSema l))"
  have i0: "inv ?s0" using alike_inv(4) [of s ?s0] i by simp
  let ?s1 = "upd_sema (LockSema l) ?f ?s0"
  show ?thesis
  proof (cases "?v = 0")
    case True
    then have "r = False" "s' = s\<lparr>intr := intr s\<rparr>"
      using l by (auto simp: lock_try_acquire_def sema_try_down_def intr_disable_def Let_def Option.bind_eq_Some_conv ASSERT_bind_Some_iff
          dest!: intr_set_level_alike)
    then show ?thesis using True i by simp
  next
    case False
    have free: "unclaimed s (Token l)" "holder s l = NULL" "?v \<le> 1"
      using token_free [OF invD(1) [OF i]] baseD(7) [OF invD(1) [OF i]] False by (simp_all add: lock_ok_def)
    then have v1: "?v = 1" using False by (intro word_le_one)
    have "base (ticks s) ?s1" by (rule set_value) (use invD(1) [OF i0] free v1 in \<open>auto simp: unclaimed_def\<close>)
    then have i1: "inv ?s1" using invD(2) [OF i0] by (simp add: inv_def)
    have f1: "unclaimed ?s1 (Token l)" "sema_value (semas ?s1 (LockSema l)) = 0" "holder ?s1 l = NULL"
      using free v1 by (simp_all add: unclaimed_def)
    note g = give_lock_ok [OF i1 f1]
    have cur: "thread_current ?s1 = Some (running s)" using thread_current_inv [OF i1] by simp
    have td: "sema_try_down (LockSema l) ?s0 = Some (True, ?s1)"
      using False by (simp add: sema_try_down_def intr_disable_def intr_set_level_def word_gt_0 upd_sema_def)
    have "(do { s \<leftarrow> intr_set_level (intr s) (give_lock l (running s) ?s1); Some (True, s) }) = Some (r, s')"
      using l unfolding lock_try_acquire_def intr_disable_def Let_def prod.case
      by (simp only: Option.bind_eq_Some_conv ASSERT_bind_Some_iff) (auto simp: td cur ASSERT_bind_Some_iff Option.bind_eq_Some_conv simp del: upd_sema_sel)
    then have r: "r \<and> s' = (give_lock l (running s) ?s1)\<lparr>intr := intr s\<rparr>"
      by (auto simp: Option.bind_eq_Some_conv dest!: intr_set_level_alike)
    then have a: "alike (give_lock l (running s) ?s1) s'" by simp
    have "keeps ?s1 s'" by (rule keeps_trans [OF g(2) keeps_alike [OF a]])
    then show ?thesis using r alike_inv(4) [OF a] g(1,3) a by (simp add: keeps_def alike_def give_lock_def)
  qed
qed

text \<open>Priority donation changes priorities and the order of lists.\<close>

lemma donate_loop_ok:
  "donate_loop cnt cur p s = Some s' \<Longrightarrow> base d s \<Longrightarrow> one_running s \<Longrightarrow>
     steady d s s' \<and> (\<forall>x. sema_value (semas s' x) = sema_value (semas s x)) \<and> stacks s' = stacks s"
proof (induction cnt cur p s rule: donate_loop.induct)
  case (1 cnt cur p s)
  note b = "1.prems"(2,3)
  show ?case
  proof (cases "cur \<noteq> NULL \<and> cnt < 9")
    case False
    then show ?thesis using "1.prems" by (auto simp: donate_loop.simps [of cnt cur] steady_def)
  next
    case True
    then obtain th where th: "deref s cur = Some th" and r: "(if p \<le> priority th then Some s else do {
          s \<leftarrow> pl_update cur (upd_thread cur (\<lambda>th. th\<lparr>priority := p, donated := True\<rparr>) s);
          donate_loop (Suc cnt) (waiting_for_tlock (threads s cur)) p s }) = Some s'"
      using "1.prems"(1) unfolding donate_loop.simps [of cnt cur p s] Let_def by (auto simp: Option.bind_eq_Some_conv)
    show ?thesis
    proof (cases "p \<le> priority th")
      case True
      then show ?thesis using r b by (simp add: steady_def)
    next
      case False
      let ?s = "upd_thread cur (\<lambda>th. th\<lparr>priority := p, donated := True\<rparr>) s"
      obtain s1 where s1: "pl_update cur ?s = Some s1" and l: "donate_loop (Suc cnt) (waiting_for_tlock (threads s1 cur)) p s1 = Some s'"
        using r False by (auto simp: Option.bind_eq_Some_conv)
      have f: "only_priority (\<lambda>th. th\<lparr>priority := p, donated := True\<rparr>)" by simp
      note st = reprioritize_steady [OF b f s1] and rl = reprioritize_linked(3,7) [OF b(1) f s1]
      have "steady d s1 s' \<and> (\<forall>x. sema_value (semas s' x) = sema_value (semas s1 x)) \<and> stacks s' = stacks s1"
        by (rule "1.IH" [OF True th False refl s1 l steadyD [OF st]])
      then show ?thesis using steady_trans [OF st] rl by simp
    qed
  qed
qed

text \<open>The running thread waits for a lock that is not free.\<close>

lemma wait_for_lock:
  assumes i: "inv s" and n: "running s \<noteq> idle_thread s" and v: "sema_value (semas s (LockSema l)) = 0"
    and d: "sema_down (LockSema l) (push [C_give_lock l (running s) lv] s) = Some s'"
  shows "after s s'"
proof -
  let ?s = "s\<lparr>intr := INTR_OFF\<rparr>" and ?g = "C_give_lock l (running s) lv"
  let ?p = "C_sema_loop (LockSema l) (intr s)"
  have a: "alike s ?s" by simp
  have i': "inv ?s" using alike_inv(4) [OF a] i by simp
  have pi: "(push [?g] s)\<lparr>intr := INTR_OFF\<rparr> = push [?g] ?s" by (simp add: push_def)
  have "sema_loop (LockSema l) (intr s) (push [?g] ?s) = Some s'"
    using d by (simp add: sema_down_def intr_disable_def ASSERT_bind_Some_iff pi)
  moreover have "thread_current (push [?g] ?s) = Some (running s)" using thread_current_inv [OF i'] by (simp add: thread_current_def)
  ultimately obtain s1 where s1: "pl_insert (WaitersOf (LockSema l)) (running s) (push [?g] ?s) = Some s1"
      "thread_block (push [?p] s1) = Some s'"
    using v by (auto simp: sema_loop_def Option.bind_eq_Some_conv)
  obtain s0 where s0: "pl_insert (WaitersOf (LockSema l)) (running s) ?s = Some s0"
    using s1(1) by (auto simp: pl_insert_def ASSERT_bind_Some_iff elem_linked_def split: option.splits plist.splits)
  then have e: "s1 = push [?g] s0" using pl_insert_push [OF s0] s1(1) by simp
  have r: "running s0 = running s" using s0 by (auto simp: pl_insert_def ASSERT_bind_Some_iff)
  have pp: "push [?p] (push [?g] t) = push [?p, ?g] t" for t by (simp add: push_def)
  note b = invD(1) [OF i']
  have "base (ticks ?s) (push [?p, ?g] ?s)"
    unfolding push_def
    by (rule stack_change [OF b]) (use stack_okD(1,2) [OF baseD(6) [OF b]] n in auto)
  moreover have "pl_insert (WaitersOf (LockSema l)) (running ?s) ?s = Some s0" using s0 by simp
  ultimately have "after ?s s'" using block_on [OF i'] s1(2) n unfolding e pp by simp
  then show ?thesis by (rule alike_then [OF a])
qed

lemma lock_acquire_ok:
  assumes i: "inv s" and n: "running s \<noteq> idle_thread s" and l: "lock_acquire l s = Some s'"
  shows "after s s'"
proof -
  let ?s0 = "s\<lparr>intr := INTR_OFF\<rparr>" and ?c = "running s"
  have i0: "inv ?s0" using alike_inv(4) [of s ?s0] i by simp
  define lv where "lv = intr s"
  define don where "don = (\<lambda>s1. upd_thread ?c (\<lambda>th. th\<lparr>waiting_for_tlock := holder s1 l\<rparr>) s1)"
  define rest where "rest = (\<lambda>r s1. if r then intr_set_level lv s1
       else do {
         h \<leftarrow> deref (don s1) (holder (don s1) l);
         s \<leftarrow> (if priority h < priority (threads ?s0 ?c) \<and> \<not> thread_mlfqs (don s1) then lock_donate l (priority (threads ?s0 ?c)) (don s1)
              else Some (don s1));
         sema_down (LockSema l) (push [C_give_lock l ?c lv] s) })"
  have "(do { (r, s1) \<leftarrow> lock_try_acquire l ?s0; rest r s1 }) = Some s'"
    using l thread_current_inv [OF i0] thread_current_inv [OF i]
    unfolding lock_acquire_def intr_disable_def Let_def prod.case rest_def don_def lv_def
    by (simp add: lock_held_by_current_thread_def ASSERT_bind_Some_iff)
  then obtain r s1 where t: "lock_try_acquire l ?s0 = Some (r, s1)" and "rest r s1 = Some s'"
    by (auto simp: Option.bind_eq_Some_conv)
  then have e: "if r then intr_set_level lv s1 = Some s'
       else (\<exists>s3. (s3 = don s1 \<or> lock_donate l (priority (threads ?s0 ?c)) (don s1) = Some s3)
              \<and> sema_down (LockSema l) (push [C_give_lock l ?c lv] s3) = Some s')"
    by (auto simp: rest_def Option.bind_eq_Some_conv split: if_splits)
  note ta = lock_try_acquire_ok [OF i0 t]
  have k: "keeps s s1" "running s1 = ?c" "idle_thread s1 = idle_thread s" "inv s1" using ta by (simp_all add: keeps_def)
  show ?thesis
  proof (cases r)
    case True
    then have "alike s1 s'" using e intr_set_level_alike by auto
    then show ?thesis using after_keeps [OF k(1,2)] after_alike [OF k(4)] by blast
  next
    case False
    obtain s3 where s3: "s3 = don s1 \<or> lock_donate l (priority (threads ?s0 ?c)) (don s1) = Some s3"
      and d: "sema_down (LockSema l) (push [C_give_lock l ?c lv] s3) = Some s'" using e False by auto
    have a: "alike s1 (don s1)" by (simp add: don_def view_def)
    have i2: "inv (don s1)" using alike_inv(4) [OF a] k(4) by simp
    have v: "sema_value (semas (don s1) (LockSema l)) = 0" using ta False by (simp add: don_def)
    have "steady (ticks (don s1)) (don s1) s3 \<and> sema_value (semas s3 (LockSema l)) = 0"
      using s3 donate_loop_ok [OF _ invD(1,2) [OF i2]] invD(1,2) [OF i2] v by (auto simp: lock_donate_def steady_def)
    then have st: "steady (ticks (don s1)) (don s1) s3" and v3: "sema_value (semas s3 (LockSema l)) = 0" by simp_all
    note af = steady_after [OF i2 st]
    have i3: "inv s3" using af by (simp add: after_def)
    have r3: "running s3 = ?c" "idle_thread s3 = idle_thread s" using st k(2,3) by (simp_all add: steady_def don_def)
    have "after s3 s'" by (rule wait_for_lock [OF i3 _ v3]) (use d r3 n in simp_all)
    then have "after (don s1) s'" using after_trans [OF af] r3 k(2) by (simp add: don_def)
    then show ?thesis using alike_then [OF a] after_keeps [OF k(1,2)] by blast
  qed
qed

end
