(* ===== verification/Sched_Reach.thy ===== *)
theory Sched_Reach
  imports Sched_Safe
begin

text \<open>
  Every pending call, every call that a thread makes and every timer interrupt keeps the invariant of theory
  \<^verbatim>\<open>Sched_Inv\<close>, so that it holds in every state the kernel can reach. The properties of the scheduler, of sleeping
  threads and of locks follow.
\<close>

section \<open>Handing over a lock\<close>

lemma popped_claim:
  assumes b: "base d s" and c: "stacks s (running s) = c # cs" and x: "claims (c # cs) = xs @ claims cs" "r \<in> set xs"
  shows "unclaimed (popped s) r" "claim_ok (popped s) r"
proof -
  note so = stack_okD [OF baseD(6) [OF b]]
  have r: "r \<in> set (claims (stacks s (running s)))" using c x by simp
  have "r \<notin> set (claims cs)" using so(2) [of "running s"] c x by auto
  moreover have "r \<notin> set (claims (stacks s v))" if "v \<noteq> running s" for v using so(3) [OF that] r by blast
  ultimately show "unclaimed (popped s) r" using c by (auto simp: unclaimed_def popped_def)
  show "claim_ok (popped s) r" using so(4) [OF r] by (cases r) (auto simp: limbo_def)
qed

lemma acquire_tail_ok:
  assumes i: "inv s" and l: "unclaimed s (Token l)" "claim_ok s (Token l)" and a: "acquire_tail l t lv s = Some s'"
  shows "after s s'"
proof -
  note g = give_lock_ok [OF i l(1), of t]
  have al: "alike (give_lock l t s) s'" using a intr_set_level_alike by (auto simp: acquire_tail_def)
  show ?thesis by (rule after_keeps [OF g(2,3) after_alike [OF g(1) al]]) (use l(2) in simp_all)
qed

lemma lock_loop_ok:
  assumes i: "inv s" and n: "running s \<noteq> idle_thread s" and c: "stacks s (running s) = C_sema_loop (LockSema l) lv # cs"
    and e: "sema_loop (LockSema l) lv (popped s) = Some s'"
  shows "after s s'"
proof (cases "sema_value (semas s (LockSema l)) = 0")
  case True
  have "(stacks s)(running s := C_sema_loop (LockSema l) lv # cs) = stacks s" using c by (simp add: fun_upd_idem)
  then have pp: "push [C_sema_loop (LockSema l) lv] (popped s) = s" using c by (simp add: push_def popped_def)
  have "thread_current (popped s) = Some (running s)" using thread_current_inv [OF i] by (simp add: thread_current_def)
  then obtain s1 where s1: "pl_insert (WaitersOf (LockSema l)) (running s) (popped s) = Some s1"
      "thread_block (push [C_sema_loop (LockSema l) lv] s1) = Some s'"
    using e True by (auto simp: sema_loop_def Option.bind_eq_Some_conv)
  have p': "pl_insert (WaitersOf (LockSema l)) (running s) s = Some (push [C_sema_loop (LockSema l) lv] s1)"
    using pl_insert_push [OF s1(1), of "[C_sema_loop (LockSema l) lv]"] pp by simp
  have pn: "push [] t = t" for t :: kstate by (simp add: push_def fun_upd_idem)
  show ?thesis by (rule block_on [OF i n, of "[]", unfolded pn, OF invD(1) [OF i] p' s1(2)]) simp
next
  case False
  note b = invD(1) [OF i]
  let ?s = "upd_sema (LockSema l) (\<lambda>m. m\<lparr>sema_value := sema_value m - 1\<rparr>) s"
  have f: "unclaimed s (Token l)" "holder s l = NULL" "sema_value (semas s (LockSema l)) = 1"
    using token_free [OF b] baseD(7) [OF b] False by (auto simp: lock_ok_def intro: word_le_one)
  have b1: "base (ticks s) ?s" by (rule set_value [OF b]) (use f in auto)
  note so = stack_okD(1,2) [OF baseD(6) [OF b], where u = "running s"]
  obtain t lv' cs' where cs: "cs = C_give_lock l t lv' # cs'" using so(1) c by (cases cs) auto
  have "Token l \<notin> set (claims cs')" using f(1) c cs by (auto simp: unclaimed_def dest: spec [of _ "running s"])
  then have "base (ticks s) (?s\<lparr>stacks := (stacks ?s)(running s := cs)\<rparr>)"
    by (intro stack_change [OF b1]) (use so c cs f n in \<open>auto simp: unclaimed_def\<close>)
  moreover have "?s\<lparr>stacks := (stacks ?s)(running s := cs)\<rparr> = upd_sema (LockSema l) (\<lambda>m. m\<lparr>sema_value := sema_value m - 1\<rparr>) (popped s)"
    using c by (simp add: upd_sema_def popped_def)
  ultimately have "inv (upd_sema (LockSema l) (\<lambda>m. m\<lparr>sema_value := sema_value m - 1\<rparr>) (popped s))"
    using invD(2) [OF i] by (simp add: inv_def)
  moreover have "alike (upd_sema (LockSema l) (\<lambda>m. m\<lparr>sema_value := sema_value m - 1\<rparr>) (popped s)) s'"
    using e False intr_set_level_alike by (auto simp: sema_loop_def)
  ultimately show ?thesis by (intro after_keeps [OF _ _ after_alike]) (simp_all add: keeps_def)
qed

lemma lock_release_ok:
  assumes i: "inv s" and n: "running s \<noteq> idle_thread s" and e: "lock_release l s = Some s'"
  shows "inv s' \<and> holder s l = running s \<and> holder s' = (holder s)(l := NULL) \<and> running s' = running s \<and> ticks s' = ticks s
    \<and> sleeping_list s' = sleeping_list s"
proof -
  let ?c = "running s" and ?f = "\<lambda>th. th\<lparr>acquired_locks := remove1 l (acquired_locks th)\<rparr>"
  define s1 where "s1 = upd_thread ?c ?f (s\<lparr>intr := INTR_OFF\<rparr>)"
  define s2 where "s2 = upd_thread ?c (\<lambda>th. th\<lparr>priority := original_priority th, donated := False\<rparr>) s1"
  have a: "alike s s1" by (rule alike_trans [of _ "s\<lparr>intr := INTR_OFF\<rparr>"]) (simp_all add: s1_def view_def)
  have i1: "inv s1" using alike_inv(4) [OF a] i by simp
  have r1: "running s1 = ?c" "ticks s1 = ticks s" by (simp_all add: s1_def)
  have st2: "steady (ticks s) s1 s2"
    using reprioritize_running [OF invD(1,2) [OF i1]] r1 by (simp add: s2_def)
  have st2': "steady (ticks s) s1 (upd_thread ?c (\<lambda>th. th\<lparr>priority := p, donated := True\<rparr>) s2)" for p
    by (rule steady_trans [OF st2]) (use reprioritize_running [OF steadyD [OF st2]] r1 in \<open>simp add: s2_def\<close>)
  have st1: "steady (ticks s) s1 s1" using invD(1,2) [OF i1] r1 by (simp add: steady_def)
  define s3 where "s3 = (if \<not> thread_mlfqs s1 then
      (if acquired_locks (threads s2 ?c) \<noteq> [] \<and> original_priority (threads s2 ?c) < next_potential_donation ?c s2
       then upd_thread ?c (\<lambda>th. th\<lparr>priority := next_potential_donation ?c s2, donated := True\<rparr>) s2 else s2) else s1)"
  have st: "steady (ticks s) s1 s3" using st1 st2 st2' by (simp add: s3_def)
  have held: "holder s l = ?c"
    using e thread_current_inv [OF i] by (auto simp: lock_release_def lock_held_by_current_thread_def ASSERT_bind_Some_iff)
  obtain s4 where s4: "intr_set_level (intr s) (s3\<lparr>holder := (holder s3)(l := NULL)\<rparr>) = Some s4"
      and s': "s' = push [C_sema_up (LockSema l)] s4"
    using e thread_current_inv [OF i] thread_current_inv [of "s\<lparr>intr := INTR_OFF\<rparr>"] alike_inv(4) [of s "s\<lparr>intr := INTR_OFF\<rparr>"] i
    unfolding lock_release_def intr_disable_def Let_def prod.case s3_def s2_def s1_def
    by (simp add: ASSERT_bind_Some_iff Option.bind_eq_Some_conv lock_held_by_current_thread_def) blast
  have h3: "holder s3 = holder s" "running s3 = ?c" "ticks s3 = ticks s" "sleeping_list s3 = sleeping_list s" "idle_thread s3 = idle_thread s"
    using st by (simp_all add: steady_def s1_def)
  note b3 = steadyD [OF st]
  have u: "unclaimed s3 (Token l)" and v: "sema_value (semas s3 (LockSema l)) = 0"
    using token_free [OF b3(1)] baseD(7) [OF b3(1)] held h3 invD(5) [OF i] by (auto simp: lock_ok_def)
  let ?s = "s3\<lparr>holder := (holder s3)(l := NULL)\<rparr>"
  have b: "base (ticks s) ?s" by (rule set_holder [OF b3(1) u]) simp
  have "base (ticks s) (push [C_sema_up (LockSema l)] ?s)"
    unfolding push_def
    by (rule stack_change [OF b]) (use u v h3 n stack_okD(1,2) [OF baseD(6) [OF b]] in \<open>auto simp: unclaimed_def\<close>)
  moreover have e': "s' = (push [C_sema_up (LockSema l)] ?s)\<lparr>intr := intr s\<rparr>"
    using intr_set_level_alike [OF s4] s' by (simp add: push_def)
  moreover have "alike (push [C_sema_up (LockSema l)] ?s) s'" unfolding e' by (rule alike_updates)
  ultimately show ?thesis
    using alike_inv(4) [of "push [C_sema_up (LockSema l)] ?s" s'] b3(2) h3 held by (simp add: inv_def one_running_def)
qed

section \<open>Conditions\<close>

lemma push_plain_ok:
  assumes i: "inv s" and a: "alike s s1" and n: "running s \<noteq> idle_thread s" and p: "\<forall>c \<in> set cs. plain (running s) c"
  shows "after s (push cs s1)"
proof -
  have r: "running s1 = running s" "idle_thread s1 = idle_thread s" using a by (simp_all add: alike_def)
  have i1: "inv s1" using alike_inv(4) [OF a] i by simp
  have "base (ticks s1) (push cs s1)" by (rule push_plain [OF invD(1) [OF i1]]) (use p n r in simp_all)
  then have "inv (push cs s1)" using invD(2) [OF i1] by (simp add: inv_def)
  then show ?thesis using keeps_alike [OF a] r by (simp add: after_def keeps_def)
qed

lemma cond_wait_ok:
  assumes i: "inv s" and n: "running s \<noteq> idle_thread s" and e: "cond_wait c l s = Some s'"
  shows "after s s'"
proof -
  let ?s = "sema_init (WaiterSema (running s)) 0 s" and ?cs = "[C_lock_release l, C_sema_down (WaiterSema (running s)), C_lock_acquire l]"
  have sel: "running ?s = running s" "idle_thread ?s = idle_thread s" "ticks ?s = ticks s" "holder ?s = holder s"
      "sleeping_list ?s = sleeping_list s" "threads ?s = threads s" by (simp_all add: sema_init_def)
  have "one_running (sema_init x v s) = one_running s" for x v by (simp add: one_running_def is_thread_def sema_init_def)
  then have "inv ?s" using reinit_waiter [OF invD(1) [OF i]] invD(2) [OF i] sel(3) by (simp add: inv_def)
  moreover obtain cds where "s' = push ?cs (?s\<lparr>conds := cds\<rparr>)"
    using e thread_current_inv [OF i] by (auto simp: cond_wait_def lock_held_by_current_thread_def ASSERT_bind_Some_iff Let_def)
  ultimately have "after ?s s'" using push_plain_ok [of ?s "?s\<lparr>conds := cds\<rparr>" ?cs] n sel by simp
  then show ?thesis by (rule after_keeps [rotated 2]) (simp_all add: keeps_def sel)
qed

lemma cond_signal_ok:
  assumes i: "inv s" and n: "running s \<noteq> idle_thread s" and e: "cond_signal c l s = Some s'"
  shows "after s s'"
proof -
  obtain cds cs where "s' = push cs (s\<lparr>conds := cds\<rparr>)" "\<forall>c \<in> set cs. plain (running s) c"
  proof -
    let ?s = "cond_sort_priority c s"
    have "s' = push [] ?s \<or> (\<exists>w ws. s' = push [C_sema_up (WaiterSema w)] (?s\<lparr>conds := (conds ?s)(c := ws)\<rparr>))"
      using e by (auto simp: cond_signal_def ASSERT_bind_Some_iff push_def Let_def split: list.splits bind_splits)
    then show thesis using that by (auto simp: cond_sort_priority_def)
  qed
  then show ?thesis using push_plain_ok [OF i _ n] by simp
qed

lemma cond_broadcast_ok:
  assumes i: "inv s" and n: "running s \<noteq> idle_thread s" and e: "cond_broadcast c l s = Some s'"
  shows "after s s'"
proof (cases "conds s c = []")
  case True
  then show ?thesis using e i by (simp add: cond_broadcast_def after_def)
next
  case False
  have p: "after s (push [C_cond_broadcast c l] s)" by (rule push_plain_ok [OF i _ n]) simp_all
  then have "after (push [C_cond_broadcast c l] s) s'"
    using cond_signal_ok [of "push [C_cond_broadcast c l] s" c l s'] e False n by (simp add: cond_broadcast_def after_def)
  then show ?thesis using after_trans [OF p] by simp
qed

section \<open>Creating threads\<close>

lemma new_thread:
  assumes b: "base d s" and t: "\<not> is_thread s t" "t \<noteq> NULL" "t \<noteq> running s" and th: "status th = THREAD_BLOCKED" "magic th = THREAD_MAGIC"
    and s': "s' = s\<lparr>threads := (threads s)(t := th), stacks := (stacks s)(t := [])\<rparr>"
  shows "base d s'" "limbo s' t" "unclaimed s' (Creates t)" "one_running s \<Longrightarrow> one_running s'"
proof -
  let ?s = "s\<lparr>stacks := (stacks s)(t := [])\<rparr>"
  have b0: "base d ?s" by (rule stack_change [OF b]) simp_all
  have sel: "pl_list s' = pl_list ?s" "sleeping_list s' = sleeping_list ?s" "idle_thread s' = idle_thread ?s" "stacks s' = stacks ?s"
      "running s' = running s" "semas s' = semas ?s" "holder s' = holder ?s"
      and ths: "threads s' u = (if u = t then th else threads ?s u)" for u by (simp_all add: s')
  have al: "is_thread s' u = (u = t \<or> is_thread ?s u)" "is_thread ?s u = is_thread s u" for u
    using t(2) th(2) by (simp_all add: is_thread_def ths s')
  note l = baseD(1) [OF b0, unfolded linked_ok_def] and io = baseD(3) [OF b, unfolded idle_out_def]
  have mem: "is_thread s u" if "u \<in> set (pl_list ?s q) \<or> u \<in> set (sleeping_list ?s)" for u q
    using that baseD(1) [OF b] by (auto simp: linked_ok_def)
  have out: "t \<notin> set (pl_list ?s q)" "t \<notin> set (sleeping_list ?s)" for q using mem [of t q] t(1) by auto
  have ti: "t \<noteq> idle_thread ?s" using conjunct2 [OF conjunct2 [OF io]] t(1,2) by auto
  show "limbo s' t" using out ti t(3) th(1) by (simp add: limbo_def sel al ths)
  have cr: "unclaimed ?s (Creates t)" by (rule not_limbo_unclaimed [OF b0]) (use t(1) al(2) in \<open>simp add: limbo_def\<close>)
  then show "unclaimed s' (Creates t)" by (simp add: unclaimed_def sel)
  have o: "in_order (thread_cmp s') (pl_list ?s q) = in_order (thread_cmp ?s) (pl_list ?s q)" for q
    by (rule in_order_cong) (use out(1) [of q] in \<open>auto simp: ths\<close>)
  have "linked_ok s'"
    unfolding linked_ok_def sel
  proof (intro conjI allI ballI impI)
    fix q u assume "u \<in> set (pl_list ?s q)"
    then show "is_thread s' u" "status (threads s' u) = list_status q" "thread_pl (threads s' u) = Some q"
      using l out(1) [of q] by (auto simp: al(1) ths)
  next
    fix u assume u: "u \<in> set (sleeping_list ?s)"
    then show "is_thread s' u" "status (threads s' u) = THREAD_BLOCKED" using l out(2) by (auto simp: al(1) ths)
    show "u \<notin> set (pl_list ?s q)" for q using u l by blast
  next
    fix u assume "is_thread s' u \<and> status (threads s' u) = THREAD_READY"
    then show "u \<in> set (pl_list ?s ReadyList) \<or> u = idle_thread ?s" using l th(1) by (auto simp: al(1) ths split: if_splits)
  qed (use l in auto)
  moreover have "sorted_ok s'" using baseD(2) [OF b0] o by (simp add: sorted_ok_def sel)
  moreover have "idle_out s'" using baseD(3) [OF b0] ti by (auto simp: idle_out_def sel al(1) ths)
  moreover have "waiter_ok s'" using baseD(4) [OF b0] by (simp add: waiter_ok_def sel)
  moreover have "deadline_ok d s'" using baseD(5) [OF b0] out(2) by (auto simp: deadline_ok_def sel ths)
  moreover have "stack_ok s'"
  proof (rule stack_ok_keep [OF baseD(6) [OF b0]])
    fix r assume r: "\<not> unclaimed ?s r" "claim_ok ?s r"
    then show "claim_ok s' r" using cr t(1) al(2) by (cases r) (auto simp: limbo_def sel al ths)
  qed (simp_all only: sel)
  moreover have "lock_ok s'" using baseD(7) [OF b0] by (simp add: lock_ok_def sel)
  ultimately show "base d s'" by (simp add: base_def)
  show "one_running s'" if "one_running s" using that t(3) th(1) unfolding one_running_def sel al ths by auto
qed

lemma init_thread_eq:
  assumes "init_thread t nm pri s = Some s'"
  obtains th where "status th = THREAD_BLOCKED" "magic th = THREAD_MAGIC" "t \<noteq> NULL"
    "s' = s\<lparr>threads := (threads s)(t := th), stacks := (stacks s)(t := []), all_list := all_list s @ [t]\<rparr>"
proof -
  let ?p = "if thread_mlfqs s then PRI_DEFAULT else pri"
  let ?th = "\<lparr>tid = 0, status = THREAD_BLOCKED, name = take 15 nm, priority = ?p, original_priority = ?p, nice = 0, recent_cpu = 0,
    start = - 1, sleep = - 1, recently_up = False, donated = False, thread_pl = None, waiting_for_tlock = NULL, acquired_locks = [],
    has_pagedir = False, magic = THREAD_MAGIC\<rparr>"
  have "t \<noteq> NULL \<and> s' = s\<lparr>threads := (threads s)(t := ?th), stacks := (stacks s)(t := []), all_list := all_list s @ [t]\<rparr>"
    using assms by (auto simp: init_thread_def intr_disable_def ASSERT_bind_Some_iff Let_def dest!: intr_set_level_alike)
  then show thesis by (intro that [of ?th]) simp_all
qed

lemma thread_create_ok:
  assumes i: "inv s" and n: "running s \<noteq> idle_thread s" and f: "\<not> is_thread s t"
    and c: "\<forall>r \<in> set (idle_claim f). unclaimed s r \<and> claim_ok s r" "idle_func_ok f" and e: "thread_create t nm pri f s = Some s'"
  shows "after s s'"
proof (cases "t = NULL")
  case True
  then show ?thesis using e i by (simp add: thread_create_def after_def)
next
  case False
  obtain s1 where s1: "init_thread t nm pri s = Some s1"
    and s': "s' = push [C_lock_acquire TidLock, C_allocate_tid t, C_lock_release TidLock, C_create_tail t f] s1"
    using e False by (auto simp: thread_create_def Option.bind_eq_Some_conv)
  from s1 obtain th where th: "status th = THREAD_BLOCKED" "magic th = THREAD_MAGIC"
    and e1: "s1 = s\<lparr>threads := (threads s)(t := th), stacks := (stacks s)(t := []), all_list := all_list s @ [t]\<rparr>"
    by (rule init_thread_eq)
  let ?s = "s\<lparr>threads := (threads s)(t := th), stacks := (stacks s)(t := [])\<rparr>"
  let ?cs = "[C_lock_acquire TidLock, C_allocate_tid t, C_lock_release TidLock, C_create_tail t f]"
  have tr: "t \<noteq> running s" using f invD(3) [OF i] by auto
  note nt = new_thread [OF invD(1) [OF i] f False tr th refl]
  note so = stack_okD(1,2) [OF baseD(6) [OF nt(1)], where u = "running s"]
  have icl: "set (idle_claim f) \<subseteq> {IdleStart}" "distinct (idle_claim f)" by (cases f; simp)+
  have ic: "unclaimed ?s r \<and> claim_ok ?s r" if "r \<in> set (idle_claim f)" for r
  proof -
    have "r = IdleStart" using that icl by auto
    then show ?thesis using c(1) that by (auto simp: unclaimed_def)
  qed
  have un: "r \<notin> set (claims (stacks s (running s)))" if "r \<in> insert (Creates t) (set (idle_claim f))" for r
  proof -
    have "unclaimed ?s r" using that nt(3) ic by blast
    then have "r \<notin> set (claims (stacks ?s (running s)))" unfolding unclaimed_def by blast
    then show ?thesis using tr by simp
  qed
  have "base (ticks s) (push ?cs ?s)"
    unfolding push_def
  proof (rule stack_change [OF nt(1)])
    show "distinct (claims (?cs @ stacks ?s (running ?s)))" using so(2) un icl tr by auto
    show "unclaimed ?s r \<and> claim_ok ?s r" if "r \<in> set (claims (?cs @ stacks ?s (running ?s)))" "r \<notin> set (claims (stacks ?s (running ?s)))" for r
      using that nt(2,3) ic by auto
  qed (use so(1) c(2) n in auto)
  then have "inv (push ?cs ?s)" using nt(4) invD(2) [OF i] by (simp add: inv_def)
  moreover have "alike (push ?cs ?s) s'"
  proof -
    have "s' = (push ?cs ?s)\<lparr>all_list := all_list s @ [t]\<rparr>" unfolding s' e1 by (simp add: push_def)
    then show ?thesis by (simp only: alike_updates)
  qed
  ultimately have "after (push ?cs ?s) s'" by (rule after_alike)
  then show ?thesis by (rule after_keeps [rotated 2]) (simp_all add: keeps_def)
qed

lemma create_tail_ok:
  assumes i: "inv s" and c: "\<forall>r \<in> set (Creates t # idle_claim f). unclaimed s r \<and> claim_ok s r" "idle_func_ok f"
    and e: "create_tail t f s = Some s'"
  shows "after s s'"
proof -
  let ?s = "s\<lparr>stacks := (stacks s)(t := [C_kernel_thread f])\<rparr>"
  have "distinct (idle_claim f)" "Creates t \<notin> set (idle_claim f)" by (cases f; simp)+
  then have u: "unclaimed ?s (Creates t)" "base (ticks s) ?s"
    using c by (auto simp: unclaimed_def limbo_def intro!: stack_change [OF invD(1) [OF i]])
  then have "inv ?s" using invD(2) [OF i] by (simp add: inv_def)
  then have "after ?s s'" by (rule thread_unblock_ok) (use c e u(1) in \<open>auto simp: limbo_def create_tail_def ASSERT_bind_Some_iff\<close>)
  then show ?thesis by (rule after_keeps [rotated 2]) (simp_all add: keeps_def)
qed

text \<open>The thread that runs \<^verbatim>\<open>idle\<close> becomes the idle thread.\<close>

lemma set_idle:
  assumes b: "base d s" "one_running s" and n: "idle_thread s = NULL" "unclaimed s IdleStart" "stacks s (running s) = []"
  shows "base d (s\<lparr>idle_thread := running s\<rparr>)"
proof -
  let ?s = "s\<lparr>idle_thread := running s\<rparr>"
  have al: "is_thread ?s u = is_thread s u" for u by (simp add: is_thread_def)
  note l = baseD(1) [OF b(1), unfolded linked_ok_def] and o = b(2) [unfolded one_running_def]
  have rd: "u \<in> set (pl_list s ReadyList)" if "is_thread s u" "status (threads s u) = THREAD_READY" for u
    using that l n(1) by (metis is_thread_def)
  have sl: "status (threads s u) = THREAD_BLOCKED" if "u \<in> set (sleeping_list s)" for u using l that by blast
  have "linked_ok ?s" using l rd by (simp add: linked_ok_def al)
  moreover have "idle_out ?s"
    using o sl [of "running s"] running_free [OF b] by (auto simp: idle_out_def al)
  moreover have "stack_ok ?s"
  proof -
    have "claim_ok ?s r" if "r \<in> set (claims (stacks s u))" for r u
      using stack_okD(4) [OF baseD(6) [OF b(1)] that] that n(2) by (cases r) (auto simp: limbo_def al unclaimed_def)
    then show ?thesis using stack_okD(1-3) [OF baseD(6) [OF b(1)]] n(3) by (simp add: stack_ok_def)
  qed
  moreover have "thread_cmp ?s = thread_cmp s" by (simp add: thread_cmp_def fun_eq_iff)
  ultimately show ?thesis
    using b(1) by (simp add: base_def sorted_ok_def waiter_ok_def deadline_ok_def lock_ok_def)
qed

lemma kernel_thread_ok:
  assumes i: "inv s" and c: "\<forall>r \<in> set (idle_claim f). unclaimed s r \<and> claim_ok s r" "idle_func_ok f" "stacks s (running s) = []"
    and e: "kernel_thread f s = Some s'"
  shows "after s s'"
proof -
  let ?s = "s\<lparr>intr := INTR_ON\<rparr>"
  have i0: "inv ?s" using alike_inv(4) [of s ?s] i by simp
  show ?thesis
  proof (cases f)
    case Func
    then have "s' = ?s" using e by (auto simp: kernel_thread_def intr_enable_def ASSERT_bind_Some_iff)
    then show ?thesis using after_alike [OF i] by simp
  next
    case (Idle y)
    then obtain x where y: "y = Sema x" using c(2) by (cases y) auto
    let ?s1 = "?s\<lparr>idle_thread := running s\<rparr>"
    have s': "s' = push [C_sema_up (Sema x), C_idle_loop] ?s1"
      using e Idle y thread_current_inv [OF i0] by (auto simp: kernel_thread_def intr_enable_def ASSERT_bind_Some_iff)
    have "base (ticks s) ?s1" using set_idle [OF invD(1,2) [OF i0]] c Idle by (simp add: unclaimed_def)
    then have "base (ticks s) s'" unfolding s' by (rule push_plain) simp_all
    moreover have "one_running ?s1" using invD(2) [OF i0] by (simp add: one_running_def is_thread_def)
    ultimately have "inv s'" by (simp add: inv_def s')
    then show ?thesis by (simp add: after_def keeps_def s')
  qed
qed

section \<open>Executing a pending call\<close>

text \<open>
  What a call does to the rest of the system: as \<^const>\<open>after\<close>, but \<^verbatim>\<open>lock_release\<close> takes the lock away from the thread
  that executes it.
\<close>

definition moved :: "call \<Rightarrow> kstate \<Rightarrow> kstate \<Rightarrow> bool" where
  "moved c s s' \<longleftrightarrow> inv s' \<and> ticks s' = ticks s \<and> set (sleeping_list s) \<subseteq> set (sleeping_list s')
     \<and> (running s' = running s \<or> top_ok s')
     \<and> (\<forall>l. holder s l \<noteq> NULL \<longrightarrow> holder s' l = holder s l \<or> (c = C_lock_release l \<and> holder s l = running s \<and> holder s' l = NULL))"

lemma after_moved: "after s s' \<Longrightarrow> moved c s s'"
  by (auto simp: after_def keeps_def moved_def)

lemma not_idle:
  assumes i: "inv s" and c: "stacks s (running s) = c # cs" "\<not> idle_call c"
  shows "running s \<noteq> idle_thread s"
proof
  assume r: "running s = idle_thread s"
  then have "\<forall>c \<in> set (stacks s (running s)). idle_call c"
    using stack_okD(5) [OF baseD(6) [OF invD(1) [OF i]]] invD(5) [OF i] by simp
  then show False using c by simp
qed

lemma popped_inv: "inv s \<Longrightarrow> stacks s (running s) = c # cs \<Longrightarrow> (\<And>l lv. c \<noteq> C_sema_loop (LockSema l) lv) \<Longrightarrow> inv (popped s)"
  using pop_base [of "ticks s" s c cs] by (simp add: inv_def)

lemma after_popped: "after (popped s) s' \<Longrightarrow> after s s'"
  by (simp add: after_def keeps_def)

lemma wf_sema:
  "wf_stack u (C_sema_down x # cs) \<Longrightarrow> no_lock x \<and> (\<forall>w. x = WaiterSema w \<longrightarrow> w = u)"
  "wf_stack u (C_sema_try_down x # cs) \<Longrightarrow> no_lock x"
  "wf_stack u (C_sema_loop x lv # cs) \<Longrightarrow> (\<exists>l. x = LockSema l) \<or> no_lock x \<and> (\<forall>w. x = WaiterSema w \<longrightarrow> w = u)"
  by (cases x; simp add: no_lock_def)+

text \<open>The calls of the scheduler, of semaphores and of locks.\<close>

lemma exec_claims:
  assumes i: "inv s" and c: "stacks s (running s) = c # cs" and fr: "fresh_page s" and e: "exec c (popped s) = Some s'"
    and x: "(\<exists>t nm p f. c = C_thread_create t nm p f) \<or> (\<exists>t f. c = C_create_tail t f) \<or> (\<exists>f. c = C_kernel_thread f)
      \<or> (\<exists>x. c = C_sema_up x) \<or> (\<exists>l t lv. c = C_give_lock l t lv)"
  shows "after (popped s) s'"
proof -
  note b = invD(1) [OF i]
  have ip: "inv (popped s)" by (rule popped_inv [OF i c]) (use x in auto)
  have wf: "wf_stack (running s) (c # cs)" using stack_okD(1) [OF baseD(6) [OF b], of "running s"] c by simp
  have cl: "\<forall>r \<in> set xs. unclaimed (popped s) r \<and> claim_ok (popped s) r" if "claims (c # cs) = xs @ claims cs" for xs
    using popped_claim [OF b c that] by blast
  note ni = not_idle [OF i c]
  from x show ?thesis
  proof (elim disjE exE)
    fix t nm p f assume x: "c = C_thread_create t nm p f"
    then show ?thesis using thread_create_ok [OF ip, of t f nm p] ni wf cl [of "idle_claim f"] e fr c by (simp add: fresh_page_def)
  next
    fix t f assume x: "c = C_create_tail t f"
    then show ?thesis using create_tail_ok [OF ip, of t f] wf cl [of "Creates t # idle_claim f"] e by simp
  next
    fix f assume x: "c = C_kernel_thread f"
    then show ?thesis using kernel_thread_ok [OF ip, of f] wf cl [of "idle_claim f"] e c by (simp add: popped_def)
  next
    fix y assume x: "c = C_sema_up y"
    have "unclaimed (popped s) (Token l) \<and> claim_ok (popped s) (Token l)" if "y = LockSema l" for l
      using cl [of "[Token l]"] x that by simp
    moreover have "\<exists>n. y = Sema n" if "running s = idle_thread s" using ni that x by (cases y) auto
    ultimately show ?thesis using sema_up_ok [OF ip, of y] e x by simp
  next
    fix l t lv assume x: "c = C_give_lock l t lv"
    then show ?thesis using acquire_tail_ok [OF ip, of l t lv] cl [of "[Token l]"] e by simp
  qed
qed

text \<open>The calls of threads other than the idle thread that claim nothing.\<close>

lemma shared_ok:
  assumes i: "inv s" and n: "running s \<noteq> idle_thread s"
  shows "after s (lock_acquire_exclusive x s)" "after s (exclusive_loop x s)" "after s (lock_acquire_shared x s)" "after s (shared_loop x s)"
    "after s (lock_release_shared x s)" "after s (shared_drop x s)" "after s (lock_release_exclusive x s)" "after s (exclusive_drop x s)"
  by (auto simp: lock_acquire_exclusive_def exclusive_loop_def lock_acquire_shared_def shared_loop_def lock_release_shared_def
      shared_drop_def lock_release_exclusive_def exclusive_drop_def Let_def intro!: push_plain_ok [OF i _ n])

lemma allocate_tid_alike: "alike s (allocate_tid t s)"
  by (rule alike_trans [of _ "upd_thread t (\<lambda>th. th\<lparr>tid := next_tid s\<rparr>) s"]) (simp_all add: allocate_tid_def view_def)

fun thread_call :: "call \<Rightarrow> bool" where
  "thread_call C_thread_yield = True"
| "thread_call C_thread_exit = True"
| "thread_call (C_thread_set_priority p) = True"
| "thread_call (C_thread_set_nice n) = True"
| "thread_call (C_allocate_tid t) = True"
| "thread_call (C_timer_sleep n) = True"
| "thread_call (C_lock_acquire l) = True"
| "thread_call (C_lock_try_acquire l) = True"
| "thread_call (C_cond_wait c l) = True"
| "thread_call (C_cond_signal c l) = True"
| "thread_call (C_cond_broadcast c l) = True"
| "thread_call (C_acquire_exclusive x) = True"
| "thread_call (C_exclusive_loop x) = True"
| "thread_call (C_acquire_shared x) = True"
| "thread_call (C_shared_loop x) = True"
| "thread_call (C_release_shared x) = True"
| "thread_call (C_shared_drop x) = True"
| "thread_call (C_release_exclusive x) = True"
| "thread_call (C_exclusive_drop x) = True"
| "thread_call _ = False"

lemma exec_thread:
  assumes i: "inv s" and n: "running s \<noteq> idle_thread s" and c: "thread_call c" and e: "exec c s = Some s'"
  shows "after s s'"
proof (cases c)
  case (C_lock_try_acquire l)
  then obtain r where "lock_try_acquire l s = Some (r, s')" using e by auto
  then show ?thesis using lock_try_acquire_ok [OF i] by (simp add: after_def)
next
  case (C_allocate_tid t)
  then show ?thesis using after_alike [OF i allocate_tid_alike] e by auto
qed (use c e thread_yield_ok [OF i] thread_exit_ok [OF i n] set_priority_ok [OF i n] set_nice_ok [OF i n] timer_sleep_ok [OF i n]
    lock_acquire_ok [OF i n] cond_wait_ok [OF i n] cond_signal_ok [OF i n] cond_broadcast_ok [OF i n] shared_ok [OF i n] in auto)

lemma exec_ok:
  assumes i: "inv s" and c: "stacks s (running s) = c # cs" and fr: "fresh_page s" and e: "exec c (popped s) = Some s'"
  shows "moved c s s'"
proof (cases "\<exists>l lv. c = C_sema_loop (LockSema l) lv")
  case True
  then show ?thesis using lock_loop_ok [OF i not_idle [OF i c]] c e after_moved by auto
next
  case False
  then have ip: "inv (popped s)" by (intro popped_inv [OF i c]) auto
  have ni: "running (popped s) \<noteq> idle_thread (popped s)" if "\<not> idle_call c" using not_idle [OF i c that] by simp
  have am: "moved c s s'" if "after (popped s) s'" using after_moved [OF after_popped [OF that]] .
  have wf: "wf_stack (running s) (c # cs)" using stack_okD(1) [OF baseD(6) [OF invD(1) [OF i]], of "running s"] c by simp
  note cl = exec_claims [OF i c fr e, THEN am]
  have tc: "moved c s s'" if "thread_call c"
    using that am [OF exec_thread [OF ip ni that e]] by (cases c) simp_all
  show ?thesis
  proof (cases c)
    case (C_lock_release l)
    then show ?thesis using lock_release_ok [OF ip ni, of l s'] e by (auto simp: moved_def)
  next
    case (C_sema_loop x lv)
    then have "no_lock x \<and> (\<forall>w. x = WaiterSema w \<longrightarrow> w = running (popped s))" using wf_sema(3) [OF wf [unfolded C_sema_loop]] False by simp
    then show ?thesis using am sema_loop_ok [OF ip ni, of x lv s'] e C_sema_loop by simp
  next
    case (C_sema_down x)
    then have "no_lock x \<and> (\<forall>w. x = WaiterSema w \<longrightarrow> w = running (popped s))" using wf_sema(1) [OF wf [unfolded C_sema_down]] by simp
    then show ?thesis using am sema_down_ok [OF ip ni, of x s'] e C_sema_down by simp
  next
    case (C_sema_try_down x)
    then have "no_lock x" using wf_sema(2) [OF wf [unfolded C_sema_try_down]] by simp
    then show ?thesis using am sema_try_down_ok [OF ip] e C_sema_try_down by auto
  next
    case (C_sema_pop x)
    then show ?thesis using am sema_pop_ok [OF ip] e by auto
  next
    case (C_intr_set_level lv)
    then show ?thesis using am after_alike [OF ip] intr_set_level_alike e by auto
  next
    case C_sti_hlt
    then show ?thesis using am after_alike [OF ip] e by auto
  next
    case C_idle_loop
    then show ?thesis using am idle_loop_ok [OF ip] e by auto
  qed (use cl e tc in \<open>simp_all del: exec.simps(3-33)\<close>)
qed

section \<open>Reachable states\<close>

lemma boot_inv:
  assumes "boot mlfqs vals t t_idle x = Some s"
  shows "inv s"
proof -
  let ?s = "(lock_init TidLock (power_on mlfqs vals))\<lparr>ready_list := [], all_list := [], sleeping_list := [], load_avg := 0,
               load_avg_coefficient := 0, running := t, initial_thread := t\<rparr>"
  obtain s1 where s1: "init_thread t ''main'' PRI_DEFAULT ?s = Some s1"
    and s: "s = thread_start t_idle x (push [C_lock_acquire TidLock, C_allocate_tid t, C_lock_release TidLock]
        (upd_thread t (\<lambda>th. th\<lparr>status := THREAD_RUNNING\<rparr>) s1))"
    using assms by (auto simp: boot_def thread_init_def Option.bind_eq_Some_conv ASSERT_bind_Some_iff Let_def)
  from s1 obtain th where th: "status th = THREAD_BLOCKED" "magic th = THREAD_MAGIC" "t \<noteq> NULL"
    and e1: "s1 = ?s\<lparr>threads := (threads ?s)(t := th), stacks := (stacks ?s)(t := []), all_list := all_list ?s @ [t]\<rparr>"
    by (rule init_thread_eq)
  have al: "is_thread s u = (u = t)" for u
    using th by (auto simp: is_thread_def s e1 thread_start_def sema_init_def lock_init_def power_on_def THREAD_MAGIC_def)
  have pl: "pl_list s q = []" for q
    by (cases q) (auto simp: pl_list_def s e1 thread_start_def sema_init_def lock_init_def power_on_def split: sptr.splits)
  have st: "stacks s = (\<lambda>_. [])(t := [C_lock_acquire TidLock, C_allocate_tid t, C_lock_release TidLock,
      C_thread_create t_idle ''idle'' PRI_MIN (Idle (Sema x)), C_intr_set_level INTR_ON, C_sema_down (Sema x)])"
    by (auto simp: s e1 thread_start_def push_def sema_init_def lock_init_def power_on_def Let_def fun_eq_iff)
  have f: "running s = t" "idle_thread s = NULL" "sleeping_list s = []" "holder s l = NULL" "sema_value (semas s (LockSema l)) = 1"
      "status (threads s t) = THREAD_RUNNING" for l
    by (auto simp: s e1 thread_start_def sema_init_def lock_init_def power_on_def Let_def)
  have "linked_ok s" using f(6) by (simp add: linked_ok_def pl f(3) al)
  moreover have "sorted_ok s" by (simp add: sorted_ok_def pl)
  moreover have "idle_out s" "waiter_ok s" "deadline_ok (ticks s) s" "lock_ok s"
    by (simp_all add: idle_out_def waiter_ok_def deadline_ok_def lock_ok_def pl f)
  moreover have "stack_ok s" by (simp add: stack_ok_def st f)
  moreover have "one_running s" by (simp add: one_running_def f al)
  ultimately show ?thesis by (simp add: inv_def base_def)
qed

lemma api_call_plain: "api_call c \<Longrightarrow> plain u c"
  by (cases c rule: api_call.cases) (auto simp: plain_def)

lemma run_pending_cases:
  assumes "run_pending s = Some s'"
  obtains c cs where "stacks s (running s) = c # cs" "exec c (popped s) = Some s'"
  using assms by (auto simp: run_pending_def popped_def split: list.splits)

lemma call_ok:
  assumes i: "inv s" and n: "running s \<noteq> idle_thread s" and c: "api_call c"
  shows "after s (push [c] s)"
  by (rule push_plain_ok [OF i alike_refl n]) (simp add: api_call_plain [OF c])

lemma kstep_inv: "kstep s s' \<Longrightarrow> inv s \<Longrightarrow> inv s'"
proof (induction rule: kstep.induct)
  case (pending s s')
  from pending(2) obtain c cs where "stacks s (running s) = c # cs" "exec c (popped s) = Some s'" by (rule run_pending_cases)
  then show ?case using exec_ok [OF pending(3) _ pending(1)] by (simp add: moved_def)
next
  case (call s c)
  then show ?case using call_ok by (simp add: after_def)
next
  case (tick s s')
  then show ?case using tick_ok by blast
next
  case (scribble s j)
  then show ?case using alike_inv(4) [of s "s\<lparr>junk := j\<rparr>"] by simp
qed

lemma reachable_inv: "reachable s \<Longrightarrow> inv s"
  by (induction rule: reachable.induct) (auto intro: boot_inv kstep_inv)

lemma moved_kstep:
  assumes i: "inv s" and k: "kstep s s'"
  shows "(running s' = running s \<or> top_ok s')
    \<and> (\<forall>l. holder s l \<noteq> NULL \<longrightarrow> holder s' l = holder s l
         \<or> (\<exists>cs. stacks s (running s) = C_lock_release l # cs) \<and> holder s l = running s \<and> holder s' l = NULL)
    \<and> (\<forall>u \<in> set (sleeping_list s) - set (sleeping_list s'). start (threads s u) + sleep (threads s u) \<le> ticks s')"
  using k
proof cases
  case pending
  from pending(2) obtain c cs where c: "stacks s (running s) = c # cs" "exec c (popped s) = Some s'" by (rule run_pending_cases)
  then have "moved c s s'" using exec_ok [OF i _ pending(1)] by simp
  then show ?thesis using c(1) by (auto simp: moved_def)
next
  case (call c)
  then show ?thesis by simp
next
  case tick
  then show ?thesis using tick_ok [OF i tick(2)] by auto
next
  case (scribble j)
  then show ?thesis by simp
qed

section \<open>Executions\<close>

text \<open>An execution as a list of events: the running thread executes its next pending call, makes a call, or is interrupted.\<close>

datatype event = Run | Call call | Tick

fun step_event :: "event \<Rightarrow> kstate \<Rightarrow> kstate option" where
  "step_event Run s = (if fresh_page s then run_pending s else None)"
| "step_event (Call c) s =
     (if stacks s (running s) = [] \<and> running s \<noteq> idle_thread s \<and> intr s = INTR_ON \<and> api_call c then Some (push [c] s) else None)"
| "step_event Tick s = (if intr s = INTR_ON then intr_handler timer_interrupt s else None)"

lemma step_event_kstep: "step_event e s = Some s' \<Longrightarrow> kstep s s'"
  by (cases e) (auto intro: kstep.intros split: if_splits)

definition play :: "event list \<Rightarrow> kstate \<Rightarrow> kstate option" where
  "play = foldM step_event"

lemma play_reachable:
  assumes "reachable s" and "play es s = Some s'"
  shows "reachable s'"
  using assms(2) unfolding play_def
  by (rule foldM_preserves) (auto intro: assms(1) reachable.step step_event_kstep)

lemma play_append: "play (es @ es') s = play es s \<bind> play es'"
  by (simp add: play_def)

text \<open>
  A concrete execution: thread 1 boots the machine, takes and releases the lock for thread identifiers, starts the idle thread 2 and
  waits for it, sleeps for two ticks, and is woken by the second timer interrupt. At the end it is ready and the idle thread still runs.
\<close>

fun along :: "(event list \<times> (kstate \<Rightarrow> bool)) list \<Rightarrow> kstate \<Rightarrow> bool" where
  "along [] s = True"
| "along ((es, P) # r) s = (case play es s of None \<Rightarrow> False | Some s' \<Rightarrow> P s' \<and> along r s')"

lemma alongE:
  assumes "along ((es, P) # r) s" and "reachable s"
  obtains s' where "play es s = Some s'" "P s'" "along r s'" "reachable s'"
  using assms play_reachable by (auto split: option.splits)

lemma play_single: "play [e] s = Some s' \<Longrightarrow> kstep s s'"
  by (auto simp: play_def intro: step_event_kstep)

definition first_run :: "(event list \<times> (kstate \<Rightarrow> bool)) list" where
  "first_run =
     [(replicate 2 Run, \<lambda>s. holder s TidLock = 1), ([Run], \<lambda>s. holder s TidLock = 0), (replicate 8 Run, \<lambda>s. running s = 1),
      ([Run], \<lambda>s. running s = 2),
      (replicate 4 Run @ [Call (C_timer_sleep 2), Run],
         \<lambda>s. sleeping_list s = [1] \<and> start (threads s 1) = 0 \<and> sleep (threads s 1) = 2 \<and> running s = 2),
      ([Run, Run, Tick, Tick], \<lambda>s. ticks s = 2 \<and> running s = 2 \<and> idle_thread s = 2 \<and> ready_list s = [1]
         \<and> priority (threads s 1) = 31 \<and> priority (threads s 2) = 0 \<and> sleeping_list s = [] \<and> thread_ticks s = 2
         \<and> \<not> thread_mlfqs s \<and> \<not> yield_on_return s)]"

lemma first_run_along: "case boot False (\<lambda>_. 0) 1 2 0 of None \<Rightarrow> False | Some s \<Rightarrow> along first_run s"
  by code_simp

lemma first_run:
  obtains s0 s1 s2 s3 s4 s5 s6 where "reachable s1" "kstep s1 s2" "holder s1 TidLock = 1" "holder s2 TidLock = 0"
    "reachable s3" "kstep s3 s4" "running s3 = 1" "running s4 = 2"
    "reachable s5" "sleeping_list s5 = [1]" "start (threads s5 1) = 0" "sleep (threads s5 1) = 2" "running s5 = 2"
    "play [Run, Run, Tick, Tick] s5 = Some s6" "ticks s6 = 2" "running s6 = 2" "idle_thread s6 = 2" "ready_list s6 = [1]"
    "priority (threads s6 1) = 31" "priority (threads s6 2) = 0" "sleeping_list s6 = []" "thread_ticks s6 = 2"
    "\<not> thread_mlfqs s6" "\<not> yield_on_return s6" "reachable s6"
proof -
  obtain s where b: "boot False (\<lambda>_. 0) 1 2 0 = Some s" and a: "along first_run s"
    using first_run_along by (auto split: option.splits)
  have r: "reachable s" by (rule reachable.boot [OF b]) simp
  note a = a [unfolded first_run_def]
  from a r obtain s1 where s1: "holder s1 TidLock = 1" "reachable s1" and a: "along (tl first_run) s1"
    by (rule alongE) (simp add: first_run_def)
  note a = a [unfolded first_run_def list.sel]
  from a s1(2) obtain s2 where s2: "play [Run] s1 = Some s2" "holder s2 TidLock = 0" "reachable s2" and a: "along (tl (tl first_run)) s2"
    by (rule alongE) (simp add: first_run_def)
  note a = a [unfolded first_run_def list.sel]
  from a s2(3) obtain s3 where s3: "running s3 = 1" "reachable s3" and a: "along (tl (tl (tl first_run))) s3"
    by (rule alongE) (simp add: first_run_def)
  note a = a [unfolded first_run_def list.sel]
  from a s3(2) obtain s4 where s4: "play [Run] s3 = Some s4" "running s4 = 2" "reachable s4" and a: "along (tl (tl (tl (tl first_run)))) s4"
    by (rule alongE) (simp add: first_run_def)
  note a = a [unfolded first_run_def list.sel]
  from a s4(3) obtain s5 where s5: "sleeping_list s5 = [1] \<and> start (threads s5 1) = 0 \<and> sleep (threads s5 1) = 2 \<and> running s5 = 2" "reachable s5"
    and a: "along (tl (tl (tl (tl (tl first_run))))) s5"
    by (rule alongE) (simp add: first_run_def)
  note a = a [unfolded first_run_def list.sel]
  from a s5(2) obtain s6 where s6: "play [Run, Run, Tick, Tick] s5 = Some s6" "ticks s6 = 2 \<and> running s6 = 2 \<and> idle_thread s6 = 2 \<and> ready_list s6 = [1]
      \<and> priority (threads s6 1) = 31 \<and> priority (threads s6 2) = 0 \<and> sleeping_list s6 = [] \<and> thread_ticks s6 = 2
      \<and> \<not> thread_mlfqs s6 \<and> \<not> yield_on_return s6" "reachable s6"
    by (rule alongE)
  show thesis using that [OF s1(2) play_single [OF s2(1)] s1(1) s2(2) s3(2) play_single [OF s4(1)] s3(1) s4(2) s5(2)] s5(1) s6 by blast
qed

section \<open>The scheduler\<close>

text \<open>A list of threads without duplicates, in descending order of priority.\<close>

definition by_priority :: "kstate \<Rightarrow> tptr list \<Rightarrow> bool" where
  "by_priority s ts \<longleftrightarrow> distinct ts \<and> sorted_wrt (\<lambda>t u. priority (threads s t) \<ge> priority (threads s u)) ts"







section \<open>Locks\<close>

text \<open>
  C2. Mutual exclusion of locks: once a thread holds a lock, no step of any thread and no interrupt changes the holder,
  except that the holder itself executes \<^verbatim>\<open>lock_release\<close> of that lock, which leaves it without a holder. In particular
  a lock never passes from one thread to another in one step, also not by priority donation.
\<close>

theorem lock_held_until_released:
  assumes "reachable s" and "kstep s s'" and "holder s l \<noteq> NULL" and "holder s' l \<noteq> holder s l"
  shows "running s = holder s l \<and> holder s' l = NULL \<and> (\<exists>cs. stacks s (running s) = C_lock_release l # cs)"
  using moved_kstep [OF reachable_inv [OF assms(1)] assms(2)] assms(3,4) by metis

theorem lock_held_until_released_witness:
  "\<exists>s s'. reachable s \<and> kstep s s' \<and> holder s TidLock = 1 \<and> holder s' TidLock = NULL \<and> running s = 1
     \<and> (\<exists>cs. stacks s 1 = C_lock_release TidLock # cs)"
proof -
  obtain s s' where s: "reachable s" "kstep s s'" "holder s TidLock = 1" "holder s' TidLock = 0" by (rule first_run)
  have "running s = 1 \<and> (\<exists>cs. stacks s (running s) = C_lock_release TidLock # cs)"
    using lock_held_until_released [OF s(1,2), of TidLock] s(3,4) by auto
  then show ?thesis using s by (intro exI [of _ s] exI [of _ s']) auto
qed

end
