(* ===== verification/Sched_Live.thy ===== *)
theory Sched_Live
  imports Sched_Reach
begin

text \<open>
  Sleeping threads are woken: no operation but the timer interrupt takes a thread off the sleeping list, none changes the
  time until which it sleeps, and the interrupt of that time makes it ready.
\<close>

section \<open>The time until which threads sleep\<close>

definition times :: "kstate \<Rightarrow> tptr \<Rightarrow> int \<times> int" where
  "times s u = (start (threads s u), sleep (threads s u))"

lemma times_threads: "threads s' = threads s \<Longrightarrow> times s' = times s"
  by (simp add: times_def fun_eq_iff)

lemma times_simps [simp]:
  "(\<And>th. start (f th) = start th \<and> sleep (f th) = sleep th) \<Longrightarrow> times (upd_thread t f s) = times s"
  "times (push cs s) = times s" "times (upd_sema x g s) = times s" "times (set_pl_list q xs s) = times s" "times (popped s) = times s"
  "times (sema_init x v s) = times s" "times (free_thread t s) = times s" "times (switched s) = times s"
  "times (s\<lparr>intr := lv\<rparr>) = times s" "times (s\<lparr>stacks := st\<rparr>) = times s" "times (s\<lparr>holder := h\<rparr>) = times s"
  "times (s\<lparr>conds := c\<rparr>) = times s" "times (s\<lparr>slock_i := i\<rparr>) = times s" "times (s\<lparr>sleeping_list := ts\<rparr>) = times s"
  "times (s\<lparr>all_list := ts\<rparr>) = times s" "times (s\<lparr>idle_thread := u\<rparr>) = times s" "times (s\<lparr>next_tid := n\<rparr>) = times s"
  "times (s\<lparr>in_external_intr := b\<rparr>) = times s" "times (s\<lparr>yield_on_return := b\<rparr>) = times s" "times (s\<lparr>thread_ticks := w\<rparr>) = times s"
  "times (s\<lparr>ticks := n\<rparr>) = times s" "times (s\<lparr>idle_ticks := n\<rparr>) = times s" "times (s\<lparr>user_ticks := n\<rparr>) = times s"
  "times (s\<lparr>kernel_ticks := n\<rparr>) = times s" "times (s\<lparr>load_avg := a\<rparr>) = times s" "times (s\<lparr>load_avg_coefficient := a\<rparr>) = times s"
  "times (s\<lparr>junk := j\<rparr>) = times s" "times (s\<lparr>ready_list := ts\<rparr>) = times s"
  by (auto simp: times_def fun_eq_iff sema_init_def switched_def)

lemma times_intr: "intr_set_level lv s = Some s' \<Longrightarrow> times s' = times s" "intr_yield_on_return s = Some s' \<Longrightarrow> times s' = times s"
  by (auto dest!: intr_set_level_alike simp: intr_yield_on_return_def ASSERT_bind_Some_iff)

lemma times_lists: "pl_insert q t s = Some s' \<Longrightarrow> times s' = times s" "pl_update t s = Some s' \<Longrightarrow> times s' = times s"
  by (auto simp: pl_insert_def pl_update_def ASSERT_bind_Some_iff Option.bind_eq_Some_conv)

lemma times_schedule: "schedule s = Some s' \<Longrightarrow> times s' = times s"
  by (drule schedule_eq(4)) simp

named_theorems times_ops \<open>operations that leave the times alone\<close>

lemmas [times_ops] = times_intr times_lists times_schedule

lemma times_switch [times_ops]:
  "thread_block s = Some s' \<Longrightarrow> times s' = times s"
  "thread_yield s = Some s' \<Longrightarrow> times s' = times s"
  "thread_exit s = Some s' \<Longrightarrow> times s' = times s"
  by (auto simp: thread_block_def thread_yield_def thread_exit_def intr_disable_def ASSERT_bind_Some_iff Option.bind_eq_Some_conv
      split: if_splits dest!: times_ops)

lemma times_unblock [times_ops]: "thread_unblock t s = Some s' \<Longrightarrow> times s' = times s"
  by (auto simp: thread_unblock_def intr_disable_def Let_def ASSERT_bind_Some_iff Option.bind_eq_Some_conv split: if_splits dest!: times_ops)

lemma times_priority [times_ops]: "thread_calculate_priority t s = Some s' \<Longrightarrow> times s' = times s"
  by (auto simp: thread_calculate_priority_def intr_disable_def ASSERT_bind_Some_iff Option.bind_eq_Some_conv Let_def
      split: if_splits dest!: times_ops)

lemma times_set [times_ops]:
  "thread_set_nice k s = Some s' \<Longrightarrow> times s' = times s"
  "thread_set_priority p s = Some s' \<Longrightarrow> times s' = times s"
  by (auto simp: thread_set_nice_def thread_set_priority_def intr_disable_def ASSERT_bind_Some_iff Option.bind_eq_Some_conv Let_def
      split: if_splits dest!: times_ops)

lemma times_sema [times_ops]:
  "sema_loop x lv s = Some s' \<Longrightarrow> times s' = times s"
  "sema_try_down x s = Some (r, s') \<Longrightarrow> times s' = times s"
  "sema_up x s = Some s' \<Longrightarrow> times s' = times s"
  "sema_pop x s = Some s' \<Longrightarrow> times s' = times s"
  by (auto simp: sema_loop_def sema_try_down_def sema_up_def sema_pop_def intr_disable_def ASSERT_bind_Some_iff Option.bind_eq_Some_conv Let_def
      split: if_splits list.splits dest!: times_ops)

lemma times_sema_down [times_ops]: "sema_down x s = Some s' \<Longrightarrow> times s' = times s"
  by (auto simp: sema_down_def intr_disable_def ASSERT_bind_Some_iff dest!: times_ops)

lemma times_donate [times_ops]: "donate_loop n t p s = Some s' \<Longrightarrow> times s' = times s"
proof (induction n t p s rule: donate_loop.induct)
  case (1 cnt cur p s)
  show ?case
  proof (cases "cur \<noteq> NULL \<and> cnt < 9")
    case False
    then show ?thesis using "1.prems" by (auto simp: donate_loop.simps [of cnt cur])
  next
    case True
    then obtain th where th: "deref s cur = Some th" and r: "p \<le> priority th \<and> s' = s \<or> \<not> p \<le> priority th \<and> (do {
          s \<leftarrow> pl_update cur (upd_thread cur (\<lambda>th. th\<lparr>priority := p, donated := True\<rparr>) s);
          donate_loop (Suc cnt) (waiting_for_tlock (threads s cur)) p s }) = Some s'"
      using "1.prems" unfolding donate_loop.simps [of cnt cur p s] Let_def by (auto simp: Option.bind_eq_Some_conv split: if_splits)
    show ?thesis
    proof (cases "p \<le> priority th")
      case False
      then obtain s1 where s1: "pl_update cur (upd_thread cur (\<lambda>th. th\<lparr>priority := p, donated := True\<rparr>) s) = Some s1"
        and l: "donate_loop (Suc cnt) (waiting_for_tlock (threads s1 cur)) p s1 = Some s'"
        using r by (auto simp: Option.bind_eq_Some_conv)
      show ?thesis using "1.IH" [OF True th False refl s1 l] times_lists(2) [OF s1] by simp
    qed (use r in simp)
  qed
qed

lemma times_lock [times_ops]:
  "lock_try_acquire l s = Some (r, s') \<Longrightarrow> times s' = times s"
  "acquire_tail l t lv s = Some s' \<Longrightarrow> times s' = times s"
  by (auto simp: lock_try_acquire_def acquire_tail_def give_lock_def intr_disable_def ASSERT_bind_Some_iff Option.bind_eq_Some_conv Let_def
      split: if_splits dest!: times_ops)

lemma times_lock_acquire [times_ops]: "lock_acquire l s = Some s' \<Longrightarrow> times s' = times s"
  unfolding lock_acquire_def intr_disable_def Let_def lock_donate_def prod.case
  by (auto simp: ASSERT_bind_Some_iff Option.bind_eq_Some_conv split: if_splits dest!: times_ops)

lemma times_lock_release [times_ops]: "lock_release l s = Some s' \<Longrightarrow> times s' = times s"
  unfolding lock_release_def intr_disable_def Let_def prod.case
  by (auto simp: ASSERT_bind_Some_iff Option.bind_eq_Some_conv split: if_splits dest!: times_ops)

lemma times_cond [times_ops]:
  "cond_wait c l s = Some s' \<Longrightarrow> times s' = times s"
  "cond_signal c l s = Some s' \<Longrightarrow> times s' = times s"
  by (auto simp: cond_wait_def cond_signal_def cond_sort_priority_def ASSERT_bind_Some_iff Option.bind_eq_Some_conv Let_def split: list.splits)

lemma times_broadcast [times_ops]: "cond_broadcast c l s = Some s' \<Longrightarrow> times s' = times s"
  by (auto simp: cond_broadcast_def split: if_splits dest!: times_ops)

lemma times_shared:
  "times (lock_acquire_exclusive x s) = times s" "times (exclusive_loop x s) = times s" "times (lock_acquire_shared x s) = times s"
  "times (shared_loop x s) = times s" "times (lock_release_shared x s) = times s" "times (shared_drop x s) = times s"
  "times (lock_release_exclusive x s) = times s" "times (exclusive_drop x s) = times s"
  by (simp_all add: lock_acquire_exclusive_def exclusive_loop_def lock_acquire_shared_def shared_loop_def lock_release_shared_def
      shared_drop_def lock_release_exclusive_def exclusive_drop_def Let_def)

lemma times_start [times_ops]:
  "create_tail t f s = Some s' \<Longrightarrow> times s' = times s"
  "kernel_thread f s = Some s' \<Longrightarrow> times s' = times s"
  "idle_loop s = Some s' \<Longrightarrow> times s' = times s"
  by (auto simp: create_tail_def kernel_thread_def idle_loop_def intr_enable_def intr_disable_def ASSERT_bind_Some_iff Option.bind_eq_Some_conv
      split: thread_func.splits dest!: times_ops)

text \<open>Only \<^verbatim>\<open>timer_sleep\<close>, for the thread that calls it, and \<^verbatim>\<open>thread_create\<close>, for the new thread, set the times.\<close>

lemma times_create:
  assumes "thread_create t nm pri f s = Some s'" and "u \<noteq> t"
  shows "times s' u = times s u"
proof (cases "t = NULL")
  case False
  then obtain s1 cs where s1: "init_thread t nm pri s = Some s1" "s' = push cs s1"
    using assms(1) by (auto simp: thread_create_def Option.bind_eq_Some_conv)
  from s1(1) show ?thesis by (rule init_thread_eq) (use assms(2) s1(2) in \<open>simp add: times_def\<close>)
qed (use assms in \<open>simp add: thread_create_def\<close>)

lemma times_timer_sleep:
  assumes "timer_sleep n s = Some s'" and "u \<noteq> running s"
  shows "times s' u = times s u"
proof -
  let ?s = "upd_thread (running s) (\<lambda>th. th\<lparr>start := timer_ticks (s\<lparr>intr := INTR_OFF\<rparr>), sleep := n\<rparr>) (s\<lparr>intr := INTR_OFF\<rparr>)"
  have "times s' = times ?s"
    using assms(1) thread_current_eq [of "s\<lparr>intr := INTR_OFF\<rparr>"]
    unfolding timer_sleep_def thread_sleep_def intr_disable_def Let_def prod.case
    by (auto simp: ASSERT_bind_Some_iff Option.bind_eq_Some_conv dest!: times_ops)
  then show ?thesis using assms(2) by (simp add: times_def)
qed

lemma times_exec:
  assumes e: "exec c s = Some s'" and u: "u \<noteq> running s" "\<And>t nm p f. c = C_thread_create t nm p f \<Longrightarrow> u \<noteq> t"
  shows "times s' u = times s u"
proof (cases c)
  case (C_thread_create t nm p f)
  then show ?thesis using times_create e u(2) by simp
next
  case (C_timer_sleep n)
  then show ?thesis using times_timer_sleep e u(1) by simp
next
  case (C_allocate_tid t)
  then show ?thesis using e by (auto simp: allocate_tid_def)
qed (use e in \<open>auto simp: times_shared intr_enable_def dest: times_ops\<close>)

section \<open>The timer interrupt\<close>

text \<open>What the timer interrupt does after waking threads changes neither times nor statuses, up to the switch of threads.\<close>

definition marks :: "kstate \<Rightarrow> tptr \<Rightarrow> (int \<times> int) \<times> thread_status" where
  "marks s u = (times s u, status (threads s u))"

lemma marks_simps [simp]:
  "(\<And>th. start (f th) = start th \<and> sleep (f th) = sleep th \<and> status (f th) = status th) \<Longrightarrow> marks (upd_thread t f s) = marks s"
  by (auto simp: marks_def times_def fun_eq_iff)

lemma marks_threads: "threads s' = threads s \<Longrightarrow> marks s' = marks s"
  by (simp add: marks_def times_def fun_eq_iff)

lemma pl_update_threads: "pl_update t s = Some s' \<Longrightarrow> threads s' = threads s"
  by (auto simp: pl_update_def ASSERT_bind_Some_iff Option.bind_eq_Some_conv)

lemma intr_threads: "intr_set_level lv s = Some s' \<Longrightarrow> threads s' = threads s" "intr_yield_on_return s = Some s' \<Longrightarrow> threads s' = threads s"
  by (auto dest!: intr_set_level_alike simp: intr_yield_on_return_def ASSERT_bind_Some_iff)

lemma marks_priority:
  assumes "thread_calculate_priority t s = Some s'"
  shows "marks s' = marks s"
proof -
  have "\<exists>p. threads s' = (threads s)(t := (threads s t)\<lparr>priority := p\<rparr>)"
    using assms unfolding thread_calculate_priority_def intr_disable_def Let_def prod.case
    by (auto simp: Option.bind_eq_Some_conv split: if_splits dest!: intr_threads pl_update_threads)
  then show ?thesis by (auto simp: marks_def times_def fun_eq_iff)
qed

lemma marks_foreach:
  assumes f: "thread_foreach f s = Some s'" and "\<And>t s s'. f t s = Some s' \<Longrightarrow> marks s' = marks s"
  shows "marks s' = marks s"
proof -
  have "foldM f (all_list s) s = Some s'" using f by (simp add: thread_foreach_def ASSERT_bind_Some_iff)
  then show ?thesis by (rule foldM_preserves [where P = "\<lambda>s'. marks s' = marks s"]) (simp_all add: assms(2))
qed

lemma marks_mlfqs:
  "thread_calculate_recent_cpu t s = Some s' \<Longrightarrow> marks s' = marks s"
  "thread_update_priorities t s = Some s' \<Longrightarrow> marks s' = marks s"
proof -
  show "thread_calculate_recent_cpu t s = Some s' \<Longrightarrow> marks s' = marks s"
    by (auto simp: thread_calculate_recent_cpu_def)
  show "thread_update_priorities t s = Some s' \<Longrightarrow> marks s' = marks s"
    using marks_priority [of t "upd_thread t (\<lambda>th. th\<lparr>recently_up := False\<rparr>) s" s']
    by (auto simp: thread_update_priorities_def split: if_splits)
qed

lemma marks_load_avg:
  assumes "thread_calculate_load_avg s = Some s'"
  shows "marks s' = marks s"
proof (rule marks_threads)
  obtain a b where "s' = s\<lparr>load_avg := a, load_avg_coefficient := b\<rparr>"
    using assms unfolding thread_calculate_load_avg_def Let_def by (auto simp only: Option.bind_eq_Some_conv option.inject)
  then show "threads s' = threads s" by simp
qed

lemma marks_with_off:
  assumes "(do { s \<leftarrow> thread_foreach f (s\<lparr>intr := INTR_OFF\<rparr>); intr_set_level lv s }) = Some s'"
    and "\<And>t s s'. f t s = Some s' \<Longrightarrow> marks s' = marks s"
  shows "marks s' = marks s"
proof -
  obtain s1 where "thread_foreach f (s\<lparr>intr := INTR_OFF\<rparr>) = Some s1" "threads s' = threads s1"
    using assms(1) intr_threads(1) by (auto simp: Option.bind_eq_Some_conv)
  moreover have "marks (s\<lparr>intr := INTR_OFF\<rparr>) = marks s" by (rule marks_threads) simp
  ultimately show ?thesis using marks_foreach [OF _ assms(2)] marks_threads [of s' s1] by simp
qed

lemma marks_mlfqs_tick:
  assumes "mlfqs_tick t s = Some s'"
  shows "marks s' = marks s"
proof -
  define s0 where "s0 = (if t \<noteq> idle_thread s then upd_thread t (\<lambda>th. th\<lparr>recent_cpu := add_fpn (recent_cpu th) 1, recently_up := True\<rparr>) s else s)"
  obtain s1 where s1: "(if timer_ticks s0 mod TIMER_FREQ = 0 then do {
            s \<leftarrow> thread_calculate_load_avg s0;
            s' \<leftarrow> thread_foreach thread_calculate_recent_cpu (s\<lparr>intr := INTR_OFF\<rparr>);
            intr_set_level (intr s) s'
          } else Some s0) = Some s1"
    and s2: "(if timer_ticks s1 mod int TIME_SLICE = 0 then do {
       s \<leftarrow> thread_foreach thread_update_priorities (s1\<lparr>intr := INTR_OFF\<rparr>);
       intr_set_level (intr s1) s
     } else Some s1) = Some s'"
    using assms unfolding mlfqs_tick_def intr_disable_def Let_def prod.case s0_def [symmetric] by (auto simp only: Option.bind_eq_Some_conv)
  have "marks s0 = marks s" by (simp add: s0_def)
  moreover have "marks s1 = marks s0"
  proof (cases "timer_ticks s0 mod TIMER_FREQ = 0")
    case True
    then obtain s' where l: "thread_calculate_load_avg s0 = Some s'"
      and f: "(do { s \<leftarrow> thread_foreach thread_calculate_recent_cpu (s'\<lparr>intr := INTR_OFF\<rparr>); intr_set_level (intr s') s }) = Some s1"
      using s1 by (auto simp: Option.bind_eq_Some_conv)
    show ?thesis using marks_with_off [OF f marks_mlfqs(1)] marks_load_avg [OF l] by simp
  qed (use s1 in simp)
  moreover have "marks s' = marks s1"
  proof (cases "timer_ticks s1 mod int TIME_SLICE = 0")
    case True
    then have f: "(do { s \<leftarrow> thread_foreach thread_update_priorities (s1\<lparr>intr := INTR_OFF\<rparr>); intr_set_level (intr s1) s }) = Some s'"
      using s2 by simp
    show ?thesis by (rule marks_with_off [OF f marks_mlfqs(2)])
  qed (use s2 in simp)
  ultimately show ?thesis by simp
qed

lemma wake_loop_ready:
  assumes "wake_loop ts s = Some s'" and "set ts \<subseteq> set (sleeping_list s)" and "distinct ts" and "distinct (sleeping_list s)"
  shows "(\<forall>u \<in> set (sleeping_list s) - set (sleeping_list s'). status (threads s' u) = THREAD_READY)
    \<and> (\<forall>u. status (threads s u) = THREAD_READY \<longrightarrow> status (threads s' u) = THREAD_READY) \<and> times s' = times s"
  using assms
proof (induction ts arbitrary: s)
  case (Cons t ts)
  show ?case
  proof (cases "sleep (threads s t) \<le> timer_elapsed (start (threads s t)) s")
    case False
    then show ?thesis using Cons.IH [of s] Cons.prems by simp
  next
    case True
    obtain s1 where s1: "pl_insert ReadyList t (s\<lparr>sleeping_list := remove1 t (sleeping_list s)\<rparr>) = Some s1"
      and w: "wake_loop ts (upd_thread t (\<lambda>th. th\<lparr>status := THREAD_READY\<rparr>) s1) = Some s'"
      using Cons.prems(1) True by (auto split: bind_splits)
    define s2 where "s2 = upd_thread t (\<lambda>th. th\<lparr>status := THREAD_READY\<rparr>) s1"
    have s2: "sleeping_list s2 = remove1 t (sleeping_list s)" "status (threads s2 t) = THREAD_READY"
        "u \<noteq> t \<Longrightarrow> status (threads s2 u) = status (threads s u)" "times s2 = times s" for u
      using s1 times_lists(1) [OF s1] by (auto simp: s2_def pl_insert_def ASSERT_bind_Some_iff)
    have "set ts \<subseteq> set (sleeping_list s2)" "distinct ts" "distinct (sleeping_list s2)" using s2(1) Cons.prems by auto
    note ih = Cons.IH [OF w [folded s2_def] this]
    show ?thesis using ih s2 Cons.prems(4) by (auto, metis s2(2))
  qed
qed simp

lemma thread_tick_marks:
  assumes t: "thread_tick s = Some s'" and b: "base d s" "one_running s" "in_external_intr s"
  shows "times s' = times s \<and> (\<forall>u \<in> set (sleeping_list s) - set (sleeping_list s'). status (threads s' u) = THREAD_READY)"
proof -
  from thread_tick_stages [OF b(2) t] obtain s1 s2 s3 where s1: "(if sleeping_list s \<noteq> [] then thread_update_timers s else Some s) = Some s1"
    and s2: "(if priority (threads s1 (running s)) > thread_list_top_pri s1 (ready_list s1) then intr_yield_on_return s1 else Some s1) = Some s2"
    and s3: "(if thread_mlfqs (count_tick (running s) s2) then mlfqs_tick (running s) (count_tick (running s) s2)
              else Some (count_tick (running s) s2)) = Some s3"
    and s4: "(if of_nat TIME_SLICE \<le> thread_ticks (s3\<lparr>thread_ticks := thread_ticks s3 + 1\<rparr>)
              then intr_yield_on_return (s3\<lparr>thread_ticks := thread_ticks s3 + 1\<rparr>) else Some (s3\<lparr>thread_ticks := thread_ticks s3 + 1\<rparr>)) = Some s'" .
  have d: "distinct (sleeping_list s)" using baseD(1) [OF b(1)] by (simp add: linked_ok_def)
  have w: "times s1 = times s \<and> (\<forall>u \<in> set (sleeping_list s) - set (sleeping_list s1). status (threads s1 u) = THREAD_READY)"
    using s1 wake_loop_ready [OF _ order_refl d d, of s1] by (auto simp: thread_update_timers_def split: if_splits)
  have "threads s2 = threads s1" using s2 intr_threads(2) by (auto split: if_splits)
  moreover have "threads (count_tick (running s) s2) = threads s2" by (simp add: count_tick_def)
  moreover have "marks s3 = marks (count_tick (running s) s2)" using s3 marks_mlfqs_tick by (auto split: if_splits)
  moreover have "threads s' = threads s3" using s4 intr_threads(2) by (auto split: if_splits)
  ultimately have m: "marks s' = marks s1" using marks_threads by metis
  have tm: "times s' u = times s1 u" "status (threads s' u) = status (threads s1 u)" for u
    using fun_cong [OF m, of u] by (simp_all add: marks_def)
  moreover have "sleeping_list s' = sleeping_list s1" using thread_tick_ok [OF b t] s1 by auto
  ultimately show ?thesis using w by auto
qed

lemma thread_yield_frame:
  assumes "thread_yield s = Some s'"
  shows "sleeping_list s' = sleeping_list s"
    and "status (threads s u) = THREAD_READY \<Longrightarrow> status (threads s' u) \<in> {THREAD_READY, THREAD_RUNNING}"
proof -
  obtain cur s1 where i: "(if cur \<noteq> idle_thread (s\<lparr>intr := INTR_OFF\<rparr>) then pl_insert ReadyList cur (s\<lparr>intr := INTR_OFF\<rparr>) else Some (s\<lparr>intr := INTR_OFF\<rparr>)) = Some s1"
    and sc: "schedule (push [C_intr_set_level (intr s)] (upd_thread cur (\<lambda>th. th\<lparr>status := THREAD_READY\<rparr>) s1)) = Some s'"
    using assms unfolding thread_yield_def intr_disable_def Let_def prod.case
    by (auto simp only: ASSERT_bind_Some_iff Option.bind_eq_Some_conv)
  have s1: "status (threads s1 u) = status (threads s u)" "sleeping_list s1 = sleeping_list s" for u
    using i by (auto simp: pl_insert_def ASSERT_bind_Some_iff split: if_splits)
  show "sleeping_list s' = sleeping_list s" using schedule_eq(4) [OF sc] s1(2) by (auto split: if_splits)
  show "status (threads s' u) \<in> {THREAD_READY, THREAD_RUNNING}" if "status (threads s u) = THREAD_READY"
    using schedule_eq(4) [OF sc] s1(1) [of u] that by (auto simp: switched_thread split: if_splits)
qed

lemma tick_wakes:
  assumes i: "inv s" and h: "intr_handler timer_interrupt s = Some s'"
  shows "times s' = times s
    \<and> (\<forall>u \<in> set (sleeping_list s) - set (sleeping_list s'). status (threads s' u) \<in> {THREAD_READY, THREAD_RUNNING})"
proof -
  let ?s0 = "s\<lparr>intr := INTR_OFF, in_external_intr := True, yield_on_return := False\<rparr>"
  let ?s1 = "?s0\<lparr>ticks := ticks s + 1\<rparr>"
  obtain s2 where t: "thread_tick ?s1 = Some s2" and
    r: "(if yield_on_return (s2\<lparr>in_external_intr := False\<rparr>) then thread_yield (push [C_intr_set_level INTR_ON] (s2\<lparr>in_external_intr := False\<rparr>))
         else Some (s2\<lparr>in_external_intr := False, intr := INTR_ON\<rparr>)) = Some s'"
    using h unfolding intr_handler_def Let_def timer_interrupt_def
    by (auto simp: Option.bind_eq_Some_conv ASSERT_bind_Some_iff)
  have "alike s ?s0"
    by (rule alike_trans [of _ "s\<lparr>intr := INTR_OFF\<rparr>"], simp, rule alike_trans [of _ "s\<lparr>intr := INTR_OFF, in_external_intr := True\<rparr>"]) simp_all
  then have b0: "base (ticks s) ?s0" "one_running ?s0" using alike_inv(1,2) invD(1,2) [OF i] by blast+
  have m: "times s2 = times s \<and> (\<forall>u \<in> set (sleeping_list s) - set (sleeping_list s2). status (threads s2 u) = THREAD_READY)"
    using thread_tick_marks [OF t, of "ticks s"] b0 by simp
  have y: "times s' = times s2 \<and> sleeping_list s' = sleeping_list s2
      \<and> (\<forall>u. status (threads s2 u) = THREAD_READY \<longrightarrow> status (threads s' u) \<in> {THREAD_READY, THREAD_RUNNING})"
  proof (cases "yield_on_return s2")
    case True
    then have "thread_yield (push [C_intr_set_level INTR_ON] (s2\<lparr>in_external_intr := False\<rparr>)) = Some s'" using r by simp
    from times_switch(2) [OF this] thread_yield_frame [OF this] show ?thesis by simp
  next
    case False
    then show ?thesis using r by auto
  qed
  then show ?thesis using m by auto
qed

section \<open>Every sleeping thread is woken in time\<close>

text \<open>A step either leaves a sleeping thread alone, or it is the timer interrupt of the time to wake it.\<close>

lemma sleeper_step:
  assumes i: "inv s" and t: "t \<in> set (sleeping_list s)" and e: "step_event e s = Some s'"
  shows "t \<in> set (sleeping_list s') \<and> times s' t = times s t
    \<or> t \<notin> set (sleeping_list s') \<and> start (threads s t) + sleep (threads s t) \<le> ticks s'
      \<and> ticks s' \<le> start (threads s t) + max 1 (sleep (threads s t)) \<and> status (threads s' t) \<in> {THREAD_READY, THREAD_RUNNING}"
proof -
  note b = invD(1) [OF i]
  have th: "is_thread s t" "t \<noteq> running s"
    using baseD(1) [OF b] t invD(4) [OF i] unfolding linked_ok_def by auto
  show ?thesis
  proof (cases e)
    case Run
    then obtain c cs where c: "stacks s (running s) = c # cs" "exec c (popped s) = Some s'" and f: "fresh_page s"
      using e by (auto split: if_splits elim: run_pending_cases)
    have "t \<in> set (sleeping_list s')" using exec_ok [OF i c(1) f c(2)] t by (auto simp: moved_def)
    moreover have "times s' t = times (popped s) t"
      by (rule times_exec [OF c(2)]) (use th f c(1) in \<open>auto simp: fresh_page_def\<close>)
    ultimately show ?thesis by simp
  next
    case (Call c)
    then show ?thesis using e t by (auto split: if_splits)
  next
    case Tick
    then have h: "intr_handler timer_interrupt s = Some s'" using e by (auto split: if_splits)
    have "ticks s < start (threads s t) + max 1 (sleep (threads s t))" using baseD(5) [OF b] t by (simp add: deadline_ok_def)
    then show ?thesis using tick_ok [OF i h] tick_wakes [OF i h] t by (cases "t \<in> set (sleeping_list s')") auto
  qed
qed

lemma play_Cons: "play (e # es) s = step_event e s \<bind> play es"
  by (simp add: play_def)



end
