(* ===== verification/Hash_Table.thy ===== *)
theory Hash_Table
  imports List_Sort
begin

text \<open>
  Chained hash tables, \<^verbatim>\<open>lib/kernel/hash.c\<close>. A table holds an array of lists; the lists are sequences here
  (theory \<^verbatim>\<open>Linked_List\<close> shows that the operations on sequences used below are what \<^verbatim>\<open>list.c\<close> does). The hash
  and comparison functions are members of the table, as in the code. Whether \<^verbatim>\<open>malloc\<close> succeeds is an argument
  of every operation that may allocate.
\<close>

section \<open>Data\<close>

record 'e hash =
  h_elem_cnt :: u32
  h_bucket_cnt :: u32
  h_buckets :: "'e list list"
  h_hash :: "'e \<Rightarrow> u32"
  h_less :: "'e \<Rightarrow> 'e \<Rightarrow> bool"

text \<open>
  The element pointer of an iterator is a position in the list of its bucket: 0 is the list head, \<open>n\<close> the
  \<open>n\<close>-th element, and one more than the length the list tail. \<^term>\<open>None\<close> is the null pointer.
\<close>

record hash_iterator =
  it_bucket :: nat
  it_elem :: "nat option"

section \<open>Operations\<close>

definition list_bucket :: "'e hash \<Rightarrow> nat \<Rightarrow> 'e list" where
  "list_bucket h i = h_buckets h ! i"

definition find_bucket :: "'e hash \<Rightarrow> 'e \<Rightarrow> nat" where
  "find_bucket h e = unat (h_hash h e AND (h_bucket_cnt h - 1))"

definition find_elem :: "'e hash \<Rightarrow> nat \<Rightarrow> 'e \<Rightarrow> 'e option" where
  "find_elem h bucket e =
     find (\<lambda>hi. \<not> h_less h hi e \<and> \<not> h_less h e hi) (list_bucket h bucket)"

definition turn_off_least_1bit :: "u32 \<Rightarrow> u32" where
  "turn_off_least_1bit x = x AND (x - 1)"

definition is_power_of_2 :: "u32 \<Rightarrow> bool" where
  "is_power_of_2 x \<longleftrightarrow> x \<noteq> 0 \<and> turn_off_least_1bit x = 0"

text \<open>
  The loop that rounds the bucket count down to a power of two. At 0 the code would loop for ever; it starts at 4 or
  more and turning off bits stops at a power of two (\<open>power_loop_eq\<close> below).
\<close>

function power_loop :: "u32 \<Rightarrow> u32" where
  "power_loop x = (if x = 0 \<or> is_power_of_2 x then x else power_loop (turn_off_least_1bit x))"
  by pat_completeness auto

definition BEST_ELEMS_PER_BUCKET :: u32 where
  "BEST_ELEMS_PER_BUCKET = 2"

definition ideal_bucket_cnt :: "'e hash \<Rightarrow> u32" where
  "ideal_bucket_cnt h =
     (let n = h_elem_cnt h div BEST_ELEMS_PER_BUCKET
      in power_loop (if n < 4 then 4 else n))"

definition push_bucket :: "nat \<Rightarrow> 'e \<Rightarrow> 'e hash \<Rightarrow> 'e hash" where
  "push_bucket i e h = h\<lparr>h_buckets := (h_buckets h)[i := e # list_bucket h i]\<rparr>"

definition rehash :: "bool \<Rightarrow> 'e hash \<Rightarrow> 'e hash" where
  "rehash malloc_ok h =
     (let old_buckets = h_buckets h;
          new_bucket_cnt = ideal_bucket_cnt h
      in if new_bucket_cnt = h_bucket_cnt h then h
         else if \<not> malloc_ok then h
         else fold (fold (\<lambda>e h. push_bucket (find_bucket h e) e h)) old_buckets
                (h\<lparr>h_buckets := replicate (unat new_bucket_cnt) [], h_bucket_cnt := new_bucket_cnt\<rparr>))"

definition insert_elem :: "nat \<Rightarrow> 'e \<Rightarrow> 'e hash \<Rightarrow> 'e hash" where
  "insert_elem bucket e h = push_bucket bucket e (h\<lparr>h_elem_cnt := h_elem_cnt h + 1\<rparr>)"

text \<open>\<^verbatim>\<open>list_remove\<close> finds the list of the element through its pointers: it is the list that contains it.\<close>

definition remove_elem :: "'e \<Rightarrow> 'e hash \<Rightarrow> 'e hash" where
  "remove_elem e h = h\<lparr>h_elem_cnt := h_elem_cnt h - 1, h_buckets := map (remove1 e) (h_buckets h)\<rparr>"

definition hash_insert :: "bool \<Rightarrow> 'e \<Rightarrow> 'e hash \<Rightarrow> 'e option \<times> 'e hash" where
  "hash_insert malloc_ok new h =
     (let bucket = find_bucket h new;
          old = find_elem h bucket new;
          h = (if old = None then insert_elem bucket new h else h)
      in (old, rehash malloc_ok h))"

definition hash_replace :: "bool \<Rightarrow> 'e \<Rightarrow> 'e hash \<Rightarrow> 'e option \<times> 'e hash" where
  "hash_replace malloc_ok new h =
     (let bucket = find_bucket h new;
          old = find_elem h bucket new;
          h = (case old of Some e \<Rightarrow> remove_elem e h | None \<Rightarrow> h);
          h = insert_elem bucket new h
      in (old, rehash malloc_ok h))"

definition hash_find :: "'e hash \<Rightarrow> 'e \<Rightarrow> 'e option" where
  "hash_find h e = find_elem h (find_bucket h e) e"

definition hash_delete :: "bool \<Rightarrow> 'e \<Rightarrow> 'e hash \<Rightarrow> 'e option \<times> 'e hash" where
  "hash_delete malloc_ok e h =
     (let found = find_elem h (find_bucket h e) e
      in (found, case found of Some x \<Rightarrow> rehash malloc_ok (remove_elem x h) | None \<Rightarrow> h))"

text \<open>
  The destructor and the action are functions on the state of their caller, which may not touch the table.
\<close>

definition hash_clear :: "('e \<Rightarrow> 's \<Rightarrow> 's) option \<Rightarrow> 'e hash \<Rightarrow> 's \<Rightarrow> 'e hash \<times> 's" where
  "hash_clear destructor h s =
     (h\<lparr>h_elem_cnt := 0, h_buckets := map (\<lambda>_. []) (h_buckets h)\<rparr>,
      case destructor of None \<Rightarrow> s | Some d \<Rightarrow> fold (fold d) (h_buckets h) s)"

definition hash_init :: "bool \<Rightarrow> ('e \<Rightarrow> u32) \<Rightarrow> ('e \<Rightarrow> 'e \<Rightarrow> bool) \<Rightarrow> 'e hash option" where
  "hash_init malloc_ok hash lessf =
     (if malloc_ok
      then Some (fst (hash_clear None
             \<lparr>h_elem_cnt = 0, h_bucket_cnt = 4, h_buckets = replicate 4 [], h_hash = hash, h_less = lessf\<rparr> ()))
      else None)"

definition hash_destroy :: "('e \<Rightarrow> 's \<Rightarrow> 's) option \<Rightarrow> 'e hash \<Rightarrow> 's \<Rightarrow> 's" where
  "hash_destroy destructor h s = (if destructor \<noteq> None then snd (hash_clear destructor h s) else s)"

definition hash_apply :: "('e \<Rightarrow> 's \<Rightarrow> 's) \<Rightarrow> 'e hash \<Rightarrow> 's \<Rightarrow> 's" where
  "hash_apply action h s = fold (fold action) (h_buckets h) s"

definition hash_first :: "hash_iterator" where
  "hash_first = \<lparr>it_bucket = 0, it_elem = Some 0\<rparr>"

text \<open>The \<^verbatim>\<open>while\<close> loop of \<^verbatim>\<open>hash_next\<close>: \<^term>\<open>n\<close> is the position reached in bucket \<^term>\<open>b\<close>.\<close>

function next_loop :: "'e hash \<Rightarrow> nat \<Rightarrow> nat \<Rightarrow> hash_iterator" where
  "next_loop h b n =
     (if n = Suc (length (list_bucket h b)) then
        (if Suc b \<ge> unat (h_bucket_cnt h) then \<lparr>it_bucket = Suc b, it_elem = None\<rparr>
         else next_loop h (Suc b) 1)
      else \<lparr>it_bucket = b, it_elem = Some n\<rparr>)"
  by pat_completeness auto
termination by (relation "measure (\<lambda>(h, b, n). unat (h_bucket_cnt h) - b)") auto

declare next_loop.simps [simp del]

definition hash_cur :: "'e hash \<Rightarrow> hash_iterator \<Rightarrow> 'e option" where
  "hash_cur h it =
     (case it_elem it of None \<Rightarrow> None | Some n \<Rightarrow> Some (list_bucket h (it_bucket it) ! (n - 1)))"

text \<open>\<^verbatim>\<open>list_next\<close> panics at the list tail, and following the null pointer is a wild access.\<close>

definition hash_next :: "'e hash \<Rightarrow> hash_iterator \<Rightarrow> ('e option \<times> hash_iterator) option" where
  "hash_next h it = do {
     n \<leftarrow> it_elem it;
     ASSERT (n \<le> length (list_bucket h (it_bucket it)));
     let it = next_loop h (it_bucket it) (Suc n);
     Some (hash_cur h it, it)
   }"

definition hash_size :: "'e hash \<Rightarrow> u32" where
  "hash_size h = h_elem_cnt h"

definition hash_empty :: "'e hash \<Rightarrow> bool" where
  "hash_empty h \<longleftrightarrow> h_elem_cnt h = 0"

section \<open>Hash functions\<close>

definition FNV_32_PRIME :: u32 where "FNV_32_PRIME = 16777619"
definition FNV_32_BASIS :: u32 where "FNV_32_BASIS = 2166136261"

definition hash_bytes :: "u8 list \<Rightarrow> u32" where
  "hash_bytes buf = foldl (\<lambda>hash b. (hash * FNV_32_PRIME) XOR ucast b) FNV_32_BASIS buf"

text \<open>The string is the memory from \<^term>\<open>s\<close> on; reading past its end without a null byte is a wild access.\<close>

fun hash_string_loop :: "u8 list \<Rightarrow> u32 \<Rightarrow> u32 option" where
  "hash_string_loop [] hash = None"
| "hash_string_loop (b # s) hash =
     (if b = 0 then Some hash else hash_string_loop s ((hash * FNV_32_PRIME) XOR ucast b))"

definition hash_string :: "u8 list \<Rightarrow> u32 option" where
  "hash_string s = hash_string_loop s FNV_32_BASIS"

definition hash_int :: "u32 \<Rightarrow> u32" where
  "hash_int i = hash_bytes (map (\<lambda>k. ucast (drop_bit (8 * k) i)) [0, 1, 2, 3])"

termination power_loop
proof (relation "measure unat")
  fix x :: u32
  assume "\<not> (x = 0 \<or> is_power_of_2 x)"
  then have "x \<noteq> 0" by simp
  then have "x AND (x - 1) < x"
    by (meson word_and_le1 word_le_less_eq measure_unat order_le_less_trans word_less_nat_alt)
  then show "(turn_off_least_1bit x, x) \<in> measure unat"
    by (simp add: turn_off_least_1bit_def word_less_nat_alt)
qed simp

declare power_loop.simps [simp del]

section \<open>The bucket count\<close>

lemma bit_iff_odd_unat: "bit (x :: u32) k \<longleftrightarrow> odd (unat x div 2 ^ k)"
proof -
  have "bit (unat x) k \<longleftrightarrow> bit x k" by (simp add: bit_unsigned_iff)
  then show ?thesis by (simp add: bit_iff_odd)
qed

lemma word_bit_top: "2 ^ k \<le> unat (x :: u32) \<Longrightarrow> unat x < 2 ^ Suc k \<Longrightarrow> bit x k"
proof -
  assume "2 ^ k \<le> unat x" "unat x < 2 ^ Suc k"
  then have "unat x div 2 ^ k = 1" by (simp add: div_nat_eqI)
  then show "bit x k" by (simp add: bit_iff_odd_unat)
qed

lemma bit_word_ge: "bit (x :: u32) k \<Longrightarrow> 2 ^ k \<le> unat x"
proof -
  assume "bit x k"
  then have "odd (unat x div 2 ^ k)" by (simp add: bit_iff_odd_unat)
  then have "\<not> unat x < 2 ^ k" by auto
  then show ?thesis by simp
qed

lemma turn_off_keeps_top:
  assumes "2 ^ k < unat (x :: u32)" and "unat x < 2 ^ Suc k"
  shows "2 ^ k \<le> unat (turn_off_least_1bit x)" and "unat (turn_off_least_1bit x) < unat x"
proof -
  have x1: "unat (x - 1) = unat x - 1" using assms(1) by (subst unat_minus_no_underflow) auto
  have "bit x k" using assms by (intro word_bit_top) auto
  moreover have "bit (x - 1) k" using assms x1 by (intro word_bit_top) auto
  ultimately show "2 ^ k \<le> unat (turn_off_least_1bit x)"
    by (intro bit_word_ge) (simp add: turn_off_least_1bit_def bit_and_iff)
  have "x AND (x - 1) \<le> x - 1" by (rule word_and_le1)
  then show "unat (turn_off_least_1bit x) < unat x"
    using x1 assms(1) by (simp add: turn_off_least_1bit_def word_le_nat_alt)
qed

lemma power_loop_eq:
  assumes "2 ^ k \<le> unat (x :: u32)" and "unat x < 2 ^ Suc k"
  shows "unat (power_loop x) = 2 ^ k"
  using assms
proof (induction x rule: power_loop.induct)
  case (1 x)
  have nz: "x \<noteq> 0" using 1(2) by (metis not_exp_less_eq_0_int of_nat_0 unat_0 le_zero_eq power_not_zero zero_neq_numeral)
  show ?case
  proof (cases "unat x = 2 ^ k")
    case True
    have "\<not> bit (turn_off_least_1bit x) m" for m
    proof
      assume "bit (turn_off_least_1bit x) m"
      then have b: "bit x m" "bit (x - 1) m" by (simp_all add: turn_off_least_1bit_def bit_and_iff)
      have "unat (x - 1) = unat x - 1" using nz by (metis unat_minus_one)
      then have "2 ^ m \<le> (2 ^ k :: nat)" "2 ^ m \<le> (2 ^ k - 1 :: nat)"
        using bit_word_ge [OF b(1)] bit_word_ge [OF b(2)] True by auto
      then have "m < k" by (metis diff_less nat_zero_less_power_iff order_le_less_trans power_strict_increasing_iff one_less_numeral_iff semiring_norm(76) zero_less_numeral zero_less_one)
      moreover have "odd (unat x div 2 ^ m)" using b(1) by (simp add: bit_iff_odd_unat)
      ultimately show False using True by (metis dvd_power power_diff zero_less_diff zero_neq_numeral less_imp_le power_eq_0_iff nonzero_mult_div_cancel_left le_add_diff_inverse power_add)
    qed
    then have "turn_off_least_1bit x = 0" by (simp add: bit_eq_iff)
    with nz True show ?thesis by (subst power_loop.simps) (simp add: is_power_of_2_def)
  next
    case False
    with 1(2) have gt: "2 ^ k < unat x" by simp
    note k = turn_off_keeps_top [OF gt 1(3)]
    have "turn_off_least_1bit x \<noteq> 0" using k(1) by (metis unat_0 le_zero_eq power_not_zero zero_neq_numeral)
    then have np: "\<not> (x = 0 \<or> is_power_of_2 x)" using nz by (simp add: is_power_of_2_def)
    with 1(1) [OF np] k 1(3) show ?thesis by (subst power_loop.simps) simp
  qed
qed

lemma log_bracket: "0 < (n :: nat) \<Longrightarrow> \<exists>k. 2 ^ k \<le> n \<and> n < 2 ^ Suc k"
proof (induction n rule: less_induct)
  case (less n)
  show ?case
  proof (cases "n = 1")
    case True
    then show ?thesis by (intro exI [of _ 0]) simp
  next
    case False
    with less.prems have "n div 2 < n" "0 < n div 2" by auto
    with less.IH obtain k where "2 ^ k \<le> n div 2" "n div 2 < 2 ^ Suc k" by blast
    then show ?thesis by (intro exI [of _ "Suc k"]) auto
  qed
qed

lemma ideal_bucket_cnt_bounds:
  "\<exists>k. 2 \<le> k \<and> k < 32 \<and> unat (ideal_bucket_cnt h) = 2 ^ k
     \<and> 2 ^ k \<le> max 4 (unat (h_elem_cnt h) div 2) \<and> max 4 (unat (h_elem_cnt h) div 2) < 2 ^ Suc k"
proof -
  define n where "n = max 4 (unat (h_elem_cnt h) div 2)"
  define x where "x = (if h_elem_cnt h div 2 < 4 then 4 else h_elem_cnt h div 2 :: u32)"
  have x: "unat x = n" by (simp add: x_def n_def unat_div word_less_nat_alt max_def)
  have "0 < n" unfolding n_def by linarith
  then obtain k where k: "2 ^ k \<le> n" "n < 2 ^ Suc k" using log_bracket [of n] by blast
  have "(2 :: nat) ^ 2 < 2 ^ Suc k" using k(2) by (simp add: n_def)
  then have "2 < Suc k" by (rule power_less_imp_less_exp [rotated]) simp
  moreover have "(2 :: nat) ^ k < 2 ^ 32" using k(1) x unat_lt_32 [of x] by simp
  then have "k < 32" by (rule power_less_imp_less_exp [rotated]) simp
  moreover have "unat (ideal_bucket_cnt h) = 2 ^ k"
    using power_loop_eq [of k x] k x
    by (simp add: ideal_bucket_cnt_def BEST_ELEMS_PER_BUCKET_def x_def Let_def)
  ultimately show ?thesis using k by (intro exI [of _ k]) (simp add: n_def)
qed

section \<open>Well-formed tables\<close>

definition hash_elems :: "'e hash \<Rightarrow> 'e multiset" where
  "hash_elems h = mset (concat (h_buckets h))"

definition once :: "'e multiset \<Rightarrow> bool" where
  "once M \<longleftrightarrow> (\<forall>x. count M x \<le> 1)"

lemma distinct_iff_once: "distinct xs \<longleftrightarrow> once (mset xs)"
proof -
  have "count (mset xs) a \<le> 1 \<longleftrightarrow> count (mset xs) a = (if a \<in> set xs then 1 else 0)" for a
  proof (cases "a \<in> set xs")
    case True
    then have "count (mset xs) a \<noteq> 0" by simp
    then have "count (mset xs) a \<le> 1 \<longleftrightarrow> count (mset xs) a = 1" by presburger
    with True show ?thesis by (simp only: if_True)
  next
    case False
    then have c: "count (mset xs) a = 0" by (simp add: count_eq_zero_iff)
    show ?thesis unfolding c using False by simp
  qed
  then show ?thesis by (simp only: once_def distinct_count_atmost_1)
qed

text \<open>Every element is in the bucket its hash value selects, and the number of buckets is a power of two.\<close>

definition placed :: "'e hash \<Rightarrow> bool" where
  "placed h \<longleftrightarrow> (\<exists>k < 32. unat (h_bucket_cnt h) = 2 ^ k) \<and> length (h_buckets h) = unat (h_bucket_cnt h)
     \<and> (\<forall>i < length (h_buckets h). \<forall>e \<in> set (h_buckets h ! i). find_bucket h e = i)"

definition keyed :: "('e \<Rightarrow> 'e \<Rightarrow> bool) \<Rightarrow> 'e multiset \<Rightarrow> bool" where
  "keyed lt M \<longleftrightarrow> (\<forall>x \<in># M. \<forall>y \<in># M. tied lt x y \<longrightarrow> x = y)"

definition hash_wf :: "'e hash \<Rightarrow> bool" where
  "hash_wf h \<longleftrightarrow> placed h \<and> once (hash_elems h) \<and> keyed (h_less h) (hash_elems h)
     \<and> unat (h_elem_cnt h) = size (hash_elems h)"

lemma mset_concat_push:
  "i < length xs \<Longrightarrow> mset (concat (xs[i := y # xs ! i])) = add_mset y (mset (concat xs))"
  by (induction xs arbitrary: i) (auto split: nat.split)

lemma mset_concat_remove:
  "distinct (concat xs) \<Longrightarrow> e \<in> set (concat xs)
     \<Longrightarrow> mset (concat (map (remove1 e) xs)) = mset (concat xs) - {#e#}"
proof (induction xs)
  case (Cons b xs)
  show ?case
  proof (cases "e \<in> set b")
    case True
    with Cons.prems have "map (remove1 e) xs = xs"
      by (intro map_idI remove1_idem) auto
    with True show ?thesis by simp
  next
    case False
    with Cons show ?thesis by (simp add: remove1_idem)
  qed
qed simp

lemma find_bucket_less:
  assumes "unat (h_bucket_cnt h) = 2 ^ k"
  shows "find_bucket h e < 2 ^ k"
proof -
  have "h_bucket_cnt h \<noteq> 0" using assms by auto
  then have "unat (h_bucket_cnt h - 1) = 2 ^ k - 1" using assms by (metis unat_minus_one)
  moreover have "h_hash h e AND (h_bucket_cnt h - 1) \<le> h_bucket_cnt h - 1" by (rule word_and_le1)
  ultimately have "find_bucket h e \<le> 2 ^ k - 1" by (simp add: find_bucket_def word_le_nat_alt)
  moreover have "(0 :: nat) < 2 ^ k" by simp
  ultimately show ?thesis by linarith
qed

lemma placed_bucket: "placed h \<Longrightarrow> find_bucket h e < length (h_buckets h)"
  using find_bucket_less [of h] by (auto simp: placed_def)

lemma find_bucket_cong:
  "h_hash g = h_hash h \<Longrightarrow> h_bucket_cnt g = h_bucket_cnt h \<Longrightarrow> find_bucket g e = find_bucket h e"
  by (simp add: find_bucket_def)

lemma push_bucket_simps [simp]:
  "h_elem_cnt (push_bucket i e h) = h_elem_cnt h"
  "h_bucket_cnt (push_bucket i e h) = h_bucket_cnt h"
  "h_hash (push_bucket i e h) = h_hash h"
  "h_less (push_bucket i e h) = h_less h"
  "find_bucket (push_bucket i e h) = find_bucket h"
  by (simp_all add: push_bucket_def find_bucket_def fun_eq_iff)

lemma push_own_bucket:
  assumes "placed h"
  shows "placed (push_bucket (find_bucket h e) e h)"
    and "hash_elems (push_bucket (find_bucket h e) e h) = add_mset e (hash_elems h)"
proof -
  let ?i = "find_bucket h e"
  have i: "?i < length (h_buckets h)" by (rule placed_bucket [OF assms])
  then show "hash_elems (push_bucket ?i e h) = add_mset e (hash_elems h)"
    by (simp add: hash_elems_def push_bucket_def list_bucket_def mset_concat_push)
  have b: "h_buckets (push_bucket ?i e h) = (h_buckets h)[?i := e # h_buckets h ! ?i]"
    by (simp add: push_bucket_def list_bucket_def)
  show "placed (push_bucket ?i e h)"
    using assms i unfolding placed_def b by (auto simp: nth_list_update split: if_splits)
qed

lemma move_all:
  assumes "placed h"
  shows "placed (fold (\<lambda>e h. push_bucket (find_bucket h e) e h) es h)
    \<and> hash_elems (fold (\<lambda>e h. push_bucket (find_bucket h e) e h) es h) = hash_elems h + mset es
    \<and> h_less (fold (\<lambda>e h. push_bucket (find_bucket h e) e h) es h) = h_less h
    \<and> h_hash (fold (\<lambda>e h. push_bucket (find_bucket h e) e h) es h) = h_hash h
    \<and> h_bucket_cnt (fold (\<lambda>e h. push_bucket (find_bucket h e) e h) es h) = h_bucket_cnt h
    \<and> h_elem_cnt (fold (\<lambda>e h. push_bucket (find_bucket h e) e h) es h) = h_elem_cnt h"
  using assms
proof (induction es arbitrary: h)
  case (Cons e es)
  from Cons.IH [OF push_own_bucket(1) [OF Cons.prems, of e]] push_own_bucket(2) [OF Cons.prems, of e]
  show ?case by simp
qed simp

lemma fold_fold_concat: "fold (fold f) xss s = fold f (concat xss) s"
  by (induction xss arbitrary: s) simp_all

lemma rehash_placed:
  assumes "placed h"
  shows "placed (rehash ok h) \<and> hash_elems (rehash ok h) = hash_elems h \<and> h_less (rehash ok h) = h_less h
    \<and> h_hash (rehash ok h) = h_hash h \<and> h_elem_cnt (rehash ok h) = h_elem_cnt h
    \<and> (ok \<longrightarrow> h_bucket_cnt (rehash ok h) = ideal_bucket_cnt h)"
proof -
  let ?g = "h\<lparr>h_buckets := replicate (unat (ideal_bucket_cnt h)) [], h_bucket_cnt := ideal_bucket_cnt h\<rparr>"
  have "placed ?g" using ideal_bucket_cnt_bounds [of h] by (auto simp: placed_def)
  from move_all [OF this, of "concat (h_buckets h)"] assms show ?thesis
    by (auto simp: rehash_def Let_def fold_fold_concat hash_elems_def)
qed

lemma remove_elem_placed:
  assumes "placed h" and "distinct (concat (h_buckets h))" and "e \<in># hash_elems h"
  shows "placed (remove_elem e h)" and "hash_elems (remove_elem e h) = hash_elems h - {#e#}"
  using assms mset_concat_remove [of "h_buckets h" e]
  by (auto simp: placed_def remove_elem_def hash_elems_def find_bucket_def dest: notin_set_remove1 split: if_splits)
     (metis notin_set_remove1)+

lemma insert_elem_placed:
  assumes "placed h"
  shows "placed (insert_elem (find_bucket h e) e h)"
    and "hash_elems (insert_elem (find_bucket h e) e h) = add_mset e (hash_elems h)"
proof -
  let ?g = "h\<lparr>h_elem_cnt := h_elem_cnt h + 1\<rparr>"
  have g: "placed ?g" "find_bucket ?g e = find_bucket h e" "hash_elems ?g = hash_elems h"
    using assms by (simp_all add: placed_def find_bucket_def hash_elems_def)
  then show "placed (insert_elem (find_bucket h e) e h)"
    "hash_elems (insert_elem (find_bucket h e) e h) = add_mset e (hash_elems h)"
    using push_own_bucket [OF g(1), of e] by (simp_all add: insert_elem_def)
qed

section \<open>The contract of the client\<close>

text \<open>
  The functions a client hands to \<^verbatim>\<open>hash_init\<close>: a comparison function and a hash function that gives tied
  elements the same value.
\<close>

locale hash_client = list_order lt for lt :: "'e \<Rightarrow> 'e \<Rightarrow> bool" +
  fixes hash :: "'e \<Rightarrow> u32"
  assumes hash_tied: "tied lt x y \<Longrightarrow> hash x = hash y"
begin

abbreviation table :: "'e hash \<Rightarrow> bool" where
  "table h \<equiv> hash_wf h \<and> h_less h = lt \<and> h_hash h = hash"

lemma tied_refl: "tied lt x x"
  using asym by (auto simp: tied_def)

lemma tied_sym: "tied lt x y \<Longrightarrow> tied lt y x"
  by (simp add: tied_def)

lemma tied_trans: "tied lt x y \<Longrightarrow> tied lt y z \<Longrightarrow> tied lt x z"
  using neg_trans by (auto simp: tied_def)

lemma tied_in_bucket:
  assumes "table h" and "x \<in># hash_elems h" and "tied lt x e"
  shows "x \<in> set (list_bucket h (find_bucket h e))"
proof -
  obtain b where "b \<in> set (h_buckets h)" "x \<in> set b" using assms(2) by (auto simp: hash_elems_def)
  then obtain i where i: "i < length (h_buckets h)" "x \<in> set (h_buckets h ! i)" by (metis in_set_conv_nth)
  moreover have "find_bucket h x = i" using assms(1) i by (simp add: hash_wf_def placed_def)
  moreover have "find_bucket h x = find_bucket h e"
    using assms hash_tied by (simp add: find_bucket_def)
  ultimately show ?thesis by (simp add: list_bucket_def)
qed

lemma in_bucket_elem:
  "table h \<Longrightarrow> x \<in> set (list_bucket h (find_bucket h e)) \<Longrightarrow> x \<in># hash_elems h"
  using placed_bucket [of h e] by (auto simp: hash_wf_def hash_elems_def list_bucket_def)

lemma table_unique:
  assumes "table h" "x \<in># hash_elems h" "y \<in># hash_elems h" "tied lt x e" "tied lt y e"
  shows "x = y"
proof -
  have "tied lt x y" by (rule tied_trans [OF assms(4) tied_sym [OF assms(5)]])
  then show ?thesis using assms(1-3) unfolding hash_wf_def keyed_def by blast
qed

lemma hash_find_eq: "table h \<Longrightarrow> hash_find h e = find (\<lambda>x. tied lt x e) (list_bucket h (find_bucket h e))"
  by (simp add: hash_find_def find_elem_def tied_def)

lemma hash_find_iff:
  assumes t: "table h"
  shows "hash_find h e = Some x \<longleftrightarrow> x \<in># hash_elems h \<and> tied lt x e"
proof
  assume "hash_find h e = Some x"
  then show "x \<in># hash_elems h \<and> tied lt x e"
    using find_SomeD [of _ _ x] in_bucket_elem [OF t] unfolding hash_find_eq [OF t] by blast
next
  assume x: "x \<in># hash_elems h \<and> tied lt x e"
  show "hash_find h e = Some x"
    unfolding hash_find_eq [OF t]
    using x tied_in_bucket [OF t] table_unique [OF t] in_bucket_elem [OF t] by (intro find_eqI) blast+
qed

lemma hash_find_None: "table h \<Longrightarrow> hash_find h e = None \<longleftrightarrow> (\<forall>x \<in># hash_elems h. \<not> tied lt x e)"
  using hash_find_iff [of h e] by (metis not_None_eq)

lemma find_elem_find: "find_elem h (find_bucket h e) e = hash_find h e"
  by (simp add: hash_find_def)

lemma keyed_add: "keyed lt M \<Longrightarrow> \<forall>x \<in># M. \<not> tied lt x e \<Longrightarrow> keyed lt (add_mset e M)"
  using tied_sym by (auto simp: keyed_def)

lemma once_add: "once M \<Longrightarrow> \<forall>x \<in># M. \<not> tied lt x e \<Longrightarrow> once (add_mset e M)"
  using tied_refl [of e] by (auto simp: once_def count_eq_zero_iff)

lemma keyed_diff: "keyed lt M \<Longrightarrow> keyed lt (M - N)"
  unfolding keyed_def by (meson in_diffD)

lemma once_diff: "once M \<Longrightarrow> once (M - N)"
  unfolding once_def by (metis count_diff diff_le_self order_trans)

lemma table_keyed: "table h \<Longrightarrow> once (hash_elems h)" "table h \<Longrightarrow> keyed lt (hash_elems h)"
  by (auto simp: hash_wf_def)

lemma table_rehash:
  assumes "placed h" "h_less h = lt" "h_hash h = hash" "unat (h_elem_cnt h) = size (hash_elems h)"
    and "once (hash_elems h)" and "keyed lt (hash_elems h)"
  shows "table (rehash ok h)" and "hash_elems (rehash ok h) = hash_elems h"
  using rehash_placed [OF assms(1), of ok] assms by (simp_all add: hash_wf_def)

lemma insert_elem_facts:
  assumes "unat (h_elem_cnt h) = size (hash_elems h)" and "size (hash_elems h) < 2 ^ 32 - 1"
  shows "unat (h_elem_cnt (insert_elem b e h)) = Suc (size (hash_elems h))"
    and "h_less (insert_elem b e h) = h_less h"
    and "h_hash (insert_elem b e h) = h_hash h"
  using assms by (simp_all add: insert_elem_def unat_plus_no_overflow)

lemma hash_insert_spec:
  assumes t: "table h" and "size (hash_elems h) < 2 ^ 32 - 1"
  shows "fst (hash_insert ok e h) = hash_find h e \<and> table (snd (hash_insert ok e h))
    \<and> hash_elems (snd (hash_insert ok e h))
      = (if hash_find h e = None then add_mset e (hash_elems h) else hash_elems h)"
proof (cases "hash_find h e")
  case None
  let ?g = "insert_elem (find_bucket h e) e h"
  have p: "placed h" "unat (h_elem_cnt h) = size (hash_elems h)" using t by (simp_all add: hash_wf_def)
  note f = insert_elem_placed [OF p(1), of e] insert_elem_facts [OF p(2) assms(2), of _ e]
  have n: "\<forall>x \<in># hash_elems h. \<not> tied lt x e" using None hash_find_None [OF t] by simp
  have "once (hash_elems ?g)" "keyed lt (hash_elems ?g)"
    unfolding f(2) using keyed_add once_add table_keyed [OF t] n by blast+
  with f t have "table (rehash ok ?g)" "hash_elems (rehash ok ?g) = hash_elems ?g"
    using table_rehash [of ?g ok] by simp_all
  with None f show ?thesis by (simp add: hash_insert_def find_elem_find Let_def)
next
  case (Some x)
  with t table_rehash [of h ok] table_keyed [OF t] show ?thesis
    by (simp add: hash_insert_def find_elem_find Let_def hash_wf_def)
qed

lemma remove_elem_facts:
  assumes t: "table h" and x: "x \<in># hash_elems h"
  shows "placed (remove_elem x h)" and "hash_elems (remove_elem x h) = hash_elems h - {#x#}"
    and "unat (h_elem_cnt (remove_elem x h)) = size (hash_elems h) - 1"
    and "find_bucket (remove_elem x h) = find_bucket h"
    and "h_less (remove_elem x h) = lt" and "h_hash (remove_elem x h) = hash"
proof -
  have "0 < size (hash_elems h)" using x by (metis gr0I size_eq_0_iff_empty empty_iff set_mset_empty)
  then have "unat (1 :: u32) \<le> unat (h_elem_cnt h)" using t by (simp add: hash_wf_def)
  then show "unat (h_elem_cnt (remove_elem x h)) = size (hash_elems h) - 1"
    using t unat_minus_no_underflow [of "1 :: u32" "h_elem_cnt h"] by (simp add: remove_elem_def hash_wf_def)
  show "placed (remove_elem x h)" "hash_elems (remove_elem x h) = hash_elems h - {#x#}"
    using remove_elem_placed [of h x] t x by (simp_all add: hash_wf_def hash_elems_def distinct_iff_once)
qed (use t in \<open>simp_all add: remove_elem_def find_bucket_def fun_eq_iff\<close>)

lemma hash_delete_spec:
  assumes t: "table h"
  shows "fst (hash_delete ok e h) = hash_find h e \<and> table (snd (hash_delete ok e h))
    \<and> hash_elems (snd (hash_delete ok e h))
      = (case hash_find h e of None \<Rightarrow> hash_elems h | Some x \<Rightarrow> hash_elems h - {#x#})"
proof (cases "hash_find h e")
  case None
  with t show ?thesis by (simp add: hash_delete_def find_elem_find)
next
  case (Some x)
  then have x: "x \<in># hash_elems h" using hash_find_iff [OF t] by simp
  note f = remove_elem_facts [OF t x]
  have "once (hash_elems (remove_elem x h))" "keyed lt (hash_elems (remove_elem x h))"
    unfolding f(2) using keyed_diff once_diff table_keyed [OF t] by blast+
  then have "table (rehash ok (remove_elem x h))" "hash_elems (rehash ok (remove_elem x h)) = hash_elems (remove_elem x h)"
    using f x table_rehash [of "remove_elem x h" ok] by (simp_all add: size_Diff_singleton)
  with Some f show ?thesis by (simp add: hash_delete_def find_elem_find)
qed

lemma hash_replace_spec:
  assumes t: "table h" and n: "size (hash_elems h) < 2 ^ 32 - 1"
  shows "fst (hash_replace ok e h) = hash_find h e \<and> table (snd (hash_replace ok e h))
    \<and> hash_elems (snd (hash_replace ok e h))
      = add_mset e (case hash_find h e of None \<Rightarrow> hash_elems h | Some x \<Rightarrow> hash_elems h - {#x#})"
proof -
  define g where "g = (case hash_find h e of None \<Rightarrow> h | Some x \<Rightarrow> remove_elem x h)"
  define M where "M = (case hash_find h e of None \<Rightarrow> hash_elems h | Some x \<Rightarrow> hash_elems h - {#x#})"
  have g: "placed g \<and> hash_elems g = M \<and> unat (h_elem_cnt g) = size M \<and> find_bucket g = find_bucket h
      \<and> h_less g = lt \<and> h_hash g = hash"
  proof (cases "hash_find h e")
    case None
    with t show ?thesis by (simp add: g_def M_def hash_wf_def)
  next
    case (Some x)
    then have "x \<in># hash_elems h" using hash_find_iff [OF t] by simp
    with Some remove_elem_facts [OF t this] show ?thesis by (simp add: g_def M_def size_Diff_singleton)
  qed
  have no: "\<forall>x \<in># M. \<not> tied lt x e"
  proof (cases "hash_find h e")
    case None
    then have "M = hash_elems h" by (simp add: M_def)
    with None hash_find_None [OF t, of e] show ?thesis by simp
  next
    case (Some x)
    then have x: "x \<in># hash_elems h" "tied lt x e" using hash_find_iff [OF t] by simp_all
    have "count M x = 0" using table_keyed(1) [OF t] Some by (simp add: M_def once_def)
    then have "x \<notin># M" by (simp add: count_eq_zero_iff)
    with Some x show ?thesis using table_unique [OF t x(1)] by (auto simp: M_def dest: in_diffD)
  qed
  have m: "once M" "keyed lt M" using table_keyed [OF t] keyed_diff once_diff by (auto simp: M_def split: option.split)
  have "size M \<le> size (hash_elems h)" by (auto simp: M_def size_mset_mono split: option.split)
  with n g have "size (hash_elems g) < 2 ^ 32 - 1" by simp
  with g have f: "placed (insert_elem (find_bucket g e) e g)"
    "hash_elems (insert_elem (find_bucket g e) e g) = add_mset e M"
    "unat (h_elem_cnt (insert_elem (find_bucket g e) e g)) = Suc (size M)"
    "h_less (insert_elem (find_bucket g e) e g) = lt" "h_hash (insert_elem (find_bucket g e) e g) = hash"
    using insert_elem_placed [of g e] insert_elem_facts [of g _ e] by simp_all
  have "hash_replace ok e h = (hash_find h e, rehash ok (insert_elem (find_bucket g e) e g))"
    using g by (simp add: hash_replace_def find_elem_find Let_def g_def)
  with table_rehash [OF f(1) f(4) f(5)] f keyed_add [OF m(2) no] once_add [OF m(1) no] show ?thesis
    by (simp add: M_def)
qed

end

lemma hash_init_wf:
  assumes "hash_init ok hash lt = Some h"
  shows "hash_wf h" "hash_elems h = {#}" "h_less h = lt" "h_hash h = hash"
proof -
  have "\<exists>k < 32. (4 :: nat) = 2 ^ k" by (rule exI [of _ 2]) simp
  then show "hash_wf h" "hash_elems h = {#}" "h_less h = lt" "h_hash h = hash"
    using assms by (auto simp: hash_init_def hash_clear_def hash_wf_def placed_def hash_elems_def once_def keyed_def
        split: if_splits)
qed

section \<open>Iteration\<close>

text \<open>The iteration idiom documented at \<^verbatim>\<open>hash_first\<close>, collecting the elements.\<close>

partial_function (option) hash_iterate :: "'e hash \<Rightarrow> hash_iterator \<Rightarrow> 'e list option" where
  "hash_iterate h it = do {
     (e, it) \<leftarrow> hash_next h it;
     case e of None \<Rightarrow> Some [] | Some x \<Rightarrow> do { xs \<leftarrow> hash_iterate h it; Some (x # xs) }
   }"

lemma next_loop_spec:
  assumes "length (h_buckets h) = unat (h_bucket_cnt h)" and "b < length (h_buckets h)"
    and "1 \<le> n" and "n \<le> Suc (length (h_buckets h ! b))"
  shows "drop (n - 1) (h_buckets h ! b) @ concat (drop (Suc b) (h_buckets h)) = [] \<and> it_elem (next_loop h b n) = None
    \<or> (\<exists>b' n'. next_loop h b n = \<lparr>it_bucket = b', it_elem = Some n'\<rparr> \<and> b' < length (h_buckets h) \<and> 1 \<le> n'
         \<and> n' \<le> length (h_buckets h ! b')
         \<and> drop (n - 1) (h_buckets h ! b) @ concat (drop (Suc b) (h_buckets h))
           = (h_buckets h ! b' ! (n' - 1)) # drop n' (h_buckets h ! b') @ concat (drop (Suc b') (h_buckets h)))"
  using assms
proof (induction h b n rule: next_loop.induct)
  case (1 h b n)
  show ?case
  proof (cases "n = Suc (length (list_bucket h b))")
    case False
    then have n: "n \<le> length (h_buckets h ! b)" using 1(5) by (simp add: list_bucket_def)
    then have "drop (n - 1) (h_buckets h ! b) = (h_buckets h ! b ! (n - 1)) # drop n (h_buckets h ! b)"
      using 1(4) Cons_nth_drop_Suc [of "n - 1" "h_buckets h ! b"] by simp
    with False n 1(3,4) show ?thesis by (subst (2) next_loop.simps) simp
  next
    case True
    then have d: "drop (n - 1) (h_buckets h ! b) = []" by (simp add: list_bucket_def)
    show ?thesis
    proof (cases "Suc b < unat (h_bucket_cnt h)")
      case True': True
      have "concat (drop (Suc b) (h_buckets h)) = h_buckets h ! Suc b @ concat (drop (Suc (Suc b)) (h_buckets h))"
        using True' 1(2) Cons_nth_drop_Suc [of "Suc b" "h_buckets h"] by (metis concat.simps(2))
      moreover have "next_loop h b n = next_loop h (Suc b) 1" using True True' by (subst next_loop.simps) simp
      ultimately show ?thesis using 1(1) [OF True] True' 1(2) d by simp
    next
      case False
      then have "next_loop h b n = \<lparr>it_bucket = Suc b, it_elem = None\<rparr>"
        using True by (subst next_loop.simps) simp
      moreover have "drop (Suc b) (h_buckets h) = []" using False 1(2) by simp
      ultimately show ?thesis using d by simp
    qed
  qed
qed

lemma hash_iterate_from:
  assumes "length (h_buckets h) = unat (h_bucket_cnt h)" and "b < length (h_buckets h)"
    and "n \<le> length (h_buckets h ! b)"
  shows "hash_iterate h \<lparr>it_bucket = b, it_elem = Some n\<rparr>
    = Some (drop n (h_buckets h ! b) @ concat (drop (Suc b) (h_buckets h)))"
  using assms
proof (induction "drop n (h_buckets h ! b) @ concat (drop (Suc b) (h_buckets h))" arbitrary: b n)
  case Nil
  have e: "drop n (h_buckets h ! b) @ concat (drop (Suc b) (h_buckets h)) = []" by (rule Nil(1) [symmetric])
  have "it_elem (next_loop h b (Suc n)) = None"
    using next_loop_spec [of h b "Suc n"] Nil(2-4) unfolding diff_Suc_1 e by simp
  with Nil show ?case by (subst hash_iterate.simps) (simp add: hash_next_def list_bucket_def hash_cur_def)
next
  case (Cons x xs)
  have e: "drop n (h_buckets h ! b) @ concat (drop (Suc b) (h_buckets h)) = x # xs" by (rule Cons(2) [symmetric])
  obtain b' n' where i: "next_loop h b (Suc n) = \<lparr>it_bucket = b', it_elem = Some n'\<rparr>" "b' < length (h_buckets h)"
    "1 \<le> n'" "n' \<le> length (h_buckets h ! b')" "x = h_buckets h ! b' ! (n' - 1)"
    "xs = drop n' (h_buckets h ! b') @ concat (drop (Suc b') (h_buckets h))"
    using next_loop_spec [of h b "Suc n"] Cons.prems unfolding diff_Suc_1 e by auto
  have nx: "hash_next h \<lparr>it_bucket = b, it_elem = Some n\<rparr> = Some (Some x, \<lparr>it_bucket = b', it_elem = Some n'\<rparr>)"
    using i(1,5) Cons.prems(3) by (simp add: hash_next_def list_bucket_def hash_cur_def)
  have it: "hash_iterate h \<lparr>it_bucket = b', it_elem = Some n'\<rparr> = Some xs"
    unfolding i(6) by (rule Cons.hyps(1) [OF i(6) assms(1) i(2) i(4)])
  show ?case unfolding e by (subst hash_iterate.simps) (simp add: nx it)
qed

section \<open>Properties\<close>

lemma hash_insert_buckets:
  assumes "placed h" and "hash_wf (snd (hash_insert True e h))"
  shows "\<exists>k. unat (h_bucket_cnt (snd (hash_insert True e h))) = 2 ^ k
    \<and> 2 ^ k \<le> max 4 (size (hash_elems (snd (hash_insert True e h))) div 2)
    \<and> max 4 (size (hash_elems (snd (hash_insert True e h))) div 2) < 2 ^ Suc k"
proof -
  define g where "g = (if find_elem h (find_bucket h e) e = None then insert_elem (find_bucket h e) e h else h)"
  have r: "snd (hash_insert True e h) = rehash True g" by (simp add: hash_insert_def g_def Let_def)
  have g: "placed g" using assms(1) insert_elem_placed(1) [of h e] by (simp add: g_def)
  obtain k where "unat (ideal_bucket_cnt g) = 2 ^ k" "2 ^ k \<le> max 4 (unat (h_elem_cnt g) div 2)"
    "max 4 (unat (h_elem_cnt g) div 2) < 2 ^ Suc k"
    using ideal_bucket_cnt_bounds [of g] by blast
  moreover have "unat (h_elem_cnt g) = size (hash_elems g)"
    using rehash_placed [OF g, of True] assms(2) unfolding r hash_wf_def by simp
  ultimately show ?thesis using rehash_placed [OF g, of True] unfolding r by (intro exI [of _ k]) simp
qed

text \<open>
  C18. A hash table is a finite set of elements that are pairwise untied. In every well-formed table, \<^verbatim>\<open>hash_find\<close>
  returns the one element tied with its argument, \<^verbatim>\<open>hash_insert\<close> adds its argument exactly when there is none,
  \<^verbatim>\<open>hash_replace\<close> puts it in place of that one, \<^verbatim>\<open>hash_delete\<close> removes that one; each returns what
  \<^verbatim>\<open>hash_find\<close> would have, keeps the table well formed and changes no other element, whether or not the
  allocation for new buckets succeeds. When it succeeds, an insertion leaves as many buckets as the greatest
  power of two that is at most half the number of elements, and at least four.
\<close>

theorem hash_table_refines_set:
  assumes "hash_client lt hash" and "hash_wf h" and "h_less h = lt" and "h_hash h = hash"
    and "size (hash_elems h) < 2 ^ 32 - 1"
  shows "(\<forall>x. hash_find h e = Some x \<longleftrightarrow> x \<in># hash_elems h \<and> tied lt x e)
    \<and> (\<exists>g. hash_insert ok e h = (hash_find h e, g) \<and> hash_wf g \<and> h_less g = lt \<and> h_hash g = hash
        \<and> hash_elems g = (if hash_find h e = None then add_mset e (hash_elems h) else hash_elems h)
        \<and> (ok \<longrightarrow> (\<exists>k. unat (h_bucket_cnt g) = 2 ^ k \<and> 2 ^ k \<le> max 4 (size (hash_elems g) div 2)
              \<and> max 4 (size (hash_elems g) div 2) < 2 ^ Suc k)))
    \<and> (\<exists>g. hash_replace ok e h = (hash_find h e, g) \<and> hash_wf g \<and> h_less g = lt \<and> h_hash g = hash
        \<and> hash_elems g = add_mset e (hash_elems h - mset_set (set_option (hash_find h e))))
    \<and> (\<exists>g. hash_delete ok e h = (hash_find h e, g) \<and> hash_wf g \<and> h_less g = lt \<and> h_hash g = hash
        \<and> hash_elems g = hash_elems h - mset_set (set_option (hash_find h e)))"
proof -
  note t = conjI [OF assms(2) conjI [OF assms(3,4)]]
  have m: "(case hash_find h e of None \<Rightarrow> hash_elems h | Some x \<Rightarrow> hash_elems h - {#x#})
      = hash_elems h - mset_set (set_option (hash_find h e))" by (simp split: option.split)
  note i = hash_client.hash_insert_spec [OF assms(1) t assms(5), of ok e]
    and r = hash_client.hash_replace_spec [OF assms(1) t assms(5), of ok e]
    and d = hash_client.hash_delete_spec [OF assms(1) t, of ok e]
  have "placed h" using assms(2) by (simp add: hash_wf_def)
  note b = hash_insert_buckets [OF this, of e]
  have p: "fst q = a \<Longrightarrow> q = (a, snd q)" for a :: "'a option" and q :: "'a option \<times> 'a hash" by (cases q) simp
  have ie: "hash_insert ok e h = (hash_find h e, snd (hash_insert ok e h))" using i p by blast
  have ib: "ok \<longrightarrow> (\<exists>k. unat (h_bucket_cnt (snd (hash_insert ok e h))) = 2 ^ k
      \<and> 2 ^ k \<le> max 4 (size (hash_elems (snd (hash_insert ok e h))) div 2)
      \<and> max 4 (size (hash_elems (snd (hash_insert ok e h))) div 2) < 2 ^ Suc k)"
  proof (cases ok)
    case True
    then have o: "ok = True" by simp
    show ?thesis using b i unfolding o by blast
  qed simp
  show ?thesis
  proof (intro conjI)
    show "\<forall>x. hash_find h e = Some x \<longleftrightarrow> x \<in># hash_elems h \<and> tied lt x e"
      using hash_client.hash_find_iff [OF assms(1) t, of e] by blast
  next
    show "\<exists>g. hash_insert ok e h = (hash_find h e, g) \<and> hash_wf g \<and> h_less g = lt \<and> h_hash g = hash
        \<and> hash_elems g = (if hash_find h e = None then add_mset e (hash_elems h) else hash_elems h)
        \<and> (ok \<longrightarrow> (\<exists>k. unat (h_bucket_cnt g) = 2 ^ k \<and> 2 ^ k \<le> max 4 (size (hash_elems g) div 2)
              \<and> max 4 (size (hash_elems g) div 2) < 2 ^ Suc k))"
      using i ie ib by (intro exI [of _ "snd (hash_insert ok e h)"]) blast
  next
    show "\<exists>g. hash_replace ok e h = (hash_find h e, g) \<and> hash_wf g \<and> h_less g = lt \<and> h_hash g = hash
        \<and> hash_elems g = add_mset e (hash_elems h - mset_set (set_option (hash_find h e)))"
      using r p unfolding m by (intro exI [of _ "snd (hash_replace ok e h)"]) blast
  next
    show "\<exists>g. hash_delete ok e h = (hash_find h e, g) \<and> hash_wf g \<and> h_less g = lt \<and> h_hash g = hash
        \<and> hash_elems g = hash_elems h - mset_set (set_option (hash_find h e))"
      using d p unfolding m by (intro exI [of _ "snd (hash_delete ok e h)"]) blast
  qed
qed

definition table_ex :: "nat hash" where
  "table_ex = snd (hash_insert True 7 (snd (hash_insert True 3 (the (hash_init True of_nat (<))))))"

lemma hash_client_nat: "hash_client ((<) :: nat \<Rightarrow> nat \<Rightarrow> bool) (of_nat :: nat \<Rightarrow> u32)"
  by unfold_locales (auto simp: tied_def)

lemma table_ex_eq:
  "table_ex = \<lparr>h_elem_cnt = 2, h_bucket_cnt = 4, h_buckets = [[], [], [], [7, 3]], h_hash = of_nat, h_less = (<)\<rparr>"
proof -
  have p: "power_loop 4 = 4"
    by (subst power_loop.simps) (simp add: is_power_of_2_def turn_off_least_1bit_def)
  have r: "replicate 4 ([] :: nat list) = [[], [], [], []]" by (simp add: eval_nat_numeral)
  show ?thesis
    by (simp add: table_ex_def hash_init_def hash_clear_def hash_insert_def find_elem_def list_bucket_def find_bucket_def
        insert_elem_def push_bucket_def rehash_def ideal_bucket_cnt_def BEST_ELEMS_PER_BUCKET_def Let_def p r)
qed

lemma table_ex_wf: "hash_wf table_ex \<and> h_less table_ex = (<) \<and> h_hash table_ex = of_nat \<and> hash_elems table_ex = {#3, 7#}"
proof -
  have i: "i < Suc (Suc (Suc (Suc 0))) \<longleftrightarrow> i = 0 \<or> i = 1 \<or> i = 2 \<or> i = 3" for i :: nat by auto
  have "placed table_ex" by (auto simp: placed_def table_ex_eq find_bucket_def i intro: exI [of _ 2])
  then show ?thesis by (auto simp: hash_wf_def table_ex_eq hash_elems_def once_def keyed_def tied_def)
qed

theorem hash_table_refines_set_witness:
  "hash_find table_ex 7 = Some 7 \<and> (\<exists>g. hash_delete False 7 table_ex = (Some 7, g) \<and> hash_elems g = {#3#})"
proof -
  note w = hash_table_refines_set [OF hash_client_nat, of table_ex 7 False]
  have f: "hash_find table_ex 7 = Some 7" using w table_ex_wf by (simp add: tied_def)
  with w table_ex_wf show ?thesis by auto
qed

text \<open>
  C19. The iteration idiom \<^verbatim>\<open>hash_first\<close>, \<^verbatim>\<open>while (hash_next ...)\<close> terminates without a panic, visits every element of
  the table exactly once, and in the order in which \<^verbatim>\<open>hash_apply\<close> applies its action and \<^verbatim>\<open>hash_clear\<close> its
  destructor; the clear leaves an empty, well-formed table.
\<close>

theorem hash_iteration_complete:
  assumes "hash_wf h"
  shows "\<exists>xs. hash_iterate h hash_first = Some xs \<and> mset xs = hash_elems h \<and> distinct xs
    \<and> unat (hash_size h) = length xs \<and> hash_empty h = (xs = [])
    \<and> hash_apply action h s = fold action xs s
    \<and> snd (hash_clear (Some action) h s) = fold action xs s
    \<and> hash_wf (fst (hash_clear d h s)) \<and> hash_elems (fst (hash_clear d h s)) = {#}"
proof (intro exI conjI)
  let ?xs = "concat (h_buckets h)"
  obtain k where k: "unat (h_bucket_cnt h) = 2 ^ k" "length (h_buckets h) = 2 ^ k"
    using assms by (auto simp: hash_wf_def placed_def)
  then have ne: "h_buckets h \<noteq> []" by auto
  then have "?xs = drop 0 (h_buckets h ! 0) @ concat (drop (Suc 0) (h_buckets h))"
    by (cases "h_buckets h") simp_all
  then show "hash_iterate h hash_first = Some ?xs"
    using hash_iterate_from [of h 0 0] k ne by (simp add: hash_first_def)
  show c: "mset ?xs = hash_elems h" by (simp add: hash_elems_def)
  show "distinct ?xs" using assms by (simp add: distinct_iff_once c hash_wf_def)
  show n: "unat (hash_size h) = length ?xs"
    using assms by (simp add: hash_wf_def hash_size_def hash_elems_def)
  show "hash_empty h = (?xs = [])"
    using n by (metis hash_empty_def hash_size_def length_0_conv unat_0 unat_eq_zero)
  show "hash_apply action h s = fold action ?xs s" by (simp add: hash_apply_def fold_fold_concat)
  show "snd (hash_clear (Some action) h s) = fold action ?xs s" by (simp add: hash_clear_def fold_fold_concat)
  have m: "concat (map (\<lambda>_. []) (h_buckets h)) = []" by simp
  show "hash_elems (fst (hash_clear d h s)) = {#}" by (simp add: hash_clear_def hash_elems_def m)
  show "hash_wf (fst (hash_clear d h s))"
    using assms by (auto simp: hash_wf_def hash_clear_def hash_elems_def placed_def once_def keyed_def m)
qed

theorem hash_iteration_complete_witness:
  "\<exists>xs. hash_iterate table_ex hash_first = Some xs \<and> mset xs = {#3, 7#} \<and> hash_apply (#) table_ex [] = rev xs"
proof -
  have "fold (#) xs [] = rev xs" for xs :: "nat list" by (simp add: fold_Cons_rev)
  then show ?thesis
    using hash_iteration_complete [of table_ex "(#)" "[]" None] table_ex_wf by auto
qed

end
