(* ===== verification/Fd_Table.thy ===== *)
theory Fd_Table
  imports Hash_Table
begin

text \<open>
  The file descriptor table of a process (\<^verbatim>\<open>fdt_cmp\<close>, \<^verbatim>\<open>fdt_hash\<close>, \<^verbatim>\<open>fdt_search\<close>, \<^verbatim>\<open>fdt_insert\<close> and \<^verbatim>\<open>fdt_close\<close> of
  \<^verbatim>\<open>threads/thread.c\<close>), a client of the hash table. A descriptor structure is its two fields and its address.
  \<^term>\<open>ok\<close> says which allocations of new buckets succeed.
\<close>

section \<open>Definitions\<close>

record file_descriptor =
  fd :: int
  file_ptr :: nat
  fd_addr :: nat

definition INT32_MAX :: int where
  "INT32_MAX = 2147483647"

definition fdt_cmp :: "file_descriptor \<Rightarrow> file_descriptor \<Rightarrow> bool" where
  "fdt_cmp a b \<longleftrightarrow> fd a < fd b"

definition fdt_hash :: "file_descriptor \<Rightarrow> u32" where
  "fdt_hash e = hash_int (word_of_int (fd e))"

text \<open>
  The search inserts a descriptor structure on the stack, of which only the field \<^verbatim>\<open>fd\<close> is initialized, and
  removes it again if the insertion succeeded.
\<close>

definition fdt_search ::
  "(nat \<Rightarrow> bool) \<Rightarrow> file_descriptor \<Rightarrow> file_descriptor hash \<Rightarrow> int \<Rightarrow> file_descriptor option \<times> file_descriptor hash" where
  "fdt_search ok stack_slot h n =
     (let singleton = stack_slot\<lparr>fd := n\<rparr>;
          (found_elem, h) = hash_insert (ok 0) singleton h
      in if found_elem \<noteq> None then (found_elem, h)
         else (None, snd (hash_delete (ok 1) singleton h)))"

function fdt_insert_loop ::
  "(nat \<Rightarrow> bool) \<Rightarrow> file_descriptor \<Rightarrow> int \<Rightarrow> file_descriptor hash \<Rightarrow> file_descriptor
     \<Rightarrow> (bool \<times> file_descriptor) \<times> file_descriptor hash" where
  "fdt_insert_loop ok stack_slot curr_fd h fdt_entry =
     (if curr_fd < INT32_MAX then
        (let (found, h) = fdt_search ok stack_slot h curr_fd
         in if found = None
            then (let fdt_entry = fdt_entry\<lparr>fd := curr_fd\<rparr>
                  in ((True, fdt_entry), snd (hash_insert (ok 2) fdt_entry h)))
            else fdt_insert_loop (\<lambda>n. ok (n + 3)) stack_slot (curr_fd + 1) h fdt_entry)
      else ((False, fdt_entry), h))"
  by pat_completeness auto
termination by (relation "measure (\<lambda>(_, _, curr_fd, _). nat (INT32_MAX - curr_fd))") auto

declare fdt_insert_loop.simps [simp del]

definition fdt_insert ::
  "(nat \<Rightarrow> bool) \<Rightarrow> file_descriptor \<Rightarrow> file_descriptor hash \<Rightarrow> file_descriptor
     \<Rightarrow> (bool \<times> file_descriptor) \<times> file_descriptor hash" where
  "fdt_insert ok stack_slot h fdt_entry = fdt_insert_loop ok stack_slot 2 h fdt_entry"

text \<open>The file to be closed, and the table without the descriptor.\<close>

definition fdt_close :: "bool \<Rightarrow> file_descriptor \<Rightarrow> file_descriptor hash \<Rightarrow> nat \<times> file_descriptor hash" where
  "fdt_close ok e h = (file_ptr e, snd (hash_delete ok e h))"

section \<open>The table is a hash table keyed by descriptor number\<close>

interpretation fdt: hash_client fdt_cmp fdt_hash
  by unfold_locales (auto simp: fdt_cmp_def fdt_hash_def tied_def)

abbreviation fd_table :: "file_descriptor hash \<Rightarrow> bool" where
  "fd_table h \<equiv> hash_wf h \<and> h_less h = fdt_cmp \<and> h_hash h = fdt_hash"

definition fds :: "file_descriptor hash \<Rightarrow> int set" where
  "fds h = fd ` set_mset (hash_elems h)"

lemma tied_fdt [simp]: "tied fdt_cmp a b \<longleftrightarrow> fd a = fd b"
  by (auto simp: tied_def fdt_cmp_def)

lemma hash_find_fd: "fd_table h \<Longrightarrow> hash_find h e = None \<longleftrightarrow> fd e \<notin> fds h"
  using fdt.hash_find_None [of h e] unfolding fds_def tied_fdt by (metis image_iff)

lemma fdt_search_spec:
  assumes t: "fd_table h" and n: "size (hash_elems h) < 2 ^ 32 - 1"
  shows "(case fst (fdt_search ok k h m) of None \<Rightarrow> m \<notin> fds h | Some e \<Rightarrow> e \<in># hash_elems h \<and> fd e = m)
    \<and> fd_table (snd (fdt_search ok k h m)) \<and> hash_elems (snd (fdt_search ok k h m)) = hash_elems h"
proof -
  define s where "s = k\<lparr>fd := m\<rparr>"
  obtain r g where g: "hash_insert (ok 0) s h = (r, g)" by fastforce
  have i: "r = hash_find h s" "fd_table g"
    "hash_elems g = (if hash_find h s = None then add_mset s (hash_elems h) else hash_elems h)"
    using fdt.hash_insert_spec [OF t n, of "ok 0" s] g by simp_all
  show ?thesis
  proof (cases r)
    case (Some e)
    then have "e \<in># hash_elems h \<and> fd e = m"
      using i(1) fdt.hash_find_iff [OF t, of s e] by (simp add: s_def)
    with Some i g show ?thesis by (simp add: fdt_search_def s_def [symmetric])
  next
    case None
    have "s \<in># hash_elems g" using i None by simp
    then have "hash_find g s = Some s" using fdt.hash_find_iff [OF i(2), of s s] by simp
    then have "fd_table (snd (hash_delete (ok 1) s g))" "hash_elems (snd (hash_delete (ok 1) s g)) = hash_elems h"
      using fdt.hash_delete_spec [OF i(2), of "ok 1" s] i None by simp_all
    moreover have "m \<notin> fds h" using i(1) None hash_find_fd [OF t, of s] by (simp add: s_def)
    ultimately show ?thesis using None g by (simp add: fdt_search_def s_def [symmetric])
  qed
qed

lemma fdt_insert_loop_spec:
  assumes "fd_table h" and "size (hash_elems h) < 2 ^ 32 - 1"
    and "c \<le> n" and "n < INT32_MAX" and "n \<notin> fds h" and "\<forall>m. c \<le> m \<and> m < n \<longrightarrow> m \<in> fds h"
  shows "\<exists>g. fdt_insert_loop ok k c h e = ((True, e\<lparr>fd := n\<rparr>), g) \<and> fd_table g
    \<and> hash_elems g = add_mset (e\<lparr>fd := n\<rparr>) (hash_elems h)"
  using assms
proof (induction ok k c h e rule: fdt_insert_loop.induct)
  case (1 ok k c h e)
  obtain r g where g: "fdt_search ok k h c = (r, g)" by fastforce
  have s: "case r of None \<Rightarrow> c \<notin> fds h | Some e \<Rightarrow> e \<in># hash_elems h \<and> fd e = c" "fd_table g"
    "hash_elems g = hash_elems h" "fds g = fds h"
    using fdt_search_spec [OF 1(2,3), of c ok k] g by (simp_all add: fds_def)
  have c: "c < INT32_MAX" using 1(4,5) by simp
  have n: "size (hash_elems g) < 2 ^ 32 - 1" using 1(3) s(3) by simp
  show ?case
  proof (cases "c = n")
    case True
    then have r: "r = None" using s(1) 1(6) by (auto simp: fds_def split: option.splits)
    have "hash_find g (e\<lparr>fd := n\<rparr>) = None" using hash_find_fd [OF s(2)] s(4) 1(6) by simp
    with True r c g fdt.hash_insert_spec [OF s(2) n, of "ok 2" "e\<lparr>fd := n\<rparr>"] s(3) show ?thesis
      by (subst fdt_insert_loop.simps) (simp add: Let_def)
  next
    case False
    then have "c \<in> fds h" using 1(4,7) by auto
    then have r: "r \<noteq> None" using s(1) by (auto split: option.splits)
    have "\<exists>g'. fdt_insert_loop (\<lambda>n. ok (n + 3)) k (c + 1) g e = ((True, e\<lparr>fd := n\<rparr>), g') \<and> fd_table g'
      \<and> hash_elems g' = add_mset (e\<lparr>fd := n\<rparr>) (hash_elems g)"
      using 1(1) [OF c g [symmetric] refl r s(2) n] 1(4-7) s(4) False by simp
    moreover obtain y where "r = Some y" using r by blast
    ultimately show ?thesis using c g s(3) by (subst fdt_insert_loop.simps) simp
  qed
qed

lemma card_set_mset_le: "card (set_mset M) \<le> size M"
  by (induction M) (auto simp: card_insert_if)

lemma least_free_fd:
  assumes "size (hash_elems h) < 2147483645"
  shows "\<exists>n. 2 \<le> n \<and> n < INT32_MAX \<and> n \<notin> fds h \<and> (\<forall>m. 2 \<le> m \<and> m < n \<longrightarrow> m \<in> fds h)"
proof -
  have "card (fds h) \<le> size (hash_elems h)"
    unfolding fds_def by (rule order_trans [OF card_image_le card_set_mset_le]) simp
  with assms have "card (fds h) < card {2 ..< INT32_MAX}" by (simp add: INT32_MAX_def)
  moreover have "finite (fds h)" by (simp add: fds_def)
  ultimately obtain n0 where "n0 \<in> {2 ..< INT32_MAX}" "n0 \<notin> fds h" by (meson card_mono leD subsetI)
  then have "\<exists>k :: nat. int k + 2 < INT32_MAX \<and> int k + 2 \<notin> fds h" by (intro exI [of _ "nat (n0 - 2)"]) auto
  then obtain k :: nat where k: "int k + 2 < INT32_MAX" "int k + 2 \<notin> fds h"
    and least: "\<And>j. j < k \<Longrightarrow> \<not> (int j + 2 < INT32_MAX \<and> int j + 2 \<notin> fds h)"
    using exists_least_iff [of "\<lambda>k. int k + 2 < INT32_MAX \<and> int k + 2 \<notin> fds h"] by blast
  have "m \<in> fds h" if "2 \<le> m" "m < int k + 2" for m
    using least [of "nat (m - 2)"] that k(1) by auto
  with k show ?thesis by (intro exI [of _ "int k + 2"]) auto
qed

section \<open>Properties\<close>

text \<open>
  C20. Opening a descriptor. On a well-formed table with fewer than 2147483645 descriptors, \<^verbatim>\<open>fdt_insert\<close> succeeds and gives
  the entry the least number from 2 on that is not in use; searching for that number then finds the
  entry, searching for any other number finds what it found before, and closing the entry gives the old
  descriptors back.
\<close>

theorem fdt_insert_least_free:
  assumes "fd_table h" and "size (hash_elems h) < 2147483645"
  shows "\<exists>n g. fdt_insert ok k h e = ((True, e\<lparr>fd := n\<rparr>), g) \<and> fd_table g
    \<and> 2 \<le> n \<and> n < INT32_MAX \<and> n \<notin> fds h \<and> (\<forall>m. 2 \<le> m \<and> m < n \<longrightarrow> m \<in> fds h)
    \<and> fst (fdt_search ok' k' g n) = Some (e\<lparr>fd := n\<rparr>)
    \<and> (\<forall>m. m \<noteq> n \<longrightarrow> fst (fdt_search ok' k' g m) = fst (fdt_search ok' k' h m))
    \<and> hash_elems (snd (fdt_close c (e\<lparr>fd := n\<rparr>) g)) = hash_elems h"
proof -
  obtain n where n: "2 \<le> n" "n < INT32_MAX" "n \<notin> fds h" "\<forall>m. 2 \<le> m \<and> m < n \<longrightarrow> m \<in> fds h"
    using least_free_fd [OF assms(2)] by blast
  have s: "size (hash_elems h) < 2 ^ 32 - 1" using assms(2) by simp
  obtain g where g: "fdt_insert ok k h e = ((True, e\<lparr>fd := n\<rparr>), g)" "fd_table g"
    "hash_elems g = add_mset (e\<lparr>fd := n\<rparr>) (hash_elems h)"
    using fdt_insert_loop_spec [OF assms(1) s n(1-4)] by (force simp: fdt_insert_def)
  have sg: "size (hash_elems g) < 2 ^ 32 - 1" using assms(2) g(3) by simp
  have find: "fst (fdt_search ok' k' t m) = hash_find t (k'\<lparr>fd := m\<rparr>)"
    if "fd_table t" "size (hash_elems t) < 2 ^ 32 - 1" for t m
    using fdt.hash_insert_spec [OF that, of "ok' 0" "k'\<lparr>fd := m\<rparr>"]
    by (auto simp: fdt_search_def Let_def split: prod.splits)
  have other: "hash_find g (k'\<lparr>fd := m\<rparr>) = hash_find h (k'\<lparr>fd := m\<rparr>)" if "m \<noteq> n" for m
  proof (rule option.expand)
    show "(hash_find g (k'\<lparr>fd := m\<rparr>) = None) = (hash_find h (k'\<lparr>fd := m\<rparr>) = None)"
      using that hash_find_fd [OF g(2)] hash_find_fd [OF assms(1)] g(3) by (simp add: fds_def)
    assume "hash_find g (k'\<lparr>fd := m\<rparr>) \<noteq> None" "hash_find h (k'\<lparr>fd := m\<rparr>) \<noteq> None"
    then obtain x where x: "hash_find g (k'\<lparr>fd := m\<rparr>) = Some x" by blast
    then have "hash_find h (k'\<lparr>fd := m\<rparr>) = Some x"
      using that fdt.hash_find_iff [OF g(2)] fdt.hash_find_iff [OF assms(1)] g(3) by auto
    with x show "the (hash_find g (k'\<lparr>fd := m\<rparr>)) = the (hash_find h (k'\<lparr>fd := m\<rparr>))" by simp
  qed
  have "hash_find g (k'\<lparr>fd := n\<rparr>) = Some (e\<lparr>fd := n\<rparr>)" "hash_find g (e\<lparr>fd := n\<rparr>) = Some (e\<lparr>fd := n\<rparr>)"
    using fdt.hash_find_iff [OF g(2)] g(3) by simp_all
  moreover from this(2) have "hash_elems (snd (fdt_close c (e\<lparr>fd := n\<rparr>) g)) = hash_elems h"
    using fdt.hash_delete_spec [OF g(2), of c "e\<lparr>fd := n\<rparr>"] g(3) by (simp add: fdt_close_def)
  ultimately show ?thesis
    using g n other find [OF g(2) sg] find [OF assms(1) s] by (intro exI [of _ n] exI [of _ g]) simp
qed

definition fd_ex :: "nat \<Rightarrow> file_descriptor" where
  "fd_ex p = \<lparr>fd = 0, file_ptr = p, fd_addr = p\<rparr>"

theorem fdt_insert_least_free_witness:
  "\<exists>h n g. hash_init True fdt_hash fdt_cmp = Some h
     \<and> fdt_insert (\<lambda>_. False) (fd_ex 0) h (fd_ex 9) = ((True, (fd_ex 9)\<lparr>fd := n\<rparr>), g) \<and> n = 2"
proof -
  obtain h where h: "hash_init True fdt_hash fdt_cmp = Some h" by (simp add: hash_init_def)
  note w = hash_init_wf [OF h]
  then have e: "fds h = {}" by (simp add: fds_def)
  obtain n g where n: "fdt_insert (\<lambda>_. False) (fd_ex 0) h (fd_ex 9) = ((True, (fd_ex 9)\<lparr>fd := n\<rparr>), g)"
    "2 \<le> n" "\<forall>m. 2 \<le> m \<and> m < n \<longrightarrow> m \<in> fds h"
    using fdt_insert_least_free [of h "\<lambda>_. False" "fd_ex 0" "fd_ex 9" "\<lambda>_. True" "fd_ex 0" True] w by auto
  have "n = 2" using n(2) n(3) [rule_format, of 2] e by force
  with h n show ?thesis by blast
qed

end
