(* ===== verification/CString.thy ===== *)
theory CString
  imports Prelude "HOL-Library.Sublist"
begin

text \<open>
  Blocks of bytes and null-terminated strings, \<^verbatim>\<open>lib/string.c\<close>. Memory maps addresses to bytes; addresses and
  sizes are natural numbers, that is, no object wraps around the end of the address space. A
  string function reads until it finds a null byte, so its loop is partial: \<^term>\<open>None\<close> is a failed assertion
  or a loop that finds no end.
\<close>

section \<open>Definitions\<close>

type_synonym mem = "nat \<Rightarrow> u8"

abbreviation NIL :: nat where "NIL \<equiv> 0"

subsection \<open>Blocks\<close>

fun memcpy_loop :: "nat \<Rightarrow> nat \<Rightarrow> nat \<Rightarrow> mem \<Rightarrow> mem" where
  "memcpy_loop 0 dst src m = m"
| "memcpy_loop (Suc sz) dst src m = memcpy_loop sz (dst + 1) (src + 1) (m(dst := m src))"

definition memcpy :: "nat \<Rightarrow> nat \<Rightarrow> nat \<Rightarrow> mem \<Rightarrow> (nat \<times> mem) option" where
  "memcpy dst src sz m = do {
     ASSERT (dst \<noteq> NIL \<or> sz = 0);
     ASSERT (src \<noteq> NIL \<or> sz = 0);
     Some (dst, memcpy_loop sz dst src m)
   }"

text \<open>The loop of \<^verbatim>\<open>memmove\<close> that copies downward, from the ends of the blocks.\<close>

fun memmove_down :: "nat \<Rightarrow> nat \<Rightarrow> nat \<Rightarrow> mem \<Rightarrow> nat \<times> mem" where
  "memmove_down 0 dst src m = (dst, m)"
| "memmove_down (Suc sz) dst src m =
     (let dst = dst - 1; src = src - 1 in memmove_down sz dst src (m(dst := m src)))"

definition memmove :: "nat \<Rightarrow> nat \<Rightarrow> nat \<Rightarrow> mem \<Rightarrow> (nat \<times> mem) option" where
  "memmove dst src sz m = do {
     ASSERT (dst \<noteq> NIL \<or> sz = 0);
     ASSERT (src \<noteq> NIL \<or> sz = 0);
     Some (if dst < src then (dst + sz, memcpy_loop sz dst src m)
           else memmove_down sz (dst + sz) (src + sz) m)
   }"

fun memcmp_loop :: "mem \<Rightarrow> nat \<Rightarrow> nat \<Rightarrow> nat \<Rightarrow> int" where
  "memcmp_loop m a b 0 = 0"
| "memcmp_loop m a b (Suc sz) =
     (if m a \<noteq> m b then (if m a > m b then 1 else - 1) else memcmp_loop m (a + 1) (b + 1) sz)"

definition memcmp :: "mem \<Rightarrow> nat \<Rightarrow> nat \<Rightarrow> nat \<Rightarrow> int option" where
  "memcmp m a b sz = do {
     ASSERT (a \<noteq> NIL \<or> sz = 0);
     ASSERT (b \<noteq> NIL \<or> sz = 0);
     Some (memcmp_loop m a b sz)
   }"

fun memchr_loop :: "mem \<Rightarrow> nat \<Rightarrow> u8 \<Rightarrow> nat \<Rightarrow> nat" where
  "memchr_loop m block ch 0 = NIL"
| "memchr_loop m block ch (Suc sz) = (if m block = ch then block else memchr_loop m (block + 1) ch sz)"

definition memchr :: "mem \<Rightarrow> nat \<Rightarrow> u8 \<Rightarrow> nat \<Rightarrow> nat option" where
  "memchr m block ch sz = do {
     ASSERT (block \<noteq> NIL \<or> sz = 0);
     Some (memchr_loop m block ch sz)
   }"

fun memset_loop :: "nat \<Rightarrow> u8 \<Rightarrow> nat \<Rightarrow> mem \<Rightarrow> mem" where
  "memset_loop dst v 0 m = m"
| "memset_loop dst v (Suc sz) m = memset_loop (dst + 1) v sz (m(dst := v))"

definition memset :: "nat \<Rightarrow> u8 \<Rightarrow> nat \<Rightarrow> mem \<Rightarrow> (nat \<times> mem) option" where
  "memset dst v sz m = do {
     ASSERT (dst \<noteq> NIL \<or> sz = 0);
     Some (dst, memset_loop dst v sz m)
   }"

subsection \<open>Strings\<close>

partial_function (option) strcmp_loop :: "mem \<Rightarrow> nat \<Rightarrow> nat \<Rightarrow> int option" where
  "strcmp_loop m a b =
     (if m a \<noteq> 0 \<and> m a = m b then strcmp_loop m (a + 1) (b + 1)
      else Some (if m a < m b then - 1 else if m a > m b then 1 else 0))"

definition strcmp :: "mem \<Rightarrow> nat \<Rightarrow> nat \<Rightarrow> int option" where
  "strcmp m a b = do { ASSERT (a \<noteq> NIL); ASSERT (b \<noteq> NIL); strcmp_loop m a b }"

partial_function (option) strchr_loop :: "mem \<Rightarrow> nat \<Rightarrow> u8 \<Rightarrow> nat option" where
  "strchr_loop m s c =
     (if m s = c then Some s else if m s = 0 then Some NIL else strchr_loop m (s + 1) c)"

definition strchr :: "mem \<Rightarrow> nat \<Rightarrow> u8 \<Rightarrow> nat option" where
  "strchr m s c = do { ASSERT (s \<noteq> NIL); strchr_loop m s c }"

partial_function (option) strcspn_loop :: "mem \<Rightarrow> nat \<Rightarrow> nat \<Rightarrow> nat \<Rightarrow> nat option" where
  "strcspn_loop m s stop n =
     (if m (s + n) \<noteq> 0 then do {
        r \<leftarrow> strchr m stop (m (s + n));
        if r \<noteq> NIL then Some n else strcspn_loop m s stop (Suc n)
      } else Some n)"

definition strcspn :: "mem \<Rightarrow> nat \<Rightarrow> nat \<Rightarrow> nat option" where
  "strcspn m s stop = strcspn_loop m s stop 0"

partial_function (option) strpbrk :: "mem \<Rightarrow> nat \<Rightarrow> nat \<Rightarrow> nat option" where
  "strpbrk m s stop =
     (if m s \<noteq> 0 then do {
        r \<leftarrow> strchr m stop (m s);
        if r \<noteq> NIL then Some s else strpbrk m (s + 1) stop
      } else Some NIL)"

partial_function (option) strrchr_loop :: "mem \<Rightarrow> nat \<Rightarrow> u8 \<Rightarrow> nat \<Rightarrow> nat option" where
  "strrchr_loop m s c p =
     (if m s \<noteq> 0 then strrchr_loop m (s + 1) c (if m s = c then s else p) else Some p)"

definition strrchr :: "mem \<Rightarrow> nat \<Rightarrow> u8 \<Rightarrow> nat option" where
  "strrchr m s c = strrchr_loop m s c NIL"

partial_function (option) strspn_loop :: "mem \<Rightarrow> nat \<Rightarrow> nat \<Rightarrow> nat \<Rightarrow> nat option" where
  "strspn_loop m s skip n =
     (if m (s + n) \<noteq> 0 then do {
        r \<leftarrow> strchr m skip (m (s + n));
        if r = NIL then Some n else strspn_loop m s skip (Suc n)
      } else Some n)"

definition strspn :: "mem \<Rightarrow> nat \<Rightarrow> nat \<Rightarrow> nat option" where
  "strspn m s skip = strspn_loop m s skip 0"

partial_function (option) strlen_loop :: "mem \<Rightarrow> nat \<Rightarrow> nat option" where
  "strlen_loop m p = (if m p \<noteq> 0 then strlen_loop m (p + 1) else Some p)"

definition strlen :: "mem \<Rightarrow> nat \<Rightarrow> nat option" where
  "strlen m s = do { ASSERT (s \<noteq> NIL); p \<leftarrow> strlen_loop m s; Some (p - s) }"

function strnlen_loop :: "mem \<Rightarrow> nat \<Rightarrow> nat \<Rightarrow> nat \<Rightarrow> nat" where
  "strnlen_loop m s maxlen n =
     (if m (s + n) \<noteq> 0 \<and> n < maxlen then strnlen_loop m s maxlen (Suc n) else n)"
  by pat_completeness auto
termination by (relation "measure (\<lambda>(_, _, maxlen, n). maxlen - n)") auto

declare strnlen_loop.simps [simp del]

definition strnlen :: "mem \<Rightarrow> nat \<Rightarrow> nat \<Rightarrow> nat" where
  "strnlen m s maxlen = strnlen_loop m s maxlen 0"

text \<open>The loop of \<^verbatim>\<open>strstr\<close>: \<^term>\<open>n\<close> positions from \<^term>\<open>p\<close> on remain.\<close>

fun strstr_loop :: "mem \<Rightarrow> nat \<Rightarrow> nat \<Rightarrow> nat \<Rightarrow> nat \<Rightarrow> nat option" where
  "strstr_loop m p needle needle_len 0 = Some NIL"
| "strstr_loop m p needle needle_len (Suc n) = do {
     c \<leftarrow> memcmp m p needle needle_len;
     if c = 0 then Some p else strstr_loop m (p + 1) needle needle_len n
   }"

definition strstr :: "mem \<Rightarrow> nat \<Rightarrow> nat \<Rightarrow> nat option" where
  "strstr m haystack needle = do {
     haystack_len \<leftarrow> strlen m haystack;
     needle_len \<leftarrow> strlen m needle;
     if haystack_len \<ge> needle_len
     then strstr_loop m haystack needle needle_len (Suc (haystack_len - needle_len))
     else Some NIL
   }"

definition strlcpy :: "nat \<Rightarrow> nat \<Rightarrow> nat \<Rightarrow> mem \<Rightarrow> (nat \<times> mem) option" where
  "strlcpy dst src sz m = do {
     ASSERT (dst \<noteq> NIL);
     ASSERT (src \<noteq> NIL);
     src_len \<leftarrow> strlen m src;
     if sz > 0 then do {
       let dst_len = (if src_len < sz - 1 then src_len else sz - 1);
       (_, m) \<leftarrow> memcpy dst src dst_len m;
       Some (src_len, m(dst + dst_len := 0))
     } else Some (src_len, m)
   }"

definition strlcat :: "nat \<Rightarrow> nat \<Rightarrow> nat \<Rightarrow> mem \<Rightarrow> (nat \<times> mem) option" where
  "strlcat dst src sz m = do {
     ASSERT (dst \<noteq> NIL);
     ASSERT (src \<noteq> NIL);
     src_len \<leftarrow> strlen m src;
     dst_len \<leftarrow> strlen m dst;
     if sz > 0 \<and> dst_len < sz then do {
       let copy_cnt = (if src_len < sz - dst_len - 1 then src_len else sz - dst_len - 1);
       (_, m) \<leftarrow> memcpy (dst + dst_len) src copy_cnt m;
       Some (src_len + dst_len, m(dst + dst_len + copy_cnt := 0))
     } else Some (src_len + dst_len, m)
   }"

subsection \<open>Tokens\<close>

text \<open>The two loops of \<^verbatim>\<open>strtok_r\<close>; the first returns \<^term>\<open>Inl s\<close> when it meets the end of the string at \<^term>\<open>s\<close>.\<close>

partial_function (option) skip_delimiters :: "mem \<Rightarrow> nat \<Rightarrow> nat \<Rightarrow> (nat + nat) option" where
  "skip_delimiters m delimiters s = do {
     r \<leftarrow> strchr m delimiters (m s);
     if r \<noteq> NIL then (if m s = 0 then Some (Inl s) else skip_delimiters m delimiters (s + 1))
     else Some (Inr s)
   }"

partial_function (option) skip_token :: "mem \<Rightarrow> nat \<Rightarrow> nat \<Rightarrow> nat option" where
  "skip_token m delimiters s = do {
     r \<leftarrow> strchr m delimiters (m s);
     if r = NIL then skip_token m delimiters (s + 1) else Some s
   }"

text \<open>\<open>strtok_r\<close> takes \<^verbatim>\<open>*save_ptr\<close> and returns the token, the new \<^verbatim>\<open>*save_ptr\<close> and the memory.\<close>

definition strtok_r :: "nat \<Rightarrow> nat \<Rightarrow> nat \<Rightarrow> mem \<Rightarrow> (nat \<times> nat \<times> mem) option" where
  "strtok_r s delimiters save_ptr m = do {
     ASSERT (delimiters \<noteq> NIL);
     let s = (if s = NIL then save_ptr else s);
     ASSERT (s \<noteq> NIL);
     e \<leftarrow> skip_delimiters m delimiters s;
     case e of
       Inl s \<Rightarrow> Some (NIL, s, m)
     | Inr token \<Rightarrow> do {
         s \<leftarrow> skip_token m delimiters token;
         if m s \<noteq> 0 then Some (token, s + 1, m(s := 0)) else Some (token, s, m)
       }
   }"

text \<open>The idiom in the comment of \<^verbatim>\<open>strtok_r\<close>: \<^verbatim>\<open>for (token = strtok_r (s, d, &p); token; token = strtok_r (NULL, d, &p))\<close>.\<close>

partial_function (option) tokenize :: "nat \<Rightarrow> nat \<Rightarrow> nat \<Rightarrow> mem \<Rightarrow> (nat list \<times> mem) option" where
  "tokenize s delimiters save_ptr m = do {
     (token, save_ptr, m) \<leftarrow> strtok_r s delimiters save_ptr m;
     if token = NIL then Some ([], m)
     else do {
       (ts, m) \<leftarrow> tokenize NIL delimiters save_ptr m;
       Some (token # ts, m)
     }
   }"

section \<open>Blocks of bytes\<close>

definition bytes :: "mem \<Rightarrow> nat \<Rightarrow> nat \<Rightarrow> u8 list" where
  "bytes m p n = map m [p ..< p + n]"

definition unchanged_outside :: "nat set \<Rightarrow> mem \<Rightarrow> mem \<Rightarrow> bool" where
  "unchanged_outside A m m' \<longleftrightarrow> (\<forall>a. a \<notin> A \<longrightarrow> m' a = m a)"

lemma unchanged_outside_mono: "unchanged_outside A m m' \<Longrightarrow> A \<subseteq> B \<Longrightarrow> unchanged_outside B m m'"
  by (auto simp: unchanged_outside_def)

lemma unchanged_outside_trans:
  "unchanged_outside A m m1 \<Longrightarrow> unchanged_outside A m1 m2 \<Longrightarrow> unchanged_outside A m m2"
  by (simp add: unchanged_outside_def)

lemma bytes_0 [simp]: "bytes m p 0 = []"
  by (simp add: bytes_def)

lemma bytes_Suc: "bytes m p (Suc n) = m p # bytes m (Suc p) n"
  by (simp add: bytes_def upt_conv_Cons del: upt_Suc)

lemma length_bytes [simp]: "length (bytes m p n) = n"
  by (simp add: bytes_def)

lemma nth_bytes [simp]: "i < n \<Longrightarrow> bytes m p n ! i = m (p + i)"
  by (simp add: bytes_def)

text \<open>
  What copying upward does as long as no byte is read after it was written: the destination is not
  inside the source block, or it starts below it.
\<close>

lemma memcpy_loop_eq:
  "dst \<le> src \<or> src + n \<le> dst \<Longrightarrow>
   memcpy_loop n dst src m = (\<lambda>a. if dst \<le> a \<and> a < dst + n then m (src + (a - dst)) else m a)"
proof (induction n arbitrary: dst src m)
  case (Suc n)
  have "memcpy_loop (Suc n) dst src m
      = (\<lambda>a. if dst + 1 \<le> a \<and> a < dst + 1 + n then (m(dst := m src)) (src + 1 + (a - (dst + 1)))
             else (m(dst := m src)) a)"
    using Suc.prems by (simp only: memcpy_loop.simps) (rule Suc.IH, auto)
  also have "\<dots> = (\<lambda>a. if dst \<le> a \<and> a < dst + Suc n then m (src + (a - dst)) else m a)"
    using Suc.prems by (auto simp: fun_eq_iff Suc_diff_Suc)
  finally show ?case .
qed (auto simp: fun_eq_iff)

lemma memmove_down_eq:
  "src \<le> dst \<Longrightarrow>
   memmove_down n (dst + n) (src + n) m
     = (dst, \<lambda>a. if dst \<le> a \<and> a < dst + n then m (src + (a - dst)) else m a)"
proof (induction n arbitrary: m)
  case (Suc n)
  show ?case using Suc by (auto simp: Let_def fun_eq_iff)
qed (auto simp: fun_eq_iff)

lemma memset_loop_eq: "memset_loop dst v n m = (\<lambda>a. if dst \<le> a \<and> a < dst + n then v else m a)"
  by (induction n arbitrary: dst m) (auto simp: fun_eq_iff)

lemma memcmp_loop_eq:
  "memcmp_loop m a b n = (if bytes m a n = bytes m b n then 0
     else (let i = length (takeWhile (\<lambda>(x, y). x = y) (zip (bytes m a n) (bytes m b n)))
           in if m (a + i) > m (b + i) then 1 else - 1))"
  by (induction n arbitrary: a b) (auto simp: bytes_Suc)

section \<open>Strings in memory\<close>

text \<open>\<open>cstr m p xs\<close>: the characters \<^term>\<open>xs\<close>, none of them null, and a null byte are stored from \<^term>\<open>p\<close> on.\<close>

fun cstr :: "mem \<Rightarrow> nat \<Rightarrow> u8 list \<Rightarrow> bool" where
  "cstr m p [] \<longleftrightarrow> m p = 0"
| "cstr m p (x # xs) \<longleftrightarrow> m p = x \<and> x \<noteq> 0 \<and> cstr m (p + 1) xs"

lemma cstr_cong: "\<forall>i \<le> length xs. m' (p + i) = m (p + i) \<Longrightarrow> cstr m' p xs = cstr m p xs"
proof (induction xs arbitrary: p)
  case (Cons x xs)
  have "m' p = m p" using Cons.prems by (metis add.right_neutral le0)
  moreover have "cstr m' (p + 1) xs = cstr m (p + 1) xs"
  proof (rule Cons.IH, intro allI impI)
    fix i assume "i \<le> length xs"
    then show "m' (p + 1 + i) = m (p + 1 + i)" using Cons.prems [rule_format, of "Suc i"] by simp
  qed
  ultimately show ?case by simp
qed simp

lemma cstr_append: "cstr m p (xs @ ys) \<longleftrightarrow> bytes m p (length xs) = xs \<and> 0 \<notin> set xs \<and> cstr m (p + length xs) ys"
  by (induction xs arbitrary: p) (auto simp: bytes_Suc)

lemma cstr_bytes: "cstr m p xs \<longleftrightarrow> bytes m p (length xs) = xs \<and> 0 \<notin> set xs \<and> m (p + length xs) = 0"
  using cstr_append [of m p xs "[]"] by simp

lemma strlen_cstr: "cstr m p xs \<Longrightarrow> p \<noteq> NIL \<Longrightarrow> strlen m p = Some (length xs)"
proof -
  have "cstr m p xs \<Longrightarrow> strlen_loop m p = Some (p + length xs)"
    by (induction xs arbitrary: p) (subst strlen_loop.simps, simp)+
  then show "cstr m p xs \<Longrightarrow> p \<noteq> NIL \<Longrightarrow> ?thesis" by (simp add: strlen_def)
qed

lemma strnlen_cstr: "cstr m p xs \<Longrightarrow> strnlen m p n = min (length xs) n"
proof -
  have "cstr m (p + k) ys \<Longrightarrow> k \<le> n \<Longrightarrow> strnlen_loop m p n k = min (k + length ys) n" for k ys
  proof (induction ys arbitrary: k)
    case (Cons y ys)
    then show ?case
      by (cases "k < n") (subst strnlen_loop.simps, simp)+
  qed (subst strnlen_loop.simps, simp)
  from this [of 0 xs] show "cstr m p xs \<Longrightarrow> ?thesis" by (simp add: strnlen_def)
qed

lemma strchr_cstr:
  assumes "cstr m p xs" and "p \<noteq> NIL"
  shows "strchr m p c = Some (if c \<in> set xs \<or> c = 0 then p + length (takeWhile (\<lambda>x. x \<noteq> c) xs) else NIL)"
proof -
  have "cstr m p xs \<Longrightarrow>
    strchr_loop m p c = Some (if c \<in> set xs \<or> c = 0 then p + length (takeWhile (\<lambda>x. x \<noteq> c) xs) else NIL)"
    by (induction xs arbitrary: p) (subst strchr_loop.simps, auto)+
  with assms show ?thesis by (simp add: strchr_def)
qed

lemma strchr_null:
  assumes "cstr m p xs" and "p \<noteq> NIL"
  shows "\<exists>r. strchr m p c = Some r \<and> (r = NIL \<longleftrightarrow> c \<notin> set xs \<and> c \<noteq> 0)"
  using strchr_cstr [OF assms, of c] assms(2) by auto

lemma takeWhile_shorter: "c \<in> set xs \<Longrightarrow> length (takeWhile (\<lambda>x. x \<noteq> c) xs) < length xs"
  by (induction xs) auto

lemma strrchr_loop_cstr:
  "cstr m p xs \<Longrightarrow> strrchr_loop m p c q
     = Some (if c \<in> set xs then p + (length xs - Suc (length (takeWhile (\<lambda>x. x \<noteq> c) (rev xs)))) else q)"
proof (induction xs arbitrary: p q)
  case (Cons x xs)
  have t: "c \<in> set xs \<Longrightarrow> length (takeWhile (\<lambda>x. x \<noteq> c) (rev xs)) < length xs"
    using takeWhile_shorter [of c "rev xs"] by simp
  show ?case using Cons t
    by (subst strrchr_loop.simps) (auto simp: takeWhile_append)
qed (subst strrchr_loop.simps, simp)

lemma strspn_loops_cstr:
  assumes "cstr m q stop" and "q \<noteq> NIL"
  shows "cstr m (p + n) xs \<Longrightarrow> strcspn_loop m p q n = Some (n + length (takeWhile (\<lambda>x. x \<notin> set stop) xs))"
    and "cstr m (p + n) xs \<Longrightarrow> strspn_loop m p q n = Some (n + length (takeWhile (\<lambda>x. x \<in> set stop) xs))"
    and "cstr m p xs \<Longrightarrow> strpbrk m p q
      = Some (if set xs \<inter> set stop = {} then NIL else p + length (takeWhile (\<lambda>x. x \<notin> set stop) xs))"
proof -
  show "cstr m (p + n) xs \<Longrightarrow> strcspn_loop m p q n = Some (n + length (takeWhile (\<lambda>x. x \<notin> set stop) xs))"
  proof (induction xs arbitrary: n)
    case (Cons x xs)
    then show ?case using strchr_null [OF assms, of x] by (subst strcspn_loop.simps) auto
  qed (subst strcspn_loop.simps, simp)
  show "cstr m (p + n) xs \<Longrightarrow> strspn_loop m p q n = Some (n + length (takeWhile (\<lambda>x. x \<in> set stop) xs))"
  proof (induction xs arbitrary: n)
    case (Cons x xs)
    then show ?case using strchr_null [OF assms, of x] by (subst strspn_loop.simps) auto
  qed (subst strspn_loop.simps, simp)
  show "cstr m p xs \<Longrightarrow> strpbrk m p q
      = Some (if set xs \<inter> set stop = {} then NIL else p + length (takeWhile (\<lambda>x. x \<notin> set stop) xs))"
  proof (induction xs arbitrary: p)
    case (Cons x xs)
    then show ?case using strchr_null [OF assms, of x]
      by (cases "set xs \<inter> set stop = {}"; subst strpbrk.simps) auto
  qed (subst strpbrk.simps, simp)
qed

lemma strcmp_cstr:
  assumes "cstr m a xs" and "cstr m b ys" and "a \<noteq> NIL" and "b \<noteq> NIL"
  shows "strcmp m a b = Some (if xs = ys then 0 else if ord_class.lexordp xs ys then - 1 else 1)"
proof -
  have "strcmp_loop m a b = Some (if xs = ys then 0 else if ord_class.lexordp xs ys then - 1 else 1)"
    using assms(1,2)
  proof (induction xs arbitrary: a b ys)
    case Nil
    then show ?case by (cases ys; subst strcmp_loop.simps) (simp_all add: word_gt_0)
  next
    case c: (Cons x xs)
    show ?case
    proof (cases ys)
      case Nil
      with c.prems show ?thesis by (subst strcmp_loop.simps) (simp add: word_gt_0)
    next
      case (Cons y zs)
      then have i: "strcmp_loop m (a + 1) (b + 1)
          = Some (if xs = zs then 0 else if ord_class.lexordp xs zs then - 1 else 1)"
        using c.IH [of "a + 1" "b + 1" zs] c.prems by simp
      consider "x = y" | "x < y" | "y < x" by (metis linorder_neqE)
      then show ?thesis
        using i Cons c.prems by cases (subst strcmp_loop.simps, simp)+
    qed
  qed
  with assms show ?thesis by (simp add: strcmp_def)
qed

lemma memcmp_loop_0: "memcmp_loop m a b n = 0 \<longleftrightarrow> bytes m a n = bytes m b n"
  by (simp add: memcmp_loop_eq Let_def)

lemma strstr_loop_spec:
  assumes "p \<noteq> NIL" and "q \<noteq> NIL"
  shows "\<exists>r. strstr_loop m p q k n = Some r
    \<and> ((\<exists>j < n. bytes m (p + j) k = bytes m q k \<and> (\<forall>i < j. bytes m (p + i) k \<noteq> bytes m q k) \<and> r = p + j)
       \<or> (\<forall>j < n. bytes m (p + j) k \<noteq> bytes m q k) \<and> r = NIL)"
  using assms(1)
proof (induction n arbitrary: p)
  case (Suc n)
  show ?case
  proof (cases "bytes m p k = bytes m q k")
    case True
    then show ?thesis using Suc.prems assms(2) by (auto simp: memcmp_def memcmp_loop_0)
  next
    case False
    then have l: "strstr_loop m p q k (Suc n) = strstr_loop m (p + 1) q k n"
      using Suc.prems assms(2) by (simp add: memcmp_def memcmp_loop_0)
    obtain r where r: "strstr_loop m (p + 1) q k n = Some r"
      and d: "(\<exists>j < n. bytes m (p + 1 + j) k = bytes m q k \<and> (\<forall>i < j. bytes m (p + 1 + i) k \<noteq> bytes m q k) \<and> r = p + 1 + j)
       \<or> (\<forall>j < n. bytes m (p + 1 + j) k \<noteq> bytes m q k) \<and> r = NIL"
      using Suc.IH [of "p + 1"] by auto
    from d have "(\<exists>j < Suc n. bytes m (p + j) k = bytes m q k \<and> (\<forall>i < j. bytes m (p + i) k \<noteq> bytes m q k) \<and> r = p + j)
       \<or> (\<forall>j < Suc n. bytes m (p + j) k \<noteq> bytes m q k) \<and> r = NIL"
    proof
      assume "\<exists>j < n. bytes m (p + 1 + j) k = bytes m q k \<and> (\<forall>i < j. bytes m (p + 1 + i) k \<noteq> bytes m q k) \<and> r = p + 1 + j"
      then obtain j where "j < n" "bytes m (p + 1 + j) k = bytes m q k" "\<forall>i < j. bytes m (p + 1 + i) k \<noteq> bytes m q k"
        "r = p + 1 + j" by blast
      then show ?thesis using False by (intro disjI1 exI [of _ "Suc j"]) (auto simp: All_less_Suc2)
    next
      assume "(\<forall>j < n. bytes m (p + 1 + j) k \<noteq> bytes m q k) \<and> r = NIL"
      then show ?thesis using False by (intro disjI2) (auto simp: All_less_Suc2)
    qed
    with l r show ?thesis by auto
  qed
qed simp

lemma cstr_sub_bytes: "cstr m p xs \<Longrightarrow> i + n \<le> length xs \<Longrightarrow> bytes m (p + i) n = take n (drop i xs)"
proof -
  assume "cstr m p xs" "i + n \<le> length xs"
  moreover from this have "m (p + (i + j)) = xs ! (i + j)" if "j < n" for j
    using that by (metis add_less_cancel_left cstr_bytes le_trans nth_bytes order_less_le_trans)
  ultimately show ?thesis by (intro nth_equalityI) (auto simp: add.assoc)
qed

lemma strstr_cstr:
  assumes h: "cstr m p xs" "p \<noteq> NIL" and n: "cstr m q ys" "q \<noteq> NIL"
  shows "\<exists>r. strstr m p q = Some r
    \<and> ((\<exists>j. r = p + j \<and> prefix ys (drop j xs) \<and> (\<forall>i < j. \<not> prefix ys (drop i xs))) \<or> \<not> sublist ys xs \<and> r = NIL)"
proof (cases "length ys \<le> length xs")
  case False
  then have "\<not> sublist ys xs" using sublist_length_le by blast
  with False show ?thesis using strlen_cstr [OF h] strlen_cstr [OF n] by (simp add: strstr_def)
next
  case True
  let ?n = "Suc (length xs - length ys)"
  have b: "bytes m (p + i) (length ys) = bytes m q (length ys) \<longleftrightarrow> prefix ys (drop i xs)" if "i < ?n" for i
  proof -
    have "bytes m (p + i) (length ys) = take (length ys) (drop i xs)"
      using that True by (intro cstr_sub_bytes [OF h(1)]) simp
    moreover have "bytes m q (length ys) = ys" using n(1) by (simp add: cstr_bytes)
    ultimately show ?thesis by (metis append_take_drop_id prefixI prefixE append_eq_conv_conj)
  qed
  obtain r where r: "strstr m p q = Some r"
    "(\<exists>j < ?n. bytes m (p + j) (length ys) = bytes m q (length ys)
        \<and> (\<forall>i < j. bytes m (p + i) (length ys) \<noteq> bytes m q (length ys)) \<and> r = p + j)
     \<or> (\<forall>j < ?n. bytes m (p + j) (length ys) \<noteq> bytes m q (length ys)) \<and> r = NIL"
    using strstr_loop_spec [OF h(2) n(2), of m "length ys" ?n] True strlen_cstr [OF h] strlen_cstr [OF n]
    by (auto simp: strstr_def)
  show ?thesis using r(2)
  proof
    assume "\<exists>j < ?n. bytes m (p + j) (length ys) = bytes m q (length ys)
        \<and> (\<forall>i < j. bytes m (p + i) (length ys) \<noteq> bytes m q (length ys)) \<and> r = p + j"
    then obtain j where j: "j < ?n" "bytes m (p + j) (length ys) = bytes m q (length ys)"
      "\<forall>i < j. bytes m (p + i) (length ys) \<noteq> bytes m q (length ys)" "r = p + j" by blast
    then have "prefix ys (drop j xs)" "\<forall>i < j. \<not> prefix ys (drop i xs)" using b by auto
    with j(4) r(1) show ?thesis by blast
  next
    assume a: "(\<forall>j < ?n. bytes m (p + j) (length ys) \<noteq> bytes m q (length ys)) \<and> r = NIL"
    have "\<not> sublist ys xs"
    proof
      assume "sublist ys xs"
      then obtain us vs where e: "xs = us @ ys @ vs" by (auto simp: sublist_def)
      then have "length us < ?n" "prefix ys (drop (length us) xs)" by auto
      with a b show False by blast
    qed
    with a r(1) show ?thesis by blast
  qed
qed

section \<open>Bounded copies\<close>

lemma cstr_take:
  "bytes m p n = take n xs \<Longrightarrow> n \<le> length xs \<Longrightarrow> 0 \<notin> set xs \<Longrightarrow> m (p + n) = 0 \<Longrightarrow> cstr m p (take n xs)"
  by (auto simp: cstr_bytes dest: in_set_takeD)

lemma copy_cstr:
  assumes "cstr m src xs" and "k \<le> length xs" and "dst \<le> src \<or> src + k \<le> dst"
  defines "m' \<equiv> (memcpy_loop k dst src m)(dst + k := 0)"
  shows "cstr m' dst (take k xs)" and "unchanged_outside {dst .. dst + k} m m'"
proof -
  have c: "memcpy_loop k dst src m = (\<lambda>a. if dst \<le> a \<and> a < dst + k then m (src + (a - dst)) else m a)"
    by (rule memcpy_loop_eq [OF assms(3)])
  have "bytes m' dst k = take k xs"
  proof (rule nth_equalityI)
    fix i assume i: "i < length (bytes m' dst k)"
    then have "m (src + i) = xs ! i"
      using cstr_sub_bytes [OF assms(1), of i 1] assms(2) by (simp add: bytes_def hd_drop_conv_nth take_Suc)
    with i show "bytes m' dst k ! i = take k xs ! i" by (simp add: m'_def c)
  qed (use assms(2) in simp)
  moreover have "0 \<notin> set xs" using assms(1) by (simp add: cstr_bytes)
  ultimately show "cstr m' dst (take k xs)" using assms(2) by (intro cstr_take) (simp_all add: m'_def)
  show "unchanged_outside {dst .. dst + k} m m'" by (auto simp: unchanged_outside_def m'_def c)
qed

lemma strlcpy_cstr:
  assumes s: "cstr m src xs" "src \<noteq> NIL" and d: "dst \<noteq> NIL"
    and dj: "dst + n \<le> src \<or> src + length xs < dst"
  shows "\<exists>m'. strlcpy dst src n m = Some (length xs, m') \<and> (n > 0 \<longrightarrow> cstr m' dst (take (n - 1) xs))
    \<and> unchanged_outside {dst ..< dst + n} m m'"
proof (cases "n = 0")
  case True
  then show ?thesis using s d by (simp add: strlcpy_def strlen_cstr [OF s] unchanged_outside_def)
next
  case False
  define k where "k = min (length xs) (n - 1)"
  have k: "k \<le> length xs" "k < n" "take (n - 1) xs = take k xs" using False by (auto simp: k_def min_def)
  have "dst \<le> src \<or> src + k \<le> dst" using dj k by auto
  note c = copy_cstr [OF s(1) k(1) this]
  have "strlcpy dst src n m = Some (length xs, (memcpy_loop k dst src m)(dst + k := 0))"
    using False s(2) d by (simp add: strlcpy_def strlen_cstr [OF s] memcpy_def k_def Let_def min_def)
  moreover have "{dst .. dst + k} \<subseteq> {dst ..< dst + n}" using k(2) by auto
  ultimately show ?thesis using c(1) unchanged_outside_mono [OF c(2)] k(3) by auto
qed

lemma strlcat_cstr:
  assumes s: "cstr m src xs" "src \<noteq> NIL" and d: "cstr m dst ys" "dst \<noteq> NIL"
    and dj: "dst + n \<le> src \<or> src + length xs < dst"
  shows "\<exists>m'. strlcat dst src n m = Some (length xs + length ys, m')
    \<and> (if length ys < n then cstr m' dst (take (n - 1) (ys @ xs)) else m' = m)
    \<and> unchanged_outside {dst ..< dst + n} m m'"
proof (cases "length ys < n")
  case False
  then show ?thesis using s d
    by (simp add: strlcat_def strlen_cstr [OF s] strlen_cstr [OF d] unchanged_outside_def)
next
  case True
  define k where "k = min (length xs) (n - length ys - 1)"
  define m' where "m' = (memcpy_loop k (dst + length ys) src m)(dst + length ys + k := 0)"
  have k: "k \<le> length xs" "length ys + k < n" "take (n - 1) (ys @ xs) = ys @ take k xs"
    using True by (auto simp: k_def min_def)
  have "dst + length ys \<le> src \<or> src + k \<le> dst + length ys" using dj k by auto
  note c = copy_cstr [OF s(1) k(1) this, folded m'_def]
  have "bytes m' dst (length ys) = ys"
  proof (rule nth_equalityI)
    fix i assume i: "i < length (bytes m' dst (length ys))"
    then have "m' (dst + i) = m (dst + i)" using c(2) by (simp add: unchanged_outside_def)
    with i d(1) show "bytes m' dst (length ys) ! i = ys ! i" by (metis cstr_bytes length_bytes nth_bytes)
  qed simp
  then have "cstr m' dst (ys @ take k xs)" using c(1) d(1) by (simp add: cstr_append cstr_bytes [of m dst])
  moreover have "strlcat dst src n m = Some (length xs + length ys, m')"
    using True s(2) d(2)
    by (simp add: strlcat_def strlen_cstr [OF s] strlen_cstr [OF d] memcpy_def m'_def k_def Let_def min_def)
  moreover have "{dst + length ys .. dst + length ys + k} \<subseteq> {dst ..< dst + n}" using k(2) by auto
  ultimately show ?thesis using True unchanged_outside_mono [OF c(2)] k(3) by auto
qed

section \<open>Tokens\<close>

function tokens :: "'a set \<Rightarrow> 'a list \<Rightarrow> 'a list list" where
  "tokens D xs =
     (let ys = dropWhile (\<lambda>x. x \<in> D) xs
      in if ys = [] then [] else takeWhile (\<lambda>x. x \<notin> D) ys # tokens D (dropWhile (\<lambda>x. x \<notin> D) ys))"
  by pat_completeness auto
termination
proof (relation "measure (\<lambda>(D, xs). length xs)")
  fix D :: "'a set" and xs ys :: "'a list"
  assume e: "ys = dropWhile (\<lambda>x. x \<in> D) xs" and "ys \<noteq> []"
  then obtain y zs where y: "ys = y # zs" "y \<notin> D" by (metis hd_dropWhile list.collapse)
  then have "length (dropWhile (\<lambda>x. x \<notin> D) ys) < length ys" by (simp add: le_imp_less_Suc length_dropWhile_le)
  also have "\<dots> \<le> length xs" by (simp add: e length_dropWhile_le)
  finally show "((D, dropWhile (\<lambda>x. x \<notin> D) ys), (D, xs)) \<in> measure (\<lambda>(D, xs). length xs)" by simp
qed simp

declare tokens.simps [simp del]

lemma tokens_skip: "x \<in> D \<Longrightarrow> tokens D (x # xs) = tokens D xs"
  by (subst (1 2) tokens.simps) simp

lemma tokens_concat: "concat (tokens D xs) = filter (\<lambda>x. x \<notin> D) xs \<and> [] \<notin> set (tokens D xs)"
proof (induction D xs rule: tokens.induct)
  case (1 D xs)
  define ys where "ys = dropWhile (\<lambda>x. x \<in> D) xs"
  have f: "filter (\<lambda>x. x \<notin> D) xs = filter (\<lambda>x. x \<notin> D) ys"
    unfolding ys_def by (induction xs) auto
  show ?case
  proof (cases "ys = []")
    case True
    then have "tokens D xs = []" by (subst tokens.simps) (simp add: ys_def)
    with True f show ?thesis by simp
  next
    case False
    then have "hd ys \<notin> D" using hd_dropWhile [of "\<lambda>x. x \<in> D" xs] by (simp add: ys_def)
    then have ne: "takeWhile (\<lambda>x. x \<notin> D) ys \<noteq> []" using False by (cases ys) auto
    have t: "tokens D xs = takeWhile (\<lambda>x. x \<notin> D) ys # tokens D (dropWhile (\<lambda>x. x \<notin> D) ys)"
      using False by (subst tokens.simps) (simp add: ys_def Let_def)
    have "filter (\<lambda>x. x \<notin> D) ys = takeWhile (\<lambda>x. x \<notin> D) ys @ filter (\<lambda>x. x \<notin> D) (dropWhile (\<lambda>x. x \<notin> D) ys)"
      by (induction ys) auto
    with t f ne 1 [OF ys_def False] show ?thesis by simp
  qed
qed

lemma skip_delimiters_cstr:
  assumes "cstr m d ds" and "d \<noteq> NIL"
  shows "cstr m s xs \<Longrightarrow> skip_delimiters m d s
    = Some (let k = length (takeWhile (\<lambda>x. x \<in> set ds) xs) in if k = length xs then Inl (s + k) else Inr (s + k))"
proof (induction xs arbitrary: s)
  case Nil
  then show ?case using strchr_null [OF assms, of 0] by (subst skip_delimiters.simps) auto
next
  case (Cons x xs)
  then show ?case using strchr_null [OF assms, of x] by (subst skip_delimiters.simps) (auto simp: Let_def)
qed

lemma skip_token_cstr:
  assumes "cstr m d ds" and "d \<noteq> NIL"
  shows "cstr m s xs \<Longrightarrow> skip_token m d s = Some (s + length (takeWhile (\<lambda>x. x \<notin> set ds) xs))"
proof (induction xs arbitrary: s)
  case Nil
  then show ?case using strchr_null [OF assms, of 0] by (subst skip_token.simps) auto
next
  case (Cons x xs)
  then show ?case using strchr_null [OF assms, of x] by (subst skip_token.simps) auto
qed

lemma strtok_r_end:
  assumes "cstr m d ds" and "d \<noteq> NIL" and "cstr m s xs" and "s \<noteq> NIL" and "a = s \<or> a = NIL \<and> sp = s"
    and "set xs \<subseteq> set ds"
  shows "strtok_r a d sp m = Some (NIL, s + length xs, m)"
proof -
  have t: "takeWhile (\<lambda>x. x \<in> set ds) xs = xs" using assms(6) by (auto simp: takeWhile_eq_all_conv)
  have "skip_delimiters m d s = Some (Inl (s + length xs))"
    using skip_delimiters_cstr [OF assms(1-3)] unfolding t by simp
  then show ?thesis using assms(2,4,5) by (auto simp: strtok_r_def Let_def)
qed

lemma strtok_r_token:
  assumes "cstr m d ds" and "d \<noteq> NIL" and "cstr m s (us @ tk @ zs)" and "s \<noteq> NIL" and "a = s \<or> a = NIL \<and> sp = s"
    and "set us \<subseteq> set ds" and "tk \<noteq> []" and "set tk \<inter> set ds = {}" and "zs = [] \<or> hd zs \<in> set ds"
  shows "strtok_r a d sp m =
    (let t = s + length us; e = t + length tk
     in Some (t, if zs = [] then (e, m) else (e + 1, m(e := 0))))"
proof -
  obtain x xs where x: "tk = x # xs" using assms(7) by (cases tk) auto
  have u: "takeWhile (\<lambda>x. x \<in> set ds) (us @ tk @ zs) = us"
    using assms(6,8) x by (auto simp: takeWhile_append2 subset_iff)
  have t: "takeWhile (\<lambda>x. x \<notin> set ds) (tk @ zs) = tk"
    using assms(8,9) by (cases zs) (auto simp: takeWhile_append)
  have c: "cstr m (s + length us) (tk @ zs)" "cstr m (s + length us + length tk) zs"
    using assms(3) by (simp_all add: cstr_append add.assoc)
  have "m (s + length us + length tk) = 0 \<longleftrightarrow> zs = []" using c(2) by (cases zs) auto
  then show ?thesis
    using skip_delimiters_cstr [OF assms(1-3)] skip_token_cstr [OF assms(1,2) c(1)] u t x assms(2,4,5)
    by (auto simp: strtok_r_def Let_def)
qed

text \<open>One call on a string that has a token left: the rest of the string and what is known of the memory.\<close>

definition tok_step :: "u8 list \<Rightarrow> nat \<Rightarrow> nat \<Rightarrow> u8 list \<Rightarrow> mem \<Rightarrow> nat \<Rightarrow> nat \<Rightarrow> u8 list \<Rightarrow> u8 list \<Rightarrow> mem \<Rightarrow> bool" where
  "tok_step ds d s xs m t s1 tk rest m1 \<longleftrightarrow>
     tokens (set ds) xs = tk # tokens (set ds) rest \<and> t \<noteq> NIL \<and> cstr m1 d ds \<and> cstr m1 s1 rest \<and> cstr m1 t tk
     \<and> s1 + length rest = s + length xs \<and> s \<le> s1 \<and> length rest < length xs
     \<and> (\<forall>i \<le> length tk. t + i \<notin> {s1 ..< s1 + length rest}) \<and> unchanged_outside {s ..< s + length xs} m m1"

lemma tok_step_intro:
  assumes "cstr m d ds" and "cstr m s (us @ tk @ zs)" and "s \<noteq> NIL"
    and "{d .. d + length ds} \<inter> {s ..< s + length (us @ tk @ zs)} = {}" and "tk \<noteq> []"
    and "zs = [] \<or> hd zs \<in> set ds" and "tokens (set ds) (us @ tk @ zs) = tk # tokens (set ds) zs"
  defines "t \<equiv> s + length us" and "e \<equiv> s + length us + length tk"
  shows "tok_step ds d s (us @ tk @ zs) m t (if zs = [] then e else e + 1) tk (tl zs) (if zs = [] then m else m(e := 0))"
proof -
  define m1 where "m1 = (if zs = [] then m else m(e := 0))"
  have c: "cstr m e zs" "cstr m t (tk @ zs)" using assms(2) by (simp_all add: cstr_append t_def e_def add.assoc)
  have u: "unchanged_outside {s ..< s + length (us @ tk @ zs)} m m1"
    by (auto simp: m1_def unchanged_outside_def e_def)
  have "m1 (d + i) = m (d + i)" if "i \<le> length ds" for i
  proof -
    have "d + i \<in> {d .. d + length ds}" using that by simp
    then have "d + i \<notin> {s ..< s + length (us @ tk @ zs)}" using assms(4) by blast
    with u show ?thesis unfolding unchanged_outside_def by blast
  qed
  then have d1: "cstr m1 d ds" using cstr_cong [of ds m1 d m] assms(1) by simp
  have z1: "cstr m1 (if zs = [] then e else e + 1) (tl zs)"
  proof (cases zs)
    case (Cons z zs')
    moreover have "\<forall>i \<le> length zs'. m1 (e + 1 + i) = m (e + 1 + i)" by (simp add: m1_def)
    ultimately show ?thesis using c(1) cstr_cong [of zs' m1 "e + 1" m] by simp
  qed (use c(1) in \<open>simp add: m1_def\<close>)
  have "m1 (t + i) = m (t + i)" if "i < length tk" for i using that by (simp add: m1_def e_def t_def)
  then have "bytes m1 t (length tk) = bytes m t (length tk)" by (intro nth_equalityI) simp_all
  moreover have "m1 e = 0" using c(1) by (cases zs) (simp_all add: m1_def)
  moreover have "bytes m t (length tk) = tk" "0 \<notin> set tk" using c(2) by (simp_all add: cstr_append)
  ultimately have t1: "cstr m1 t tk" by (simp add: cstr_bytes e_def t_def)
  have tz: "tokens (set ds) (tl zs) = tokens (set ds) zs" using assms(6) by (cases zs) (simp_all add: tokens_skip)
  have "\<forall>i \<le> length tk. t + i \<notin> {(if zs = [] then e else e + 1) ..< s + length (us @ tk @ zs)}"
    by (cases zs) (auto simp: t_def e_def)
  moreover have "(if zs = [] then e else e + 1) + length (tl zs) = s + length (us @ tk @ zs)"
    by (cases zs) (simp_all add: e_def)
  ultimately show ?thesis
    unfolding tok_step_def m1_def [symmetric] using assms(3,5,7) d1 z1 t1 tz u
    by (simp add: t_def e_def) (cases zs; cases tk; simp)
qed

lemma strtok_r_step:
  assumes "cstr m d ds" and "d \<noteq> NIL" and "cstr m s xs" and "s \<noteq> NIL" and "a = s \<or> a = NIL \<and> sp = s"
    and "{d .. d + length ds} \<inter> {s ..< s + length xs} = {}" and "\<not> set xs \<subseteq> set ds"
  shows "\<exists>t s1 tk rest m1. strtok_r a d sp m = Some (t, s1, m1) \<and> tok_step ds d s xs m t s1 tk rest m1"
proof -
  let ?D = "set ds"
  define us where "us = takeWhile (\<lambda>x. x \<in> ?D) xs"
  define ys where "ys = dropWhile (\<lambda>x. x \<in> ?D) xs"
  define tk where "tk = takeWhile (\<lambda>x. x \<notin> ?D) ys"
  define zs where "zs = dropWhile (\<lambda>x. x \<notin> ?D) ys"
  have xs: "xs = us @ tk @ zs" by (simp add: us_def tk_def zs_def ys_def)
  have ys: "ys \<noteq> []" using assms(7) by (auto simp: ys_def dropWhile_eq_Nil_conv)
  then have "hd ys \<notin> ?D" using hd_dropWhile [of "\<lambda>x. x \<in> ?D" xs] by (simp add: ys_def)
  then have tk: "tk \<noteq> []" using ys by (cases ys) (auto simp: tk_def)
  have us: "set us \<subseteq> ?D" using set_takeWhileD by (fastforce simp: us_def)
  have tD: "set tk \<inter> ?D = {}" by (auto simp: tk_def dest: set_takeWhileD)
  have zD: "zs = [] \<or> hd zs \<in> ?D" using hd_dropWhile [of "\<lambda>x. x \<notin> ?D" ys] by (auto simp: zs_def)
  have tx: "tokens ?D xs = tk # tokens ?D zs"
    using ys by (subst tokens.simps) (simp add: ys_def tk_def zs_def Let_def)
  show ?thesis
    using tok_step_intro [OF assms(1) _ assms(4) _ tk zD, of us] strtok_r_token [OF assms(1,2) _ assms(4,5) us tk tD zD]
      assms(3,6) tx unfolding xs [symmetric] by (cases "zs = []") (auto simp: Let_def)
qed

lemma tokenize_cstr:
  assumes "cstr m d ds" and "d \<noteq> NIL" and "cstr m s xs" and "s \<noteq> NIL" and "a = s \<or> a = NIL \<and> sp = s"
    and "{d .. d + length ds} \<inter> {s ..< s + length xs} = {}"
  shows "\<exists>ts m'. tokenize a d sp m = Some (ts, m') \<and> list_all2 (cstr m') ts (tokens (set ds) xs)
    \<and> unchanged_outside {s ..< s + length xs} m m'"
  using assms
proof (induction "length xs" arbitrary: xs s a sp m rule: less_induct)
  case less
  note c = less.prems
  show ?case
  proof (cases "set xs \<subseteq> set ds")
    case True
    then have "tokenize a d sp m = Some ([], m)"
      using strtok_r_end [OF c(1-5)] by (subst tokenize.simps) simp
    moreover have "dropWhile (\<lambda>x. x \<in> set ds) xs = []" using True by (auto simp: dropWhile_eq_Nil_conv)
    then have "tokens (set ds) xs = []" by (subst tokens.simps) simp
    ultimately show ?thesis by (simp add: unchanged_outside_def)
  next
    case False
    then obtain t s1 tk rest m1 where st: "strtok_r a d sp m = Some (t, s1, m1)" "tok_step ds d s xs m t s1 tk rest m1"
      using strtok_r_step [OF c] by blast
    note k = st(2) [unfolded tok_step_def]
    have "{d .. d + length ds} \<inter> {s1 ..< s1 + length rest} = {}" using c(6) k by auto
    then obtain ts m' where i: "tokenize NIL d s1 m1 = Some (ts, m')" "list_all2 (cstr m') ts (tokens (set ds) rest)"
      "unchanged_outside {s1 ..< s1 + length rest} m1 m'"
      using less.hyps [of rest m1 s1 NIL s1] k c(2,4) by auto
    have "\<forall>i \<le> length tk. m' (t + i) = m1 (t + i)" using k i(3) unfolding unchanged_outside_def by blast
    then have "cstr m' t tk" using k cstr_cong [of tk m' t m1] by blast
    moreover have "tokenize a d sp m = Some (t # ts, m')"
      using st(1) i(1) k by (subst tokenize.simps) simp
    moreover have "unchanged_outside {s ..< s + length xs} m m'"
      using unchanged_outside_trans [OF _ unchanged_outside_mono [OF i(3)]] k by auto
    ultimately show ?thesis using i(2) k by auto
  qed
qed

section \<open>Properties\<close>

text \<open>
  C23. Moving a block, whether or not source and destination overlap, \<^verbatim>\<open>memmove\<close> leaves the old bytes of the source at the
  destination and every other byte as it was; \<^verbatim>\<open>memcpy\<close> does the same for a destination that is not
  in the middle of the source. The pointer \<^verbatim>\<open>memmove\<close> returns, however, is the end of the destination
  when the destination lies below the source.
\<close>

theorem memmove_moves:
  assumes "dst \<noteq> NIL" and "src \<noteq> NIL"
  shows "(\<exists>m'. memmove dst src n m = Some (if dst < src then dst + n else dst, m')
      \<and> bytes m' dst n = bytes m src n \<and> unchanged_outside {dst ..< dst + n} m m')
    \<and> (dst \<le> src \<or> src + n \<le> dst \<longrightarrow>
       (\<exists>m'. memcpy dst src n m = Some (dst, m') \<and> bytes m' dst n = bytes m src n
          \<and> unchanged_outside {dst ..< dst + n} m m'))"
proof (intro conjI impI)
  let ?m = "\<lambda>a. if dst \<le> a \<and> a < dst + n then m (src + (a - dst)) else m a"
  have b: "bytes ?m dst n = bytes m src n" by (intro nth_equalityI) simp_all
  have u: "unchanged_outside {dst ..< dst + n} m ?m" by (auto simp: unchanged_outside_def)
  have "memmove dst src n m = Some (if dst < src then dst + n else dst, ?m)"
    using assms memcpy_loop_eq [of dst src n m] memmove_down_eq [of src dst n m] by (simp add: memmove_def)
  with b u show "\<exists>m'. memmove dst src n m = Some (if dst < src then dst + n else dst, m')
      \<and> bytes m' dst n = bytes m src n \<and> unchanged_outside {dst ..< dst + n} m m'" by blast
  assume "dst \<le> src \<or> src + n \<le> dst"
  then have "memcpy dst src n m = Some (dst, ?m)" using assms memcpy_loop_eq [of dst src n m] by (simp add: memcpy_def)
  with b u show "\<exists>m'. memcpy dst src n m = Some (dst, m') \<and> bytes m' dst n = bytes m src n
      \<and> unchanged_outside {dst ..< dst + n} m m'" by blast
qed

theorem memmove_moves_witness:
  "\<exists>m'. memmove 10 12 4 (\<lambda>a. of_nat a) = Some (14, m') \<and> bytes m' 10 4 = [12, 13, 14, 15]"
  using memmove_moves [of 10 12 4 "\<lambda>a. of_nat a"] by (auto simp: bytes_def eval_nat_numeral)


definition mem_ex :: mem where
  "mem_ex = (\<lambda>a. if a < 11 then [0, 104, 105, 32, 32, 106, 32, 0, 32, 0, 0] ! a else 0)"

lemma cstr_mem_ex: "cstr mem_ex 1 [104, 105, 32, 32, 106, 32]" "cstr mem_ex 8 [32]"
  by (simp_all add: mem_ex_def)


text \<open>
  C25. Searching and comparing strings: \<^verbatim>\<open>strcmp\<close> is the sign of the lexicographic order on the characters as unsigned
  numbers, \<^verbatim>\<open>strstr\<close> returns the first occurrence of the needle or null if there is none, and \<^verbatim>\<open>strlen\<close>,
  \<^verbatim>\<open>strnlen\<close>, \<^verbatim>\<open>strchr\<close>, \<^verbatim>\<open>strspn\<close>, \<^verbatim>\<open>strcspn\<close> and \<^verbatim>\<open>strpbrk\<close> compute the length, the first position of a
  character and the longest prefixes made of, or free of, a set of characters; all of them terminate on
  every pair of null-terminated strings.
\<close>

theorem string_queries:
  assumes "cstr m p xs" and "p \<noteq> NIL" and "cstr m q ys" and "q \<noteq> NIL"
  shows "strcmp m p q = Some (if xs = ys then 0 else if ord_class.lexordp xs ys then - 1 else 1)
    \<and> (\<exists>r. strstr m p q = Some r \<and> ((\<exists>j. r = p + j \<and> prefix ys (drop j xs) \<and> (\<forall>i < j. \<not> prefix ys (drop i xs)))
         \<or> \<not> sublist ys xs \<and> r = NIL))
    \<and> strlen m p = Some (length xs) \<and> strnlen m p n = min (length xs) n
    \<and> strchr m p c = Some (if c \<in> set xs \<or> c = 0 then p + length (takeWhile (\<lambda>x. x \<noteq> c) xs) else NIL)
    \<and> strspn m p q = Some (length (takeWhile (\<lambda>x. x \<in> set ys) xs))
    \<and> strcspn m p q = Some (length (takeWhile (\<lambda>x. x \<notin> set ys) xs))
    \<and> strpbrk m p q = Some (if set xs \<inter> set ys = {} then NIL else p + length (takeWhile (\<lambda>x. x \<notin> set ys) xs))"
  using strcmp_cstr [OF assms(1,3,2,4)] strstr_cstr [OF assms] strlen_cstr [OF assms(1,2)]
    strnlen_cstr [OF assms(1)] strchr_cstr [OF assms(1,2)]
    strspn_loops_cstr(1,2) [OF assms(3,4), of p 0 xs] strspn_loops_cstr(3) [OF assms(3,4), of p xs] assms(1)
  by (simp add: strspn_def strcspn_def)

theorem string_queries_witness:
  "strcmp mem_ex 1 8 = Some 1 \<and> strcspn mem_ex 1 8 = Some 2 \<and> strlen mem_ex 1 = Some 6"
  using string_queries [OF cstr_mem_ex(1) _ cstr_mem_ex(2), where n = 0 and c = 0] by simp

text \<open>
  \<^verbatim>\<open>strrchr\<close> finds the last occurrence of a character in a string and, unlike \<^verbatim>\<open>strchr\<close>, never the terminating null byte.
\<close>

theorem strrchr_last:
  assumes "cstr m p xs" and "p \<noteq> NIL"
  shows "\<exists>r. strrchr m p c = Some r
    \<and> (if c \<in> set xs then \<exists>i < length xs. r = p + i \<and> xs ! i = c \<and> (\<forall>j. i < j \<and> j < length xs \<longrightarrow> xs ! j \<noteq> c)
       else r = NIL)"
proof (cases "c \<in> set xs")
  case True
  then obtain us vs where e: "xs = us @ c # vs" "c \<notin> set vs" by (metis split_list_last)
  have "takeWhile (\<lambda>x. x \<noteq> c) (rev xs) = rev vs" using e by (auto simp: takeWhile_append)
  then have "strrchr m p c = Some (p + length us)"
    using strrchr_loop_cstr [OF assms(1), of c NIL] e by (simp add: strrchr_def)
  moreover have "xs ! j \<noteq> c" if "length us < j" "j < length xs" for j
    using that e by (auto simp: nth_append nth_Cons split: nat.splits)
  ultimately show ?thesis using True e by (auto intro!: exI [of _ "length us"])
next
  case False
  then show ?thesis using strrchr_loop_cstr [OF assms(1), of c NIL] by (simp add: strrchr_def)
qed

theorem strrchr_last_witness: "\<exists>r. strrchr mem_ex 1 0 = Some r \<and> r = NIL"
  using strrchr_last [OF cstr_mem_ex(1), of 0] by simp

text \<open>
  C21. Splitting a string with \<^verbatim>\<open>strtok_r\<close> in the documented loop terminates, returns pointers to the maximal runs of
  characters that are not delimiters, in order, each null-terminated in the final memory, and changes nothing
  outside the string.
\<close>

theorem strtok_r_tokenizes:
  assumes "cstr m d ds" and "d \<noteq> NIL" and "cstr m s xs" and "s \<noteq> NIL"
    and "{d .. d + length ds} \<inter> {s ..< s + length xs} = {}"
  shows "\<exists>ts m'. tokenize s d sp m = Some (ts, m') \<and> list_all2 (cstr m') ts (tokens (set ds) xs)
    \<and> unchanged_outside {s ..< s + length xs} m m'
    \<and> concat (tokens (set ds) xs) = filter (\<lambda>x. x \<notin> set ds) xs \<and> [] \<notin> set (tokens (set ds) xs)"
  using tokenize_cstr [OF assms(1-4) disjI1 [OF refl] assms(5), of sp] tokens_concat [of "set ds" xs] by blast

theorem strtok_r_tokenizes_witness:
  "\<exists>ts m'. tokenize 1 8 0 mem_ex = Some (ts, m') \<and> list_all2 (cstr m') ts [[104, 105], [106]]"
proof -
  have "tokens {32} [104, 105, 32, 32, 106, 32 :: u8] = [[104, 105], [106]]"
    by (subst tokens.simps, simp, subst tokens.simps, simp, subst tokens.simps, simp)
  moreover have "{8 .. 8 + length [32 :: u8]} \<inter> {1 ..< 1 + length [104, 105, 32, 32, 106, 32 :: u8]} = {}" by auto
  ultimately show ?thesis
    using strtok_r_tokenizes [OF cstr_mem_ex(2) _ cstr_mem_ex(1), of 0] by auto
qed

end
