(* ===== verification/Stdlib.thy ===== *)
theory Stdlib
  imports CString List_Sort Fixed_Point
begin

text \<open>
  The utility functions of \<^verbatim>\<open>lib/stdlib.c\<close>: \<^verbatim>\<open>atoi\<close>, the in-place heap sort and binary search. An array of
  elements of \<^verbatim>\<open>size\<close> bytes each is the list of its elements; as in the code, the heap uses indices from 1 on.
\<close>

section \<open>Definitions\<close>

subsection \<open>Conversion\<close>

definition isspace :: "u8 \<Rightarrow> bool" where
  "isspace c \<longleftrightarrow> c = 32 \<or> c = 12 \<or> c = 10 \<or> c = 13 \<or> c = 9 \<or> c = 11"

definition isdigit :: "u8 \<Rightarrow> bool" where
  "isdigit c \<longleftrightarrow> 48 \<le> c \<and> c \<le> 57"

partial_function (option) skip_space :: "mem \<Rightarrow> nat \<Rightarrow> nat option" where
  "skip_space m s = (if isspace (m s) then skip_space m (s + 1) else Some s)"

partial_function (option) digits_loop :: "mem \<Rightarrow> nat \<Rightarrow> u32 \<Rightarrow> u32 option" where
  "digits_loop m s v =
     (if isdigit (m s) then digits_loop m (s + 1) (v * 10 - (ucast (m s) - 48)) else Some v)"

definition atoi :: "mem \<Rightarrow> nat \<Rightarrow> u32 option" where
  "atoi m s = do {
     ASSERT (s \<noteq> NIL);
     s \<leftarrow> skip_space m s;
     let (negative, s) = (if m s = 43 then (False, s + 1) else if m s = 45 then (True, s + 1) else (False, s));
     v \<leftarrow> digits_loop m s 0;
     Some (if negative then v else - v)
   }"

subsection \<open>Heap sort\<close>

definition do_swap :: "'a list \<Rightarrow> nat \<Rightarrow> nat \<Rightarrow> 'a list" where
  "do_swap array a_idx b_idx =
     array[a_idx - 1 := array ! (b_idx - 1), b_idx - 1 := array ! (a_idx - 1)]"

definition do_compare :: "('a \<Rightarrow> 'a \<Rightarrow> int) \<Rightarrow> 'a list \<Rightarrow> nat \<Rightarrow> nat \<Rightarrow> int" where
  "do_compare compare array a_idx b_idx = compare (array ! (a_idx - 1)) (array ! (b_idx - 1))"

text \<open>The index of the largest element among \<^term>\<open>i\<close> and its children.\<close>

definition heap_max :: "('a \<Rightarrow> 'a \<Rightarrow> int) \<Rightarrow> 'a list \<Rightarrow> nat \<Rightarrow> nat \<Rightarrow> nat" where
  "heap_max compare array i cnt =
     (let left = 2 * i;
          right = 2 * i + 1;
          mx = i;
          mx = (if left \<le> cnt \<and> do_compare compare array left mx > 0 then left else mx);
          mx = (if right \<le> cnt \<and> do_compare compare array right mx > 0 then right else mx)
      in mx)"

lemma heap_max_cases:
  "heap_max compare array i cnt = i
   \<or> heap_max compare array i cnt = 2 * i \<and> 2 * i \<le> cnt
   \<or> heap_max compare array i cnt = 2 * i + 1 \<and> 2 * i + 1 \<le> cnt"
  by (auto simp: heap_max_def Let_def)

function heapify :: "('a \<Rightarrow> 'a \<Rightarrow> int) \<Rightarrow> nat \<Rightarrow> nat \<Rightarrow> 'a list \<Rightarrow> 'a list" where
  "heapify compare i cnt array =
     (let mx = heap_max compare array i cnt
      in if mx = i then array else heapify compare mx cnt (do_swap array i mx))"
  by pat_completeness auto
termination
proof (relation "measure (\<lambda>(compare, i, cnt, array). cnt - i)")
  fix compare :: "'a \<Rightarrow> 'a \<Rightarrow> int" and i cnt array mx
  assume "mx = heap_max compare array i cnt" "mx \<noteq> i"
  then have "i < mx \<and> mx \<le> cnt" using heap_max_cases [of compare array i cnt] by auto
  then have "cnt - mx < cnt - i" by linarith
  then show "((compare, mx, cnt, do_swap array i mx), (compare, i, cnt, array))
      \<in> measure (\<lambda>(compare, i, cnt, array). cnt - i)" by simp
qed simp

declare heapify.simps [simp del]

fun build_loop :: "('a \<Rightarrow> 'a \<Rightarrow> int) \<Rightarrow> nat \<Rightarrow> nat \<Rightarrow> 'a list \<Rightarrow> 'a list" where
  "build_loop compare 0 cnt array = array"
| "build_loop compare (Suc i) cnt array = build_loop compare i cnt (heapify compare (Suc i) cnt array)"

fun extract_loop :: "('a \<Rightarrow> 'a \<Rightarrow> int) \<Rightarrow> nat \<Rightarrow> 'a list \<Rightarrow> 'a list" where
  "extract_loop compare 0 array = array"
| "extract_loop compare (Suc 0) array = array"
| "extract_loop compare (Suc (Suc i)) array =
     extract_loop compare (Suc i) (heapify compare 1 (Suc i) (do_swap array 1 (Suc (Suc i))))"

definition sort_array :: "('a \<Rightarrow> 'a \<Rightarrow> int) \<Rightarrow> 'a list \<Rightarrow> 'a list" where
  "sort_array compare array =
     (let cnt = length array
      in extract_loop compare cnt (build_loop compare (cnt div 2) cnt array))"

definition qsort :: "('a \<Rightarrow> 'a \<Rightarrow> int) \<Rightarrow> 'a list \<Rightarrow> 'a list" where
  "qsort compare array = sort_array compare array"

subsection \<open>Binary search\<close>

text \<open>Positions in the array stand for the pointers; the result is a position, or \<^term>\<open>None\<close> for the null pointer.\<close>

function search_loop :: "('a \<Rightarrow> 'a \<Rightarrow> int) \<Rightarrow> 'a \<Rightarrow> 'a list \<Rightarrow> nat \<Rightarrow> nat \<Rightarrow> nat option" where
  "search_loop compare key array first lst =
     (if first < lst then
        (let range = lst - first;
             middle = first + range div 2;
             cmp = compare key (array ! middle)
         in if cmp < 0 then search_loop compare key array first middle
            else if cmp > 0 then search_loop compare key array (middle + 1) lst
            else Some middle)
      else None)"
  by pat_completeness auto
termination by (relation "measure (\<lambda>(_, _, _, first, lst). lst - first)") auto

declare search_loop.simps [simp del]

definition binary_search :: "('a \<Rightarrow> 'a \<Rightarrow> int) \<Rightarrow> 'a \<Rightarrow> 'a list \<Rightarrow> nat option" where
  "binary_search compare key array = search_loop compare key array 0 (length array)"

definition bsearch :: "('a \<Rightarrow> 'a \<Rightarrow> int) \<Rightarrow> 'a \<Rightarrow> 'a list \<Rightarrow> nat option" where
  "bsearch compare key array = binary_search compare key array"

section \<open>Comparison functions\<close>

text \<open>What the comments of \<^verbatim>\<open>sort\<close> require of \<^verbatim>\<open>compare\<close>: the sign of a comparison in a total preorder.\<close>

definition strcmp_type :: "('a \<Rightarrow> 'a \<Rightarrow> int) \<Rightarrow> bool" where
  "strcmp_type compare \<longleftrightarrow> (\<forall>a b. compare a b > 0 \<longleftrightarrow> compare b a < 0)
     \<and> (\<forall>a b c. compare a b \<le> 0 \<longrightarrow> compare b c \<le> 0 \<longrightarrow> compare a c \<le> 0)"

lemma strcmp_typeD:
  assumes "strcmp_type compare"
  shows "compare a b > 0 \<longleftrightarrow> compare b a < 0" and "compare a b \<le> 0 \<Longrightarrow> compare b c \<le> 0 \<Longrightarrow> compare a c \<le> 0"
    and "compare a a = 0" and "compare a b > 0 \<Longrightarrow> compare b a \<le> 0"
proof -
  show s: "compare a b > 0 \<longleftrightarrow> compare b a < 0" for a b using assms by (simp add: strcmp_type_def)
  show "compare a b \<le> 0 \<Longrightarrow> compare b c \<le> 0 \<Longrightarrow> compare a c \<le> 0" using assms by (auto simp: strcmp_type_def)
  show "compare a a = 0" using s [of a a] by linarith
  show "compare a b > 0 \<Longrightarrow> compare b a \<le> 0" using s [of a b] by linarith
qed

section \<open>Heaps\<close>

abbreviation elem :: "'a list \<Rightarrow> nat \<Rightarrow> 'a" where
  "elem xs k \<equiv> xs ! (k - 1)"

definition heap_at :: "('a \<Rightarrow> 'a \<Rightarrow> int) \<Rightarrow> nat \<Rightarrow> 'a list \<Rightarrow> nat \<Rightarrow> bool" where
  "heap_at compare cnt xs j \<longleftrightarrow>
     (\<forall>c \<in> {2 * j, 2 * j + 1}. c \<le> cnt \<longrightarrow> compare (elem xs c) (elem xs j) \<le> 0)"

text \<open>
  While an element floats down it is at the only place where the heap order may be broken, and its parent is already not
  less than its children.
\<close>

definition sinking :: "('a \<Rightarrow> 'a \<Rightarrow> int) \<Rightarrow> nat \<Rightarrow> nat \<Rightarrow> 'a list \<Rightarrow> nat \<Rightarrow> bool" where
  "sinking compare lo cnt xs i \<longleftrightarrow>
     (\<forall>j \<ge> lo. j \<noteq> i \<longrightarrow> heap_at compare cnt xs j)
     \<and> (\<forall>c \<in> {2 * i, 2 * i + 1}. lo \<le> i div 2 \<and> c \<le> cnt \<longrightarrow> compare (elem xs c) (elem xs (i div 2)) \<le> 0)"

lemma length_do_swap [simp]: "length (do_swap xs a b) = length xs"
  by (simp add: do_swap_def)

lemma elem_do_swap:
  assumes "1 \<le> a" "a \<le> length xs" "1 \<le> b" "b \<le> length xs" "1 \<le> k" "k \<le> length xs"
  shows "elem (do_swap xs a b) k = (if k = a then elem xs b else if k = b then elem xs a else elem xs k)"
  using assms by (auto simp: do_swap_def nth_list_update)

lemma mset_do_swap:
  assumes "1 \<le> a" "a \<le> length xs" "1 \<le> b" "b \<le> length xs"
  shows "mset (do_swap xs a b) = mset xs"
  using assms mset_swap [of "b - 1" xs "a - 1"] by (auto simp: do_swap_def mset_swap)

lemma drop_do_swap: "1 \<le> a \<Longrightarrow> 1 \<le> b \<Longrightarrow> a \<le> n \<Longrightarrow> b \<le> n \<Longrightarrow> drop n (do_swap xs a b) = drop n xs"
  by (auto simp: do_swap_def)

lemma heap_max_greatest:
  assumes "strcmp_type compare"
  shows "compare (elem xs i) (elem xs (heap_max compare xs i cnt)) \<le> 0"
    and "2 * i \<le> cnt \<Longrightarrow> compare (elem xs (2 * i)) (elem xs (heap_max compare xs i cnt)) \<le> 0"
    and "2 * i + 1 \<le> cnt \<Longrightarrow> compare (elem xs (2 * i + 1)) (elem xs (heap_max compare xs i cnt)) \<le> 0"
proof -
  define l where "l = (if 2 * i \<le> cnt \<and> compare (elem xs (2 * i)) (elem xs i) > 0 then 2 * i else i)"
  define r where "r = (if 2 * i + 1 \<le> cnt \<and> compare (elem xs (2 * i + 1)) (elem xs l) > 0 then 2 * i + 1 else l)"
  have h: "heap_max compare xs i cnt = r" by (simp add: heap_max_def do_compare_def Let_def l_def r_def)
  note t = strcmp_typeD(2) [OF assms] and g = strcmp_typeD(4) [OF assms] and e = strcmp_typeD(3) [OF assms]
  have l: "compare (elem xs i) (elem xs l) \<le> 0" "2 * i \<le> cnt \<longrightarrow> compare (elem xs (2 * i)) (elem xs l) \<le> 0"
    using g [of "elem xs (2 * i)" "elem xs i"] e [of "elem xs i"] e [of "elem xs (2 * i)"] by (auto simp: l_def)
  have r: "compare (elem xs l) (elem xs r) \<le> 0"
    using g [of "elem xs (2 * i + 1)" "elem xs l"] e [of "elem xs l"] by (simp add: r_def)
  show "compare (elem xs i) (elem xs (heap_max compare xs i cnt)) \<le> 0" unfolding h by (rule t [OF l(1) r])
  show "2 * i \<le> cnt \<Longrightarrow> compare (elem xs (2 * i)) (elem xs (heap_max compare xs i cnt)) \<le> 0"
    unfolding h using t [OF _ r] l(2) by blast
  show "2 * i + 1 \<le> cnt \<Longrightarrow> compare (elem xs (2 * i + 1)) (elem xs (heap_max compare xs i cnt)) \<le> 0"
    unfolding h using e [of "elem xs (2 * i + 1)"] by (simp add: r_def)
qed

lemma sinking_step:
  assumes c: "strcmp_type compare" and s: "sinking compare lo cnt xs i" and i: "1 \<le> i" "1 \<le> lo" "lo \<le> i"
    and n: "cnt \<le> length xs" and m: "m = heap_max compare xs i cnt" "m \<noteq> i"
  shows "sinking compare lo cnt (do_swap xs i m) m"
proof -
  have mc: "m = 2 * i \<or> m = 2 * i + 1" "m \<le> cnt" "i < m" using heap_max_cases [of compare xs i cnt] m i by auto
  let ?ys = "do_swap xs i m"
  have el: "elem ?ys k = (if k = i then elem xs m else if k = m then elem xs i else elem xs k)" if "1 \<le> k" "k \<le> cnt" for k
    using that mc i n by (intro elem_do_swap) auto
  note g = heap_max_greatest [OF c, where xs = xs and i = i and cnt = cnt, folded m(1)]
  have "heap_at compare cnt ?ys j" if j: "lo \<le> j" "j \<noteq> m" for j
  proof (cases "j = i")
    case True
    have "compare (elem ?ys k) (elem ?ys i) \<le> 0" if "k = 2 * i \<or> k = 2 * i + 1" "k \<le> cnt" for k
    proof -
      have "elem ?ys k = (if k = m then elem xs i else elem xs k)" using that i by (subst el) auto
      moreover have "elem ?ys i = elem xs m" using mc i by (subst el) auto
      ultimately show ?thesis using g that by auto
    qed
    with True show ?thesis unfolding heap_at_def by blast
  next
    case False
    have h: "heap_at compare cnt xs j" using s j(1) False by (simp add: sinking_def)
    have "compare (elem ?ys k) (elem ?ys j) \<le> 0" if k: "k = 2 * j \<or> k = 2 * j + 1" "k \<le> cnt" for k
    proof -
      have j1: "1 \<le> j" "j \<le> cnt" "k \<noteq> m" using i(2) j(1) k mc(1) False by auto
      have ej: "elem ?ys j = elem xs j" using j1 False j(2) by (subst el) auto
      show ?thesis
      proof (cases "k = i")
        case True
        then have "elem ?ys k = elem xs m" using k i by (subst el) auto
        moreover have "i div 2 = j" using True k(1) by auto
        moreover have "compare (elem xs m) (elem xs (i div 2)) \<le> 0"
          using s mc(1,2) j(1) calculation(2) by (auto simp: sinking_def)
        ultimately show ?thesis using ej by simp
      next
        case False
        then have "elem ?ys k = elem xs k" using k j1 by (subst el) auto
        then show ?thesis using h ej k unfolding heap_at_def by auto
      qed
    qed
    then show ?thesis unfolding heap_at_def by blast
  qed
  moreover have "compare (elem ?ys k) (elem ?ys (m div 2)) \<le> 0" if "k \<in> {2 * m, 2 * m + 1}" "k \<le> cnt" for k
  proof -
    have "m div 2 = i" using mc(1) by auto
    moreover have "elem ?ys k = elem xs k" using that mc(3) by (subst el) auto
    moreover have "elem ?ys i = elem xs m" using mc i by (subst el) auto
    moreover have "heap_at compare cnt xs m" using s i mc(3) m(2) by (auto simp: sinking_def)
    then have "compare (elem xs k) (elem xs m) \<le> 0" using that unfolding heap_at_def by blast
    ultimately show ?thesis by simp
  qed
  ultimately show ?thesis unfolding sinking_def by blast
qed

lemma heapify_spec:
  assumes "strcmp_type compare" and "sinking compare lo cnt xs i" and "1 \<le> i" "1 \<le> lo" "lo \<le> i" and "cnt \<le> length xs"
  shows "(\<forall>j \<ge> lo. heap_at compare cnt (heapify compare i cnt xs) j)
    \<and> mset (heapify compare i cnt xs) = mset xs \<and> drop cnt (heapify compare i cnt xs) = drop cnt xs"
  using assms
proof (induction compare i cnt xs rule: heapify.induct)
  case (1 compare i cnt xs)
  define m where "m = heap_max compare xs i cnt"
  show ?case
  proof (cases "m = i")
    case True
    have "heap_at compare cnt xs i"
      using heap_max_greatest [OF 1(2), where xs = xs and i = i and cnt = cnt] True by (auto simp: heap_at_def m_def)
    then have "\<forall>j \<ge> lo. heap_at compare cnt xs j" using 1(3) by (metis sinking_def)
    with True show ?thesis by (subst (1 2 3) heapify.simps) (simp add: m_def)
  next
    case False
    have mc: "i < m" "m \<le> cnt" using heap_max_cases [of compare xs i cnt] False 1(4) by (auto simp: m_def)
    have "mset (do_swap xs i m) = mset xs" using mc 1(4,7) by (intro mset_do_swap) auto
    moreover have "drop cnt (do_swap xs i m) = drop cnt xs" using mc 1(4) by (intro drop_do_swap) auto
    moreover have "heapify compare i cnt xs = heapify compare m cnt (do_swap xs i m)"
      using False by (subst heapify.simps) (simp add: m_def Let_def)
    moreover have "sinking compare lo cnt (do_swap xs i m) m"
      by (rule sinking_step [OF 1(2,3,4,5,6,7) m_def False])
    ultimately show ?thesis using 1(1) [OF m_def False 1(2)] 1(5,6,7) mc by simp
  qed
qed

text \<open>In a heap the first element is a greatest one.\<close>

lemma heap_root_greatest:
  assumes c: "strcmp_type compare" and h: "\<forall>j \<ge> 1. heap_at compare cnt xs j"
  shows "1 \<le> k \<Longrightarrow> k \<le> cnt \<Longrightarrow> compare (elem xs k) (elem xs 1) \<le> 0"
proof (induction k rule: less_induct)
  case (less k)
  show ?case
  proof (cases "k = 1")
    case True
    then show ?thesis using strcmp_typeD(3) [OF c] by simp
  next
    case False
    with less.prems have p: "k div 2 < k" "1 \<le> k div 2" "k div 2 \<le> cnt" "k \<in> {2 * (k div 2), 2 * (k div 2) + 1}" by auto
    with less.prems h have "compare (elem xs k) (elem xs (k div 2)) \<le> 0" unfolding heap_at_def by blast
    then show ?thesis using less.IH [OF p(1,2,3)] strcmp_typeD(2) [OF c] by blast
  qed
qed

lemma build_loop_spec:
  assumes "strcmp_type compare" and "\<forall>j \<ge> Suc i. heap_at compare cnt xs j" and "cnt \<le> length xs"
  shows "(\<forall>j \<ge> 1. heap_at compare cnt (build_loop compare i cnt xs) j) \<and> mset (build_loop compare i cnt xs) = mset xs"
  using assms
proof (induction compare i cnt xs rule: build_loop.induct)
  case (2 compare i cnt xs)
  have "sinking compare (Suc i) cnt xs (Suc i)" using 2(3) by (auto simp: sinking_def)
  then have "(\<forall>j \<ge> Suc i. heap_at compare cnt (heapify compare (Suc i) cnt xs) j)
      \<and> mset (heapify compare (Suc i) cnt xs) = mset xs"
    using heapify_spec [OF 2(2) _ _ _ _ 2(4)] by simp
  moreover from this have "length (heapify compare (Suc i) cnt xs) = length xs" by (metis size_mset)
  ultimately show ?case using 2(1) [OF 2(2)] 2(4) by simp
qed simp

abbreviation sorted_by :: "('a \<Rightarrow> 'a \<Rightarrow> int) \<Rightarrow> 'a list \<Rightarrow> bool" where
  "sorted_by compare \<equiv> sorted_wrt (\<lambda>x y. compare x y \<le> 0)"

lemma do_swap_first:
  assumes "length xs = Suc (Suc n) + length ys" and "drop (Suc (Suc n)) xs = ys"
  shows "drop (Suc n) (do_swap xs 1 (Suc (Suc n))) = elem xs 1 # ys"
proof -
  have "drop (Suc n) (do_swap xs 1 (Suc (Suc n))) = elem (do_swap xs 1 (Suc (Suc n))) (Suc (Suc n)) # drop (Suc (Suc n)) (do_swap xs 1 (Suc (Suc n)))"
    using assms(1) Cons_nth_drop_Suc [of "Suc n" "do_swap xs 1 (Suc (Suc n))"] by simp
  moreover have "elem (do_swap xs 1 (Suc (Suc n))) (Suc (Suc n)) = elem xs 1"
    using assms(1) by (subst elem_do_swap) auto
  moreover have "drop (Suc (Suc n)) (do_swap xs 1 (Suc (Suc n))) = ys"
    using assms(2) by (subst drop_do_swap) auto
  ultimately show ?thesis by simp
qed

text \<open>The part of the array already in its final place.\<close>

definition settled :: "('a \<Rightarrow> 'a \<Rightarrow> int) \<Rightarrow> nat \<Rightarrow> 'a list \<Rightarrow> bool" where
  "settled compare i xs \<longleftrightarrow> i \<le> length xs \<and> sorted_by compare (drop i xs)
     \<and> (\<forall>x \<in> set (take i xs). \<forall>y \<in> set (drop i xs). compare x y \<le> 0)"

lemma set_take_elem: "i \<le> length xs \<Longrightarrow> set (take i xs) = elem xs ` {1 .. i}"
proof -
  assume "i \<le> length xs"
  then have "set (take i xs) = (!) xs ` {0 ..< i}" by (metis nth_image)
  also have "\<dots> = elem xs ` {1 .. i}" by (force simp: image_iff intro: bexI [of _ "Suc _"])
  finally show ?thesis .
qed

lemma extract_step:
  assumes c: "strcmp_type compare" and h: "\<forall>j \<ge> 1. heap_at compare (Suc (Suc i)) xs j" and s: "settled compare (Suc (Suc i)) xs"
  defines "ys \<equiv> heapify compare 1 (Suc i) (do_swap xs 1 (Suc (Suc i)))"
  shows "(\<forall>j \<ge> 1. heap_at compare (Suc i) ys j) \<and> settled compare (Suc i) ys \<and> mset ys = mset xs"
proof -
  let ?n = "Suc (Suc i)"
  let ?zs = "do_swap xs 1 ?n"
  have n: "?n \<le> length xs" using s by (simp add: settled_def)
  have el: "elem ?zs k = elem xs k" if "1 < k" "k \<le> Suc i" for k using that n by (subst elem_do_swap) auto
  have "heap_at compare (Suc i) ?zs j" if "j \<ge> 1" "j \<noteq> 1" for j
    unfolding heap_at_def
  proof (intro ballI impI)
    fix c assume c: "c \<in> {2 * j, 2 * j + 1}" "c \<le> Suc i"
    then have "compare (elem xs c) (elem xs j) \<le> 0" using h that(1) unfolding heap_at_def by (meson le_SucI)
    moreover have "1 < c" "1 < j" "j \<le> Suc i" using c that by auto
    then have "elem ?zs c = elem xs c" "elem ?zs j = elem xs j" using el c(2) by blast+
    ultimately show "compare (elem ?zs c) (elem ?zs j) \<le> 0" by simp
  qed
  then have "sinking compare 1 (Suc i) ?zs 1" by (auto simp: sinking_def)
  then have y: "\<forall>j \<ge> 1. heap_at compare (Suc i) ys j" "mset ys = mset ?zs" "drop (Suc i) ys = drop (Suc i) ?zs"
    using heapify_spec [OF c, of 1 "Suc i" ?zs 1] n by (simp_all add: ys_def)
  have mz: "mset ?zs = mset xs" using n by (intro mset_do_swap) auto
  have d: "drop (Suc i) ys = elem xs 1 # drop ?n xs" unfolding y(3) using n by (intro do_swap_first) auto
  have "mset (take (Suc i) ys) + mset (drop (Suc i) ys) = mset (take ?n xs) + mset (drop ?n xs)"
    using y(2) mz by (metis append_take_drop_id mset_append)
  then have "add_mset (elem xs 1) (mset (take (Suc i) ys)) = mset (take ?n xs)" by (simp add: d)
  then have t: "set (take (Suc i) ys) \<subseteq> set (take ?n xs)" by (metis set_mset_mset set_mset_add_mset_insert subset_insertI)
  have r: "compare x (elem xs 1) \<le> 0" if "x \<in> set (take ?n xs)" for x
    using that heap_root_greatest [OF c h] set_take_elem [OF n] by auto
  have "elem xs 1 \<in> set (take ?n xs)" using n by (cases xs) auto
  then have "settled compare (Suc i) ys"
    unfolding settled_def d using s t r n y(2) mz by (auto simp: settled_def dest: mset_eq_length)
  with y(1,2) mz show ?thesis by simp
qed

lemma extract_loop_spec:
  assumes "strcmp_type compare" and "\<forall>j \<ge> 1. heap_at compare i xs j" and "settled compare i xs"
  shows "sorted_by compare (extract_loop compare i xs) \<and> mset (extract_loop compare i xs) = mset xs"
  using assms
proof (induction compare i xs rule: extract_loop.induct)
  case (1 compare xs)
  then show ?case by (simp add: settled_def)
next
  case (2 compare xs)
  then show ?case by (cases xs) (auto simp: settled_def)
next
  case (3 compare i xs)
  with extract_step [OF 3(2,3,4)] show ?case by simp
qed

section \<open>Searching\<close>

lemma compare_mono:
  assumes c: "strcmp_type compare" and "compare a b \<le> 0"
  shows "compare k a < 0 \<Longrightarrow> compare k b < 0" and "compare k b > 0 \<Longrightarrow> compare k a > 0"
proof -
  note s = strcmp_typeD(1) [OF c] and t = strcmp_typeD(2) [OF c]
  show "compare k b < 0" if "compare k a < 0"
    using that s [of b k] s [of a k] t [OF assms(2), of k] by linarith
  show "compare k a > 0" if "compare k b > 0"
    using that t [of k a b] assms(2) by linarith
qed

lemma search_loop_spec:
  assumes "strcmp_type compare" and "sorted_by compare xs" and "lst \<le> length xs"
  shows "case search_loop compare key xs first lst of
      Some i \<Rightarrow> first \<le> i \<and> i < lst \<and> compare key (xs ! i) = 0
    | None \<Rightarrow> \<forall>i. first \<le> i \<and> i < lst \<longrightarrow> compare key (xs ! i) \<noteq> 0"
  using assms
proof (induction compare key xs first lst rule: search_loop.induct)
  case (1 compare key xs first lst)
  define mid where "mid = first + (lst - first) div 2"
  show ?case
  proof (cases "first < lst")
    case False
    then show ?thesis by (subst search_loop.simps) simp
  next
    case True
    then have m: "first \<le> mid" "mid < lst" by (auto simp: mid_def)
    have le: "compare (xs ! i) (xs ! j) \<le> 0" if "i \<le> j" "j < lst" for i j
      using that 1(4,5) strcmp_typeD(3) [OF 1(3)] by (cases "i = j") (auto simp: sorted_wrt_iff_nth_less)
    consider "compare key (xs ! mid) < 0" | "compare key (xs ! mid) > 0" | "compare key (xs ! mid) = 0" by linarith
    then show ?thesis
    proof cases
      assume a: "compare key (xs ! mid) < 0"
      then have "compare key (xs ! i) \<noteq> 0" if "mid \<le> i" "i < lst" for i
        using compare_mono(1) [OF 1(3) le [OF that]] by force
      moreover have "search_loop compare key xs first lst = search_loop compare key xs first mid"
        using True a by (subst search_loop.simps) (simp add: mid_def Let_def)
      ultimately show ?thesis
        using 1(1) [OF True refl mid_def refl a 1(3,4)] 1(5) m by (auto split: option.splits) (metis not_le)
    next
      assume a: "compare key (xs ! mid) > 0"
      then have "compare key (xs ! i) \<noteq> 0" if "i \<le> mid" for i
        using compare_mono(2) [OF 1(3) le [OF that m(2)]] by force
      moreover have "search_loop compare key xs first lst = search_loop compare key xs (mid + 1) lst"
        using True a by (subst search_loop.simps) (simp add: mid_def Let_def)
      moreover have "\<not> compare key (xs ! mid) < 0" using a by simp
      ultimately show ?thesis
        using 1(2) [OF True refl mid_def refl _ a 1(3,4,5)] m by (auto simp: Suc_le_eq split: option.splits) (metis not_le)
    next
      assume "compare key (xs ! mid) = 0"
      then have "search_loop compare key xs first lst = Some mid"
        using True by (subst search_loop.simps) (simp add: mid_def Let_def)
      with m \<open>compare key (xs ! mid) = 0\<close> show ?thesis by simp
    qed
  qed
qed

section \<open>Decimal numbers\<close>

definition decimal :: "u8 list \<Rightarrow> nat" where
  "decimal ds = foldl (\<lambda>n d. n * 10 + (unat d - 48)) 0 ds"

lemma skip_space_cstr:
  "cstr m s (ws @ xs) \<Longrightarrow> \<forall>w \<in> set ws. isspace w \<Longrightarrow> xs = [] \<or> \<not> isspace (hd xs) \<Longrightarrow> skip_space m s = Some (s + length ws)"
proof (induction ws arbitrary: s)
  case Nil
  then have "\<not> isspace (m s)" by (cases xs) (auto simp: isspace_def)
  then show ?case by (subst skip_space.simps) simp
next
  case (Cons w ws)
  then show ?case by (subst skip_space.simps) simp
qed

lemma digits_loop_cstr:
  "cstr m s (ds @ xs) \<Longrightarrow> \<forall>d \<in> set ds. isdigit d \<Longrightarrow> xs = [] \<or> \<not> isdigit (hd xs) \<Longrightarrow>
   digits_loop m s (- of_nat n) = Some (- of_nat (foldl (\<lambda>n d. n * 10 + (unat d - 48)) n ds))"
proof (induction ds arbitrary: s n)
  case Nil
  then have "\<not> isdigit (m s)" by (cases xs) (auto simp: isdigit_def)
  then show ?case by (subst digits_loop.simps) simp
next
  case (Cons d ds)
  have d: "isdigit d" "m s = d" using Cons.prems by simp_all
  then have "48 \<le> unat d" by (simp add: isdigit_def word_le_nat_alt)
  moreover have "(ucast d :: u32) = of_nat (unat d)" by simp
  ultimately have e: "(- of_nat n) * 10 - (ucast d - 48 :: u32) = - of_nat (n * 10 + (unat d - 48))"
    by (simp add: of_nat_diff)
  have "digits_loop m s (- of_nat n) = digits_loop m (s + 1) ((- of_nat n) * 10 - (ucast d - 48))"
    by (subst digits_loop.simps) (simp add: d)
  moreover have "digits_loop m (s + 1) (- of_nat (n * 10 + (unat d - 48)))
      = Some (- of_nat (foldl (\<lambda>n d. n * 10 + (unat d - 48)) (n * 10 + (unat d - 48)) ds))"
    using Cons.prems by (intro Cons.IH) auto
  ultimately show ?case using e by (simp only: foldl_Cons)
qed

section \<open>Properties\<close>

lemma sort_array_sorted:
  assumes "strcmp_type compare"
  shows "sorted_by compare (sort_array compare xs) \<and> mset (sort_array compare xs) = mset xs"
proof -
  let ?ys = "build_loop compare (length xs div 2) (length xs) xs"
  have "\<forall>j \<ge> Suc (length xs div 2). heap_at compare (length xs) xs j" by (auto simp: heap_at_def)
  then have y: "\<forall>j \<ge> 1. heap_at compare (length xs) ?ys j" "mset ?ys = mset xs"
    using build_loop_spec [OF assms] by blast+
  then have "length ?ys = length xs" by (metis size_mset)
  then have "settled compare (length xs) ?ys" by (simp add: settled_def)
  with extract_loop_spec [OF assms y(1)] y(2) show ?thesis by (simp add: sort_array_def Let_def)
qed

text \<open>
  C26. \<^verbatim>\<open>sort\<close>, an in-place heap sort, terminates and leaves the elements of the array in nondecreasing order, for every
  comparison function with a \<^verbatim>\<open>strcmp\<close>-type result.
\<close>

theorem sort_array_sorts:
  assumes "strcmp_type compare"
  shows "sorted_by compare (sort_array compare xs) \<and> mset (sort_array compare xs) = mset xs
    \<and> qsort compare xs = sort_array compare xs"
  using sort_array_sorted [OF assms] by (simp add: qsort_def)

definition int_compare :: "int \<Rightarrow> int \<Rightarrow> int" where
  "int_compare a b = a - b"

lemma strcmp_type_int: "strcmp_type int_compare"
  by (auto simp: strcmp_type_def int_compare_def)

theorem sort_array_sorts_witness:
  "sorted (sort_array int_compare [5, 2, 9, 2]) \<and> mset (sort_array int_compare [5, 2, 9, 2]) = {#2, 2, 5, 9#}"
  using sort_array_sorts [OF strcmp_type_int, of "[5, 2, 9, 2]"]
  by (simp add: int_compare_def sorted_wrt_iff_nth_less sorted_iff_nth_mono_less)

text \<open>
  \<^verbatim>\<open>binary_search\<close> on an array that \<^verbatim>\<open>sort\<close> has put in order terminates and finds an element that compares equal to the
  key whenever the unsorted array had one, and otherwise returns the null pointer.
\<close>

theorem binary_search_after_sort:
  assumes "strcmp_type compare"
  shows "case binary_search compare key (sort_array compare xs) of
      Some i \<Rightarrow> i < length xs \<and> compare key (sort_array compare xs ! i) = 0
    | None \<Rightarrow> \<forall>x \<in> set xs. compare key x \<noteq> 0"
proof -
  let ?ys = "sort_array compare xs"
  have "sorted_by compare ?ys \<and> mset ?ys = mset xs"
    by (rule sort_array_sorted [OF assms])
  then have ys: "sorted_by compare ?ys" "set ?ys = set xs" "length ?ys = length xs"
    by (auto dest: mset_eq_setD mset_eq_length)
  show ?thesis
    using search_loop_spec [OF assms ys(1) order_refl, where key = key and first = 0] ys(2,3)
    by (auto simp: binary_search_def in_set_conv_nth split: option.splits) (metis in_set_conv_nth)
qed

theorem binary_search_after_sort_witness:
  "\<exists>i. binary_search int_compare 5 (sort_array int_compare [5, 2, 9]) = Some i"
  using binary_search_after_sort [OF strcmp_type_int, where key = 5 and xs = "[5, 2, 9]"]
  by (auto simp: int_compare_def split: option.splits)

text \<open>
  \<^verbatim>\<open>atoi\<close> skips white space, accepts one sign and returns the number written by the digits that follow, negated after a
  minus sign, for every value that an \<^verbatim>\<open>int\<close> can hold (including the least one), and modulo \<open>2^32\<close> for
  greater ones.
\<close>

lemma atoi_text:
  assumes "cstr m s (ws @ sg @ ds @ rest)" and "s \<noteq> NIL" and "\<forall>w \<in> set ws. isspace w"
    and "sg = [] \<or> sg = [43] \<or> sg = [45]" and "ds \<noteq> []" and "\<forall>d \<in> set ds. isdigit d"
    and "rest = [] \<or> \<not> isdigit (hd rest)"
  shows "atoi m s = Some (word_of_int (if sg = [45] then - int (decimal ds) else int (decimal ds)))
    \<and> (decimal ds < 2 ^ 31 \<or> sg = [45] \<and> decimal ds = 2 ^ 31 \<longrightarrow>
       sint (word_of_int (if sg = [45] then - int (decimal ds) else int (decimal ds)) :: u32)
         = (if sg = [45] then - int (decimal ds) else int (decimal ds)))"
proof
  obtain d ds' where d: "ds = d # ds'" "isdigit d" using assms(5,6) by (cases ds) auto
  then have dn: "\<not> isspace d" "d \<noteq> 43" "d \<noteq> 45" by (auto simp: isdigit_def isspace_def)
  have c: "cstr m (s + length ws) (sg @ ds @ rest)" "cstr m (s + length ws + length sg) (ds @ rest)"
    using assms(1) by (simp_all add: cstr_append add.assoc)
  have "\<not> isspace (hd (sg @ ds @ rest))" using assms(4) dn(1) d by (auto simp: isspace_def)
  then have sp: "skip_space m s = Some (s + length ws)" using skip_space_cstr [OF assms(1,3)] by blast
  have dl: "digits_loop m (s + length ws + length sg) 0 = Some (- of_nat (decimal ds))"
    using digits_loop_cstr [OF c(2) assms(6,7), of 0] by (simp add: decimal_def)
  show "atoi m s = Some (word_of_int (if sg = [45] then - int (decimal ds) else int (decimal ds)))"
    using assms(2,4) c(1) d dn sp dl by (auto simp: atoi_def)
  show "decimal ds < 2 ^ 31 \<or> sg = [45] \<and> decimal ds = 2 ^ 31 \<longrightarrow>
       sint (word_of_int (if sg = [45] then - int (decimal ds) else int (decimal ds)) :: u32)
         = (if sg = [45] then - int (decimal ds) else int (decimal ds))"
    by (intro impI, rule fits_32) auto
qed

end
