(* ===== verification/Rc4_Random.thy ===== *)
theory Rc4_Random
  imports Prelude "HOL-Library.Multiset"
begin

text \<open>
  The pseudo-random number generator of \<^verbatim>\<open>lib/random.c\<close>, an RC4 key stream. Its static variables are a record; indices into
  the 256 bytes of \<^verbatim>\<open>s\<close> are bytes themselves and wrap around.
\<close>

section \<open>Definitions\<close>

record rng =
  s_box :: "u8 list"
  s_i :: u8
  s_j :: u8
  inited :: bool

definition swap_byte :: "nat \<Rightarrow> nat \<Rightarrow> 'a list \<Rightarrow> 'a list" where
  "swap_byte a b s = s[a := s ! b, b := s ! a]"

definition seed_bytes :: "u32 \<Rightarrow> u8 list" where
  "seed_bytes seed = map (\<lambda>k. ucast (drop_bit (8 * k) seed)) [0, 1, 2, 3]"

definition key_step :: "u32 \<Rightarrow> nat \<Rightarrow> u8 list \<times> u8 \<Rightarrow> u8 list \<times> u8" where
  "key_step seed i = (\<lambda>(s, j).
     let j = j + (s ! i + seed_bytes seed ! (i mod 4))
     in (swap_byte i (unat j) s, j))"

definition random_init :: "u32 \<Rightarrow> rng \<Rightarrow> rng" where
  "random_init seed g =
     \<lparr>s_box = fst (fold (key_step seed) [0..<256] (map of_nat [0..<256], 0)), s_i = 0, s_j = 0, inited = True\<rparr>"

definition random_step :: "rng \<Rightarrow> u8 \<times> rng" where
  "random_step g =
     (let i = s_i g + 1;
          j = s_j g + s_box g ! unat i;
          s = swap_byte (unat i) (unat j) (s_box g);
          k = s ! unat i + s ! unat j
      in (s ! unat k, g\<lparr>s_box := s, s_i := i, s_j := j\<rparr>))"

fun random_loop :: "nat \<Rightarrow> rng \<Rightarrow> u8 list \<times> rng" where
  "random_loop 0 g = ([], g)"
| "random_loop (Suc n) g =
     (let (b, g) = random_step g; (bs, g) = random_loop n g in (b # bs, g))"

definition random_bytes :: "nat \<Rightarrow> rng \<Rightarrow> u8 list \<times> rng" where
  "random_bytes n g = random_loop n (if \<not> inited g then random_init 0 g else g)"

definition random_ulong :: "rng \<Rightarrow> u32 \<times> rng" where
  "random_ulong g =
     (let (bs, g) = random_bytes 4 g
      in (foldr (\<lambda>b w. push_bit 8 w OR ucast b) bs 0, g))"

section \<open>The state array is a permutation\<close>

definition rc4_wf :: "rng \<Rightarrow> bool" where
  "rc4_wf g \<longleftrightarrow> mset (s_box g) = mset (map of_nat [0..<256])"

lemma mset_swap_byte: "a < length s \<Longrightarrow> b < length s \<Longrightarrow> mset (swap_byte a b s) = mset s"
  by (simp add: swap_byte_def mset_swap)

lemma key_steps_mset:
  "\<forall>i \<in> set ks. i < 256 \<Longrightarrow> length (fst p) = 256 \<Longrightarrow> mset (fst (fold (key_step seed) ks p)) = mset (fst p)"
proof (induction ks arbitrary: p)
  case (Cons i ks)
  obtain s j where p: "p = (s, j)" by (cases p)
  have s: "mset (fst (key_step seed i (s, j))) = mset s"
    using Cons.prems p unat_lt_8 by (simp add: key_step_def Let_def mset_swap_byte)
  then have "length (fst (key_step seed i (s, j))) = 256" using Cons.prems p by (metis fst_conv size_mset)
  with Cons s p show ?case by simp
qed simp

lemma random_init_wf: "rc4_wf (random_init seed g)"
  using key_steps_mset [of "[0..<256]" "(map of_nat [0..<256], 0)" seed]
  by (simp add: rc4_wf_def random_init_def)

lemma rc4_length: "rc4_wf g \<Longrightarrow> length (s_box g) = 256"
  unfolding rc4_wf_def by (drule mset_eq_length) simp

lemma random_step_wf: "rc4_wf g \<Longrightarrow> rc4_wf (snd (random_step g))"
  using rc4_length [of g] unat_lt_8 by (simp add: random_step_def rc4_wf_def Let_def mset_swap_byte)

lemma random_loop_wf: "rc4_wf g \<Longrightarrow> rc4_wf (snd (random_loop n g))"
proof (induction n arbitrary: g)
  case (Suc n)
  obtain b g1 where g1: "random_step g = (b, g1)" by (cases "random_step g")
  obtain bs g2 where g2: "random_loop n g1 = (bs, g2)" by (cases "random_loop n g1")
  have "rc4_wf g1" using random_step_wf [OF Suc.prems] g1 by simp
  from Suc.IH [OF this] g1 g2 show ?case by simp
qed simp

lemma random_loop_append:
  "random_loop (n + k) g = (fst (random_loop n g) @ fst (random_loop k (snd (random_loop n g))),
     snd (random_loop k (snd (random_loop n g))))"
  by (induction n arbitrary: g) (simp_all add: split_beta Let_def)

lemma random_loop_inited: "inited (snd (random_loop n g)) = inited g"
  by (induction n arbitrary: g) (simp_all add: split_beta Let_def random_step_def)

lemma length_random_loop: "length (fst (random_loop n g)) = n"
  by (induction n arbitrary: g) (simp_all add: split_beta Let_def)

section \<open>Properties\<close>

definition rng_ok :: "rng \<Rightarrow> bool" where
  "rng_ok g \<longleftrightarrow> (inited g \<longrightarrow> rc4_wf g)"

text \<open>
  C28. The generator's state array is a permutation of the 256 byte values from its initialization on: initialization
  establishes this for every seed, drawing any number of bytes keeps it (initializing an uninitialized generator
  first), the requested number of bytes is returned, two draws in a row give the same bytes as one draw of the
  combined size, and after initialization the output depends on the seed alone.
\<close>

theorem random_state_permutation:
  assumes "rng_ok g"
  shows "distinct (s_box (random_init seed g)) \<and> length (s_box (random_init seed g)) = 256
    \<and> (let (bs, h) = random_bytes n g
       in length bs = n \<and> inited h \<and> distinct (s_box h) \<and> length (s_box h) = 256
          \<and> fst (random_bytes (n + k) g) = bs @ fst (random_bytes k h))
    \<and> random_bytes n (random_init seed g) = random_bytes n (random_init seed g')"
proof -
  have d: "distinct (s_box h) \<and> length (s_box h) = 256" if "rc4_wf h" for h
  proof -
    have "inj_on (of_nat :: nat \<Rightarrow> u8) {0..<256}"
    proof (rule inj_onI)
      fix x y :: nat
      assume xy: "x \<in> {0..<256}" "y \<in> {0..<256}" and e: "(of_nat x :: u8) = of_nat y"
      have "unat (of_nat z :: u8) = z" if "z \<in> {0..<256}" for z using that by (simp add: unat_of_nat)
      from this [OF xy(1)] this [OF xy(2)] e show "x = y" by metis
    qed
    then have "distinct (map (of_nat :: nat \<Rightarrow> u8) [0..<256])" by (simp add: distinct_map)
    then show ?thesis using that rc4_length [OF that] unfolding rc4_wf_def by (metis mset_eq_imp_distinct_iff)
  qed
  define g0 where "g0 = (if \<not> inited g then random_init 0 g else g)"
  have g0: "rc4_wf g0" "inited g0"
    using assms random_init_wf by (auto simp: g0_def rng_ok_def random_init_def)
  obtain bs h where h: "random_bytes n g = (bs, h)" by (cases "random_bytes n g")
  then have l: "random_loop n g0 = (bs, h)" by (simp add: random_bytes_def g0_def)
  have hw: "rc4_wf h" "inited h" "length bs = n"
    using random_loop_wf [OF g0(1), of n] random_loop_inited [of n g0] length_random_loop [of n g0] g0(2) l by simp_all
  have "fst (random_bytes (n + k) g) = bs @ fst (random_bytes k h)"
    using random_loop_append [of n k g0] l hw(2) by (simp add: random_bytes_def g0_def)
  then show ?thesis
    using d [OF random_init_wf] d [OF hw(1)] h hw by (simp add: random_bytes_def random_init_def)
qed

theorem random_state_permutation_witness:
  "length (fst (random_bytes 7 \<lparr>s_box = [], s_i = 0, s_j = 0, inited = False\<rparr>)) = 7"
  using random_state_permutation [of "\<lparr>s_box = [], s_i = 0, s_j = 0, inited = False\<rparr>" 0 7 0]
  by (simp add: rng_ok_def split_beta Let_def)

end
