(* ===== verification/Stdio.thy ===== *)
theory Stdio
  imports Stdlib
begin

text \<open>
  Formatted output, \<^verbatim>\<open>lib/stdio.c\<close>. A format and a string argument are the bytes of the object that the pointer
  points into, from the pointer on: a list that has to contain the null byte, and reading past its end is the value
  \<^term>\<open>None\<close>. So is an argument of the wrong size or an overflow of a signed \<^verbatim>\<open>int\<close>. The output function is a
  parameter of type \<open>u8 \<Rightarrow> 's \<Rightarrow> 's\<close>. The C standard leaves output to an object that overlaps the format or a string argument
  undefined; here they are separate.
\<close>

section \<open>Definitions\<close>

definition ascii :: "string \<Rightarrow> u8 list" where
  "ascii = map of_char"

subsection \<open>Arguments\<close>

text \<open>
  The values in a \<^verbatim>\<open>va_list\<close>: four bytes (\<^verbatim>\<open>int\<close>, \<^verbatim>\<open>long\<close>, \<^verbatim>\<open>size_t\<close>, \<^verbatim>\<open>ptrdiff_t\<close>, pointers that are printed as numbers), eight
  bytes (\<^verbatim>\<open>long long\<close>, \<^verbatim>\<open>intmax_t\<close>), or a string, which may be the null pointer.
\<close>

datatype arg = A32 u32 | A64 u64 | AStr "u8 list option"

fun va_arg32 :: "arg list \<Rightarrow> (u32 \<times> arg list) option" where
  "va_arg32 (A32 x # args) = Some (x, args)"
| "va_arg32 _ = None"

fun va_arg64 :: "arg list \<Rightarrow> (u64 \<times> arg list) option" where
  "va_arg64 (A64 x # args) = Some (x, args)"
| "va_arg64 _ = None"

fun va_arg_str :: "arg list \<Rightarrow> (u8 list option \<times> arg list) option" where
  "va_arg_str (AStr s # args) = Some (s, args)"
| "va_arg_str _ = None"

subsection \<open>Conversion specifications\<close>

datatype conv_type = CHAR' | SHORT | INT' | INTMAX | LONG | LONGLONG | PTRDIFFT | SIZET

record printf_conversion =
  MINUS :: bool
  PLUS :: bool
  SPACE :: bool
  POUND :: bool
  ZERO :: bool
  GROUP :: bool
  width :: int
  precision :: int
  conv_of :: conv_type

record integer_base =
  radix :: u64
  digits :: "u8 list"
  x_char :: u8
  group :: nat

definition base_d :: integer_base where
  "base_d = \<lparr>radix = 10, digits = ascii ''0123456789'', x_char = 0, group = 3\<rparr>"

definition base_o :: integer_base where
  "base_o = \<lparr>radix = 8, digits = ascii ''01234567'', x_char = 0, group = 3\<rparr>"

definition base_x :: integer_base where
  "base_x = \<lparr>radix = 16, digits = ascii ''0123456789abcdef'', x_char = 120, group = 4\<rparr>"

definition base_X :: integer_base where
  "base_X = \<lparr>radix = 16, digits = ascii ''0123456789ABCDEF'', x_char = 88, group = 4\<rparr>"

text \<open>A value of type \<^verbatim>\<open>int\<close>: overflow is undefined.\<close>

definition int32 :: "int \<Rightarrow> int option" where
  "int32 i = (if - (2 ^ 31) \<le> i \<and> i < 2 ^ 31 then Some i else None)"

fun parse_flags :: "u8 list \<Rightarrow> printf_conversion \<Rightarrow> (u8 list \<times> printf_conversion) option" where
  "parse_flags [] c = None"
| "parse_flags (ch # fmt) c =
     (if ch = 45 then parse_flags fmt (c\<lparr>MINUS := True\<rparr>)
      else if ch = 43 then parse_flags fmt (c\<lparr>PLUS := True\<rparr>)
      else if ch = 32 then parse_flags fmt (c\<lparr>SPACE := True\<rparr>)
      else if ch = 35 then parse_flags fmt (c\<lparr>POUND := True\<rparr>)
      else if ch = 48 then parse_flags fmt (c\<lparr>ZERO := True\<rparr>)
      else if ch = 39 then parse_flags fmt (c\<lparr>GROUP := True\<rparr>)
      else Some (ch # fmt, c))"

text \<open>The loop over the digits of a width or of a precision.\<close>

fun parse_digits :: "u8 list \<Rightarrow> int \<Rightarrow> (u8 list \<times> int) option" where
  "parse_digits [] n = None"
| "parse_digits (ch # fmt) n =
     (if isdigit ch then do { n \<leftarrow> int32 (n * 10); n \<leftarrow> int32 (n + uint ch); parse_digits fmt (n - 48) }
      else Some (ch # fmt, n))"

text \<open>A number that is either \<^verbatim>\<open>*\<close>, for the next argument, or written out.\<close>

definition parse_number :: "u8 list \<Rightarrow> arg list \<Rightarrow> (u8 list \<times> arg list \<times> int) option" where
  "parse_number fmt args =
     (if fmt \<noteq> [] \<and> hd fmt = 42
      then do { (w, args) \<leftarrow> va_arg32 args; Some (tl fmt, args, sint w) }
      else do { (fmt, n) \<leftarrow> parse_digits fmt 0; Some (fmt, args, n) })"

definition parse_type :: "u8 list \<Rightarrow> (u8 list \<times> conv_type) option" where
  "parse_type fmt =
     (case fmt of
        [] \<Rightarrow> None
      | ch # r \<Rightarrow>
          if ch = 104 then (case r of [] \<Rightarrow> None | d # r' \<Rightarrow> Some (if d = 104 then (r', CHAR') else (r, SHORT)))
          else if ch = 106 then Some (r, INTMAX)
          else if ch = 108 then (case r of [] \<Rightarrow> None | d # r' \<Rightarrow> Some (if d = 108 then (r', LONGLONG) else (r, LONG)))
          else if ch = 116 then Some (r, PTRDIFFT)
          else if ch = 122 then Some (r, SIZET)
          else Some (fmt, INT'))"

definition no_flags :: printf_conversion where
  "no_flags = \<lparr>MINUS = False, PLUS = False, SPACE = False, POUND = False, ZERO = False, GROUP = False,
     width = 0, precision = - 1, conv_of = INT'\<rparr>"

text \<open>The parts of \<^verbatim>\<open>parse_conversion\<close>: flags, field width, precision and type.\<close>

definition all_flags :: "u8 list \<Rightarrow> (u8 list \<times> printf_conversion) option" where
  "all_flags fmt = do {
     (fmt, c) \<leftarrow> parse_flags fmt no_flags;
     let c = (if MINUS c then c\<lparr>ZERO := False\<rparr> else c);
     Some (fmt, if PLUS c then c\<lparr>SPACE := False\<rparr> else c)
   }"

definition parse_width :: "u8 list \<Rightarrow> printf_conversion \<Rightarrow> arg list \<Rightarrow> (u8 list \<times> printf_conversion \<times> arg list) option" where
  "parse_width fmt c args = do {
     (fmt, args, w) \<leftarrow> parse_number fmt args;
     if w < 0 then do { w \<leftarrow> int32 (- w); Some (fmt, c\<lparr>width := w, MINUS := True\<rparr>, args) }
     else Some (fmt, c\<lparr>width := w\<rparr>, args)
   }"

definition parse_precision :: "u8 list \<Rightarrow> printf_conversion \<Rightarrow> arg list \<Rightarrow> (u8 list \<times> printf_conversion \<times> arg list) option" where
  "parse_precision fmt c args =
     (if fmt \<noteq> [] \<and> hd fmt = 46 then do {
        (fmt, args, p) \<leftarrow> parse_number (tl fmt) args;
        Some (fmt, if p < 0 then c\<lparr>precision := - 1\<rparr> else c\<lparr>precision := p, ZERO := False\<rparr>, args)
      } else Some (fmt, c\<lparr>precision := - 1\<rparr>, args))"

definition parse_conversion :: "u8 list \<Rightarrow> arg list \<Rightarrow> (u8 list \<times> printf_conversion \<times> arg list) option" where
  "parse_conversion fmt args = do {
     (fmt, c) \<leftarrow> all_flags fmt;
     (fmt, c, args) \<leftarrow> parse_width fmt c args;
     (fmt, c, args) \<leftarrow> parse_precision fmt c args;
     (fmt, t) \<leftarrow> parse_type fmt;
     Some (fmt, c\<lparr>conv_of := t\<rparr>, args)
   }"

subsection \<open>Formatting\<close>

definition output_dup :: "u8 \<Rightarrow> nat \<Rightarrow> (u8 \<Rightarrow> 's \<Rightarrow> 's) \<Rightarrow> 's \<Rightarrow> 's" where
  "output_dup ch cnt output aux = (output ch ^^ cnt) aux"

text \<open>A store to \<^verbatim>\<open>*cp++\<close>, where \<^verbatim>\<open>cp\<close> points into the 64 bytes of \<^verbatim>\<open>buf\<close> behind the bytes stored so far.\<close>

definition store_buf :: "u8 list \<Rightarrow> u8 \<Rightarrow> u8 list option" where
  "store_buf buf ch = (if length buf < 64 then Some (buf @ [ch]) else None)"

partial_function (option) digit_loop :: "integer_base \<Rightarrow> bool \<Rightarrow> u64 \<Rightarrow> nat \<Rightarrow> u8 list \<Rightarrow> u8 list option" where
  "digit_loop b grp v digit_cnt buf =
     (if v > 0 then do {
        buf \<leftarrow> (if grp \<and> digit_cnt > 0 \<and> digit_cnt mod group b = 0 then store_buf buf 44 else Some buf);
        buf \<leftarrow> store_buf buf (digits b ! unat (v mod radix b));
        digit_loop b grp (v div radix b) (digit_cnt + 1) buf
      } else Some buf)"

declare digit_loop.simps [code]

function zero_loop :: "int \<Rightarrow> u8 list \<Rightarrow> u8 list" where
  "zero_loop p buf = (if int (length buf) < p \<and> length buf < 63 then zero_loop p (buf @ [48]) else buf)"
  by auto
termination by (relation "measure (\<lambda>(p, buf). 63 - length buf)") auto

declare zero_loop.simps [simp del]

definition sign_char :: "bool \<Rightarrow> bool \<Rightarrow> printf_conversion \<Rightarrow> u8" where
  "sign_char is_signed negative c =
     (if is_signed then
        (if PLUS c then (if negative then 45 else 43)
         else if SPACE c then (if negative then 45 else 32)
         else if negative then 45 else 0)
      else 0)"

definition format_integer ::
  "u64 \<Rightarrow> bool \<Rightarrow> bool \<Rightarrow> integer_base \<Rightarrow> printf_conversion \<Rightarrow> (u8 \<Rightarrow> 's \<Rightarrow> 's) \<Rightarrow> 's \<Rightarrow> 's option" where
  "format_integer value is_signed negative b c output aux = do {
     let sign = sign_char is_signed negative c;
     let x = (if POUND c \<and> value \<noteq> 0 then x_char b else 0);
     buf \<leftarrow> digit_loop b (GROUP c) value 0 [];
     let buf = zero_loop (if precision c < 0 then 1 else precision c) buf;
     buf \<leftarrow> (if POUND c \<and> radix b = 8 \<and> (buf = [] \<or> last buf \<noteq> 48) then store_buf buf 48 else Some buf);
     let pad_cnt = nat (width c - int (length buf) - (if x \<noteq> 0 then 2 else 0) - (if sign \<noteq> 0 then 1 else 0));
     let aux = (if \<not> MINUS c \<and> \<not> ZERO c then output_dup 32 pad_cnt output aux else aux);
     let aux = (if sign \<noteq> 0 then output sign aux else aux);
     let aux = (if x \<noteq> 0 then output x (output 48 aux) else aux);
     let aux = (if ZERO c then output_dup 48 pad_cnt output aux else aux);
     let aux = fold output (rev buf) aux;
     Some (if MINUS c then output_dup 32 pad_cnt output aux else aux)
   }"

definition format_string :: "u8 list \<Rightarrow> nat \<Rightarrow> printf_conversion \<Rightarrow> (u8 \<Rightarrow> 's \<Rightarrow> 's) \<Rightarrow> 's \<Rightarrow> 's option" where
  "format_string string len c output aux = do {
     ASSERT (len \<le> length string);
     let aux = (if width c > int len \<and> \<not> MINUS c then output_dup 32 (nat (width c - int len)) output aux else aux);
     let aux = fold output (take len string) aux;
     Some (if width c > int len \<and> MINUS c then output_dup 32 (nat (width c - int len)) output aux else aux)
   }"

text \<open>\<^verbatim>\<open>strnlen\<close> of a string object.\<close>

fun strnlen_obj :: "u8 list \<Rightarrow> int \<Rightarrow> nat option" where
  "strnlen_obj [] n = (if n \<le> 0 then Some 0 else None)"
| "strnlen_obj (ch # s) n =
     (if n \<le> 0 \<or> ch = 0 then Some 0 else map_option Suc (strnlen_obj s (n - 1)))"

text \<open>The value that a signed or an unsigned conversion takes from the arguments.\<close>

definition signed_arg :: "conv_type \<Rightarrow> arg list \<Rightarrow> (u64 \<times> arg list) option" where
  "signed_arg t args =
     (case t of
        CHAR' \<Rightarrow> map_option (apfst (\<lambda>x. scast (ucast x :: u8))) (va_arg32 args)
      | SHORT \<Rightarrow> map_option (apfst (\<lambda>x. scast (ucast x :: u16))) (va_arg32 args)
      | INT' \<Rightarrow> map_option (apfst scast) (va_arg32 args)
      | INTMAX \<Rightarrow> va_arg64 args
      | LONG \<Rightarrow> map_option (apfst scast) (va_arg32 args)
      | LONGLONG \<Rightarrow> va_arg64 args
      | PTRDIFFT \<Rightarrow> map_option (apfst scast) (va_arg32 args)
      | SIZET \<Rightarrow> map_option (apfst (\<lambda>x. let value = ucast x
                  in if value > 0x7fffffff then value - 0xffffffff - 1 else value)) (va_arg32 args))"

definition unsigned_arg :: "conv_type \<Rightarrow> arg list \<Rightarrow> (u64 \<times> arg list) option" where
  "unsigned_arg t args =
     (case t of
        CHAR' \<Rightarrow> map_option (apfst (\<lambda>x. ucast (ucast x :: u8))) (va_arg32 args)
      | SHORT \<Rightarrow> map_option (apfst (\<lambda>x. ucast (ucast x :: u16))) (va_arg32 args)
      | INT' \<Rightarrow> map_option (apfst ucast) (va_arg32 args)
      | INTMAX \<Rightarrow> va_arg64 args
      | LONG \<Rightarrow> map_option (apfst ucast) (va_arg32 args)
      | LONGLONG \<Rightarrow> va_arg64 args
      | PTRDIFFT \<Rightarrow> map_option (apfst (\<lambda>x. scast x AND (push_bit 1 0x7fffffff OR 1))) (va_arg32 args)
      | SIZET \<Rightarrow> map_option (apfst ucast) (va_arg32 args))"

text \<open>
  One conversion, after \<^verbatim>\<open>parse_conversion\<close>. Conversions that are not supported print a message through \<^verbatim>\<open>__printf\<close>, whose
  format ends with the character of the conversion and a constant; that call is written out.
\<close>

definition unsupported :: "string \<Rightarrow> u8 \<Rightarrow> u8 list" where
  "unsupported tail ch = ascii ''<<no %'' @ [ch] @ ascii tail @ ascii ''>>''"

definition convert :: "u8 \<Rightarrow> printf_conversion \<Rightarrow> arg list \<Rightarrow> (u8 \<Rightarrow> 's \<Rightarrow> 's) \<Rightarrow> 's \<Rightarrow> (arg list \<times> 's) option" where
  "convert ch c args output aux =
     (if ch = 100 \<or> ch = 105 then do {
        (value, args) \<leftarrow> signed_arg (conv_of c) args;
        aux \<leftarrow> format_integer (if sint value < 0 then - value else value) True (sint value < 0) base_d c output aux;
        Some (args, aux)
      } else if ch = 111 \<or> ch = 117 \<or> ch = 120 \<or> ch = 88 then do {
        (value, args) \<leftarrow> unsigned_arg (conv_of c) args;
        let b = (if ch = 111 then base_o else if ch = 117 then base_d else if ch = 120 then base_x else base_X);
        aux \<leftarrow> format_integer value False False b c output aux;
        Some (args, aux)
      } else if ch = 99 then do {
        (x, args) \<leftarrow> va_arg32 args;
        aux \<leftarrow> format_string [ucast x] 1 c output aux;
        Some (args, aux)
      } else if ch = 115 then do {
        (s, args) \<leftarrow> va_arg_str args;
        let s = (case s of None \<Rightarrow> ascii ''(null)'' @ [0] | Some s \<Rightarrow> s);
        len \<leftarrow> strnlen_obj s (if precision c = - 1 then 0xffffffff else precision c);
        aux \<leftarrow> format_string s len c output aux;
        Some (args, aux)
      } else if ch = 112 then do {
        (p, args) \<leftarrow> va_arg32 args;
        let c = c\<lparr>MINUS := False, PLUS := False, SPACE := False, POUND := True, ZERO := False, GROUP := False\<rparr>;
        aux \<leftarrow> format_integer (ucast p) False False base_x c output aux;
        Some (args, aux)
      } else if ch = 102 \<or> ch = 101 \<or> ch = 69 \<or> ch = 103 \<or> ch = 71 \<or> ch = 110
      then Some (args, fold output (unsupported '' in kernel'' ch) aux)
      else Some (args, fold output (unsupported '' conversion'' ch) aux))"

lemma parse_flags_length: "parse_flags fmt c = Some (fmt', c') \<Longrightarrow> length fmt' \<le> length fmt"
proof (induction fmt arbitrary: c)
  case (Cons ch fmt)
  then show ?case by (auto split: if_splits intro: le_SucI)
qed simp

lemma parse_digits_length: "parse_digits fmt n = Some (fmt', n') \<Longrightarrow> length fmt' \<le> length fmt"
proof (induction fmt arbitrary: n)
  case (Cons ch fmt)
  then show ?case by (auto simp: Option.bind_eq_Some_conv split: if_splits intro: le_SucI)
qed simp

lemma parse_number_length: "parse_number fmt args = Some (fmt', args', n) \<Longrightarrow> length fmt' \<le> length fmt"
  by (auto simp: parse_number_def Option.bind_eq_Some_conv split: if_splits dest: parse_digits_length)

lemma parse_type_length: "parse_type fmt = Some (fmt', t) \<Longrightarrow> length fmt' \<le> length fmt"
  by (auto simp: parse_type_def split: list.splits if_splits)

lemma parse_parts_length:
  "all_flags fmt = Some (fmt', c') \<Longrightarrow> length fmt' \<le> length fmt"
  "parse_width fmt c args = Some (fmt', c', args') \<Longrightarrow> length fmt' \<le> length fmt"
  "parse_precision fmt c args = Some (fmt', c', args') \<Longrightarrow> length fmt' \<le> length fmt"
proof -
  show "all_flags fmt = Some (fmt', c') \<Longrightarrow> length fmt' \<le> length fmt"
    by (auto simp: all_flags_def Let_def Option.bind_eq_Some_conv dest: parse_flags_length)
  show "parse_width fmt c args = Some (fmt', c', args') \<Longrightarrow> length fmt' \<le> length fmt"
    by (auto simp: parse_width_def Option.bind_eq_Some_conv split: if_splits dest: parse_number_length)
  show "parse_precision fmt c args = Some (fmt', c', args') \<Longrightarrow> length fmt' \<le> length fmt"
    by (auto simp: parse_precision_def Option.bind_eq_Some_conv split: if_splits dest!: parse_number_length)
qed

lemma parse_conversion_length: "parse_conversion fmt args = Some (fmt', c, args') \<Longrightarrow> length fmt' \<le> length fmt"
  by (auto simp: parse_conversion_def Option.bind_eq_Some_conv dest!: parse_parts_length parse_type_length)

text \<open>
  A conversion at the end of the format, as in \<open>"%"\<close>, ends with the null byte: it is reported as not supported, and the loop goes on
  behind the null byte.
\<close>

function vprintf_loop :: "u8 list \<Rightarrow> arg list \<Rightarrow> (u8 \<Rightarrow> 's \<Rightarrow> 's) \<Rightarrow> 's \<Rightarrow> 's option" where
  "vprintf_loop fmt args output aux =
     (case fmt of
        [] \<Rightarrow> None
      | ch # fmt \<Rightarrow>
          if ch = 0 then Some aux
          else if ch \<noteq> 37 then vprintf_loop fmt args output (output ch aux)
          else (case fmt of
                  [] \<Rightarrow> None
                | d # rest \<Rightarrow>
                    if d = 37 then vprintf_loop rest args output (output 37 aux)
                    else (case parse_conversion fmt args of
                            None \<Rightarrow> None
                          | Some (fmt', c, args) \<Rightarrow>
                              (case fmt' of
                                 [] \<Rightarrow> None
                               | k # fmt'' \<Rightarrow>
                                   (case convert k c args output aux of
                                      None \<Rightarrow> None
                                    | Some (args, aux) \<Rightarrow> vprintf_loop fmt'' args output aux)))))"
  by auto
termination
  by (relation "measure (\<lambda>(fmt, _). length fmt)") (auto dest: parse_conversion_length)

declare vprintf_loop.simps [simp del]

definition vprintf_to :: "u8 list \<Rightarrow> arg list \<Rightarrow> (u8 \<Rightarrow> 's \<Rightarrow> 's) \<Rightarrow> 's \<Rightarrow> 's option" where
  "vprintf_to format args output aux = vprintf_loop format args output aux"

subsection \<open>Output to memory\<close>

record vsnprintf_aux =
  out_p :: nat
  out_length :: int
  max_length :: int
  out_mem :: mem

definition vsnprintf_helper :: "u8 \<Rightarrow> vsnprintf_aux \<Rightarrow> vsnprintf_aux" where
  "vsnprintf_helper ch aux =
     (if out_length aux < max_length aux
      then aux\<lparr>out_length := out_length aux + 1, out_mem := (out_mem aux)(out_p aux := ch), out_p := out_p aux + 1\<rparr>
      else aux\<lparr>out_length := out_length aux + 1\<rparr>)"

text \<open>The size becomes an \<^verbatim>\<open>int\<close>: a buffer of more than \<open>2^31\<close> bytes has a negative length.\<close>

definition vsnprintf :: "nat \<Rightarrow> u32 \<Rightarrow> u8 list \<Rightarrow> arg list \<Rightarrow> mem \<Rightarrow> (int \<times> mem) option" where
  "vsnprintf buffer buf_size format args m = do {
     let aux = \<lparr>out_p = buffer, out_length = 0, max_length = (if buf_size > 0 then sint (buf_size - 1) else 0), out_mem = m\<rparr>;
     aux \<leftarrow> vprintf_to format args vsnprintf_helper aux;
     let m = (if buf_size > 0 then (out_mem aux)(out_p aux := 0) else out_mem aux);
     Some (out_length aux, m)
   }"

definition snprintf :: "nat \<Rightarrow> u32 \<Rightarrow> u8 list \<Rightarrow> arg list \<Rightarrow> mem \<Rightarrow> (int \<times> mem) option" where
  "snprintf buffer buf_size format args m = vsnprintf buffer buf_size format args m"

subsection \<open>Output to the console\<close>

text \<open>\<^verbatim>\<open>printf\<close> and \<^verbatim>\<open>__printf\<close> with a constant format.\<close>

definition printf_to :: "string \<Rightarrow> arg list \<Rightarrow> (u8 \<Rightarrow> 's \<Rightarrow> 's) \<Rightarrow> 's \<Rightarrow> 's option" where
  "printf_to format args output aux = vprintf_to (ascii format @ [0]) args output aux"

definition isprint :: "u8 \<Rightarrow> bool" where
  "isprint c \<longleftrightarrow> 32 \<le> c \<and> c < 127"

text \<open>One line of a dump: \<^term>\<open>line\<close> is the bytes on it.\<close>

definition dump_line :: "u32 \<Rightarrow> u8 list \<Rightarrow> bool \<Rightarrow> (u8 \<Rightarrow> 's \<Rightarrow> 's) \<Rightarrow> 's \<Rightarrow> 's option" where
  "dump_line ofs line show_ascii output aux = do {
     let from = unat ofs mod 16;
     let to = from + length line;
     aux \<leftarrow> printf_to ''%08jx  '' [A64 (ucast (ofs - ofs mod 16))] output aux;
     aux \<leftarrow> foldM (\<lambda>i. printf_to ''   '' [] output) [0..<from] aux;
     aux \<leftarrow> foldM (\<lambda>i. printf_to ''%02hhx%c'' [A32 (ucast (line ! (i - from))), A32 (if i = 7 then 45 else 32)] output) [from..<to] aux;
     aux \<leftarrow> (if show_ascii then do {
        aux \<leftarrow> foldM (\<lambda>i. printf_to ''   '' [] output) [to..<16] aux;
        aux \<leftarrow> printf_to ''|'' [] output aux;
        aux \<leftarrow> foldM (\<lambda>i. printf_to '' '' [] output) [0..<from] aux;
        aux \<leftarrow> foldM (\<lambda>i. printf_to ''%c'' [A32 (if isprint (line ! (i - from)) then ucast (line ! (i - from)) else 46)] output) [from..<to] aux;
        aux \<leftarrow> foldM (\<lambda>i. printf_to '' '' [] output) [to..<16] aux;
        printf_to ''|'' [] output aux
      } else Some aux);
     printf_to ''\<newline>'' [] output aux
   }"

function hex_dump :: "u32 \<Rightarrow> u8 list \<Rightarrow> bool \<Rightarrow> (u8 \<Rightarrow> 's \<Rightarrow> 's) \<Rightarrow> 's \<Rightarrow> 's option" where
  "hex_dump ofs buf show_ascii output aux =
     (if buf \<noteq> [] then do {
        let n = min (16 - unat ofs mod 16) (length buf);
        aux \<leftarrow> dump_line ofs (take n buf) show_ascii output aux;
        hex_dump (ofs + of_nat n) (drop n buf) show_ascii output aux
      } else Some aux)"
  by auto
termination
  by (relation "measure (\<lambda>(ofs, buf, _). length buf)") (auto simp: Let_def intro!: diff_less)

declare hex_dump.simps [simp del]

fun size_factor :: "u64 \<Rightarrow> string list \<Rightarrow> u64 \<times> string" where
  "size_factor sz (f # g # fs) = (if sz \<ge> 1024 then size_factor (sz div 1024) (g # fs) else (sz, f))"
| "size_factor sz [f] = (sz, f)"
| "size_factor sz [] = (sz, [])"

definition print_human_readable_size :: "u64 \<Rightarrow> (u8 \<Rightarrow> 's \<Rightarrow> 's) \<Rightarrow> 's \<Rightarrow> 's option" where
  "print_human_readable_size sz output aux =
     (if sz = 1 then printf_to ''1 byte'' [] output aux
      else (let (sz, f) = size_factor sz [''bytes'', ''kB'', ''MB'', ''GB'', ''TB'']
            in printf_to ''%llu %s'' [A64 sz, AStr (Some (ascii f @ [0]))] output aux))"

end
