(* ===== verification/Stdio_Text.thy ===== *)
theory Stdio_Text
  imports Stdio
begin

text \<open>
  What formatted output prints: a specification of the text of a conversion and of a whole format that does not refer to the
  buffer of \<^verbatim>\<open>format_integer\<close> or to an output function, the proof that \<^verbatim>\<open>lib/stdio.c\<close> outputs exactly that text, and
  what follows for \<^verbatim>\<open>snprintf\<close>.
\<close>

section \<open>The text of an integer\<close>

text \<open>The digits of a number, the least significant one first.\<close>

function place_digits :: "nat \<Rightarrow> nat \<Rightarrow> nat list" where
  "place_digits r n = (if n = 0 \<or> r < 2 then [] else n mod r # place_digits r (n div r))"
  by auto
termination by (relation "measure snd") auto

declare place_digits.simps [simp del]

text \<open>A comma before every digit whose place is a positive multiple of \<^term>\<open>g\<close>; \<^term>\<open>k\<close> is the place of the first digit.\<close>

fun with_commas :: "nat \<Rightarrow> nat \<Rightarrow> u8 list \<Rightarrow> u8 list" where
  "with_commas g k [] = []"
| "with_commas g k (d # ds) = (if k > 0 \<and> k mod g = 0 then [44, d] else [d]) @ with_commas g (k + 1) ds"

definition digit_text :: "integer_base \<Rightarrow> bool \<Rightarrow> u64 \<Rightarrow> u8 list" where
  "digit_text b grp v =
     (let ds = map ((!) (digits b)) (place_digits (unat (radix b)) (unat v)) in if grp then with_commas (group b) 0 ds else ds)"

definition int_digits :: "u64 \<Rightarrow> integer_base \<Rightarrow> printf_conversion \<Rightarrow> u8 list" where
  "int_digits v b c =
     (let ds = digit_text b (GROUP c) v;
          p = (if precision c < 0 then 1 else precision c);
          ds = ds @ replicate (min (nat p) 63 - length ds) 48
      in if POUND c \<and> radix b = 8 \<and> (ds = [] \<or> last ds \<noteq> 48) then ds @ [48] else ds)"

text \<open>The text is padded to the field width on the left with blanks, after sign and prefix with zeros, or on the right with blanks.\<close>

definition int_text :: "u64 \<Rightarrow> bool \<Rightarrow> bool \<Rightarrow> integer_base \<Rightarrow> printf_conversion \<Rightarrow> u8 list" where
  "int_text v is_signed negative b c =
     (let sign = (if sign_char is_signed negative c = 0 then [] else [sign_char is_signed negative c]);
          prefix = (if POUND c \<and> v \<noteq> 0 \<and> x_char b \<noteq> 0 then [48, x_char b] else []);
          body = rev (int_digits v b c);
          pad = nat (width c - int (length (sign @ prefix @ body)))
      in (if MINUS c \<or> ZERO c then [] else replicate pad 32) @ sign @ prefix @ (if ZERO c then replicate pad 48 else []) @ body
         @ (if MINUS c then replicate pad 32 else []))"

abbreviation bases :: "integer_base set" where
  "bases \<equiv> {base_d, base_o, base_x, base_X}"

lemma radix_bases: "b \<in> bases \<Longrightarrow> 8 \<le> unat (radix b) \<and> unat (radix b) \<le> 16 \<and> radix b \<noteq> 0"
  by (auto simp: base_d_def base_o_def base_x_def base_X_def)

lemma place_digits_length:
  assumes "2 \<le> r" and "n < r ^ k"
  shows "length (place_digits r n) \<le> k"
  using assms
proof (induction k arbitrary: n)
  case (Suc k)
  then have "n div r < r ^ k" by (simp add: less_mult_imp_div_less mult.commute)
  then show ?case using Suc.IH Suc.prems(1) by (simp add: place_digits.simps [of r n])
qed (simp add: place_digits.simps)

lemma place_digits_22: "b \<in> bases \<Longrightarrow> length (place_digits (unat (radix b)) (unat (v :: u64))) \<le> 22"
proof (rule place_digits_length)
  assume "b \<in> bases"
  note r = radix_bases [OF this]
  then show "2 \<le> unat (radix b)" by simp
  have "unat v < 8 ^ 22" using unat_lt_64 [of v] by simp
  also have "(8 :: nat) ^ 22 \<le> unat (radix b) ^ 22" using r by (intro power_mono) simp_all
  finally show "unat v < unat (radix b) ^ 22" .
qed

lemma with_commas_length: "length (with_commas g k ds) \<le> 2 * length ds"
  by (induction g k ds rule: with_commas.induct) auto

text \<open>The loop over the digits fills the buffer with the text, as long as the text fits.\<close>

lemma digit_loop_text:
  assumes r: "2 \<le> unat (radix b)"
    and "length buf + 2 * length (place_digits (unat (radix b)) (unat v)) \<le> 64"
  shows "digit_loop b grp v k buf =
    Some (buf @ (let ds = map ((!) (digits b)) (place_digits (unat (radix b)) (unat v)) in if grp then with_commas (group b) k ds else ds))"
  using assms(2)
proof (induction "unat v" arbitrary: v k buf rule: less_induct)
  case less
  show ?case
  proof (cases "v = 0")
    case True
    then show ?thesis by (simp add: digit_loop.simps place_digits.simps)
  next
    case False
    then have v: "0 < unat v" "v > 0" by (simp_all add: unat_gt_0 word_gt_0)
    have d: "unat (v div radix b) = unat v div unat (radix b)" "unat (v mod radix b) = unat v mod unat (radix b)"
      by (simp_all add: unat_div_distrib unat_mod_distrib)
    have lt: "unat (v div radix b) < unat v" using v r d by simp
    define ds where "ds = place_digits (unat (radix b)) (unat v div unat (radix b))"
    have pd: "place_digits (unat (radix b)) (unat v) = unat v mod unat (radix b) # ds"
      using v r by (simp add: place_digits.simps [of _ "unat v"] ds_def)
    let ?d = "digits b ! (unat v mod unat (radix b))"
    define buf' where "buf' = buf @ (if grp \<and> k > 0 \<and> k mod group b = 0 then [44, ?d] else [?d])"
    have len: "length buf' + 2 * length ds \<le> 64" using less.prems by (simp add: pd buf'_def)
    have "digit_loop b grp v k buf = digit_loop b grp (v div radix b) (k + 1) buf'"
      using less.prems v(2) by (subst digit_loop.simps) (auto simp: pd buf'_def store_buf_def d)
    also have "\<dots> = Some (buf' @ (let ds = map ((!) (digits b)) ds in if grp then with_commas (group b) (k + 1) ds else ds))"
      using less.hyps [OF lt, of buf' "k + 1"] len by (simp add: d ds_def)
    finally show ?thesis by (simp add: pd buf'_def Let_def)
  qed
qed

lemma zero_loop_replicate: "zero_loop p buf = buf @ replicate (min (nat p) 63 - length buf) 48"
proof (induction p buf rule: zero_loop.induct)
  case (1 p buf)
  show ?case
  proof (cases "int (length buf) < p \<and> length buf < 63")
    case True
    then have "min (nat p) 63 - length buf = Suc (min (nat p) 63 - length (buf @ [48]))" by auto
    then show ?thesis using True 1 by (subst zero_loop.simps) (simp add: replicate_app_Cons_same)
  next
    case False
    then have "min (nat p) 63 - length buf = 0" by auto
    then show ?thesis using False by (subst zero_loop.simps) auto
  qed
qed

lemma output_dup_fold: "output_dup ch n output aux = fold output (replicate n ch) aux"
  by (induction n arbitrary: aux) (simp_all add: output_dup_def funpow_swap1)

lemma digit_text_length: "b \<in> bases \<Longrightarrow> length (digit_text b grp v) \<le> 44"
  using place_digits_22 [of b v] with_commas_length [of "group b" 0 "map ((!) (digits b)) (place_digits (unat (radix b)) (unat v))"]
  by (auto simp: digit_text_def Let_def)

text \<open>The 64 bytes of the buffer are enough for every value, base, grouping and precision.\<close>

lemma format_integer_text:
  assumes b: "b \<in> bases"
  shows "format_integer v is_signed negative b c output aux = Some (fold output (int_text v is_signed negative b c) aux)"
proof -
  have dl: "digit_loop b (GROUP c) v 0 [] = Some (digit_text b (GROUP c) v)"
    using digit_loop_text [of b "[]" v "GROUP c" 0] radix_bases [OF b] place_digits_22 [OF b, of v] by (simp add: digit_text_def Let_def)
  define p where "p = (if precision c < 0 then 1 else precision c)"
  define buf where "buf = digit_text b (GROUP c) v @ replicate (min (nat p) 63 - length (digit_text b (GROUP c) v)) 48"
  have zl: "zero_loop p (digit_text b (GROUP c) v) = buf" by (simp add: zero_loop_replicate buf_def)
  have len: "length buf < 64" using digit_text_length [OF b, of "GROUP c" v] by (simp add: buf_def)
  have id: "int_digits v b c = (if POUND c \<and> radix b = 8 \<and> (buf = [] \<or> last buf \<noteq> 48) then buf @ [48] else buf)"
    unfolding int_digits_def Let_def p_def [symmetric] buf_def [symmetric] ..
  have ob: "(if POUND c \<and> radix b = 8 \<and> (buf = [] \<or> last buf \<noteq> 48) then store_buf buf 48 else Some buf) = Some (int_digits v b c)"
    using len by (simp add: id store_buf_def)
  define sg where "sg = sign_char is_signed negative c"
  define x where "x = (if POUND c \<and> v \<noteq> 0 then x_char b else 0)"
  have pre: "(if POUND c \<and> v \<noteq> 0 \<and> x_char b \<noteq> 0 then [48, x_char b] else []) = (if x \<noteq> 0 then [48, x] else [])" by (simp add: x_def)
  show ?thesis
    unfolding format_integer_def Let_def dl option.simps sg_def [symmetric] x_def [symmetric] p_def [symmetric] int_text_def pre bind.bind_lunit zl ob
    by (simp add: output_dup_fold algebra_simps)
qed

section \<open>The text of a format\<close>

definition string_text :: "u8 list \<Rightarrow> printf_conversion \<Rightarrow> u8 list" where
  "string_text s c =
     (let pad = replicate (nat (width c - int (length s))) 32 in if MINUS c then s @ pad else pad @ s)"

lemma format_string_text:
  assumes "len \<le> length s"
  shows "format_string s len c output aux = Some (fold output (string_text (take len s) c) aux)"
  using assms by (auto simp: format_string_def string_text_def output_dup_fold Let_def min_def)

text \<open>The text of one conversion, and the arguments that are left.\<close>

definition conv_text :: "u8 \<Rightarrow> printf_conversion \<Rightarrow> arg list \<Rightarrow> (arg list \<times> u8 list) option" where
  "conv_text ch c args =
     (if ch = 100 \<or> ch = 105 then do {
        (v, args) \<leftarrow> signed_arg (conv_of c) args;
        Some (args, int_text (if sint v < 0 then - v else v) True (sint v < 0) base_d c)
      } else if ch = 111 \<or> ch = 117 \<or> ch = 120 \<or> ch = 88 then do {
        (v, args) \<leftarrow> unsigned_arg (conv_of c) args;
        Some (args, int_text v False False
          (if ch = 111 then base_o else if ch = 117 then base_d else if ch = 120 then base_x else base_X) c)
      } else if ch = 99 then do {
        (x, args) \<leftarrow> va_arg32 args;
        Some (args, string_text [ucast x] c)
      } else if ch = 115 then do {
        (s, args) \<leftarrow> va_arg_str args;
        let s = (case s of None \<Rightarrow> ascii ''(null)'' @ [0] | Some s \<Rightarrow> s);
        len \<leftarrow> strnlen_obj s (if precision c = - 1 then 0xffffffff else precision c);
        Some (args, string_text (take len s) c)
      } else if ch = 112 then do {
        (p, args) \<leftarrow> va_arg32 args;
        Some (args, int_text (ucast p) False False base_x
          (c\<lparr>MINUS := False, PLUS := False, SPACE := False, POUND := True, ZERO := False, GROUP := False\<rparr>))
      } else if ch \<in> {102, 101, 69, 103, 71, 110} then Some (args, unsupported '' in kernel'' ch)
      else Some (args, unsupported '' conversion'' ch))"

lemma strnlen_obj_length: "strnlen_obj s n = Some k \<Longrightarrow> k \<le> length s"
  by (induction s n arbitrary: k rule: strnlen_obj.induct) (auto split: if_splits)

lemma convert_text: "convert ch c args output aux = map_option (\<lambda>(args, t). (args, fold output t aux)) (conv_text ch c args)"
proof (cases "ch = 115")
  case True
  show ?thesis
  proof (cases "va_arg_str args")
    case (Some r)
    obtain s0 args' where r: "r = (s0, args')" by (cases r)
    define s where "s = (case s0 of None \<Rightarrow> ascii ''(null)'' @ [0] | Some s \<Rightarrow> s)"
    define n where "n = (if precision c = - 1 then 0xffffffff else precision c)"
    show ?thesis
      using True Some r strnlen_obj_length [of s n]
      by (cases "strnlen_obj s n")
         (simp_all add: convert_def conv_text_def format_string_text s_def [symmetric] n_def [symmetric])
  qed (use True in \<open>simp add: convert_def conv_text_def\<close>)
next
  case False
  then show ?thesis
    by (auto simp: convert_def conv_text_def format_integer_text format_string_text Let_def split: prod.splits bind_split)
qed

function printf_text :: "u8 list \<Rightarrow> arg list \<Rightarrow> u8 list option" where
  "printf_text fmt args =
     (case fmt of
        [] \<Rightarrow> None
      | ch # fmt \<Rightarrow>
          if ch = 0 then Some []
          else if ch \<noteq> 37 then map_option ((#) ch) (printf_text fmt args)
          else (case fmt of
                  [] \<Rightarrow> None
                | d # rest \<Rightarrow>
                    if d = 37 then map_option ((#) 37) (printf_text rest args)
                    else (case parse_conversion fmt args of
                            None \<Rightarrow> None
                          | Some (fmt', c, args) \<Rightarrow>
                              (case fmt' of
                                 [] \<Rightarrow> None
                               | k # fmt'' \<Rightarrow>
                                   (case conv_text k c args of
                                      None \<Rightarrow> None
                                    | Some (args, t) \<Rightarrow> map_option ((@) t) (printf_text fmt'' args))))))"
  by auto
termination
  by (relation "measure (\<lambda>(fmt, _). length fmt)") (auto dest: parse_conversion_length)

declare printf_text.simps [simp del]

lemma vprintf_loop_text: "vprintf_loop fmt args output aux = map_option (\<lambda>t. fold output t aux) (printf_text fmt args)"
proof (induction fmt args "output" aux rule: vprintf_loop.induct)
  case (1 fmt args "output" aux)
  note IH = "1"
  show ?case
  proof (cases fmt)
    case Nil
    then show ?thesis by (simp add: vprintf_loop.simps printf_text.simps)
  next
    case (Cons ch f)
    note eqs = vprintf_loop.simps [of "ch # f"] printf_text.simps [of "ch # f"]
    consider "ch = 0" | "ch \<noteq> 0" "ch \<noteq> 37" | "ch = 37" by blast
    then show ?thesis
    proof cases
      case 1
      then show ?thesis unfolding Cons eqs by simp
    next
      case 2
      then show ?thesis using IH(1) [OF Cons] unfolding Cons eqs by (simp add: option.map_comp comp_def)
    next
      case 3
      show ?thesis
      proof (cases f)
        case Nil
        then show ?thesis using 3 unfolding Cons eqs by simp
      next
        case f: (Cons d rest)
        show ?thesis
        proof (cases "d = 37")
          case True
          then show ?thesis using IH(2) [OF Cons _ _ f] 3 f unfolding Cons eqs by (simp add: option.map_comp comp_def)
        next
          case False
          have "vprintf_loop fmt'' args'' output aux'' = map_option (\<lambda>t. fold output t aux'') (printf_text fmt'' args'')"
            if "parse_conversion f args = Some (k # fmt'', c, args')" "convert k c args' output aux = Some (args'', aux'')"
            for k fmt'' c args' args'' aux''
            using IH(3) [OF Cons _ _ f False that(1) refl refl refl that(2)] 3 by simp
          then show ?thesis
            using 3 f False unfolding Cons eqs
            by (auto simp: convert_text option.map_comp comp_def split: option.splits list.splits prod.splits)
        qed
      qed
    qed
  qed
qed

text \<open>The messages for conversions that are not supported are those of the calls to \<^verbatim>\<open>__printf\<close> in the code.\<close>

lemma parse_c: "parse_conversion (99 # fmt) args = Some (99 # fmt, no_flags, args)"
  by (simp add: parse_conversion_def all_flags_def parse_width_def parse_precision_def parse_number_def parse_type_def no_flags_def isdigit_def)

lemma ucast_back: "(ucast (ucast (ch :: u8) :: u32) :: u8) = ch"
  by (rule bit_word_eqI) (simp add: bit_simps)

lemma unsupported_printf:
  "printf_to ''<<no %%%c in kernel>>'' [A32 (ucast ch)] output aux = Some (fold output (unsupported '' in kernel'' ch) aux)"
  "printf_to ''<<no %%%c conversion>>'' [A32 (ucast ch)] output aux = Some (fold output (unsupported '' conversion'' ch) aux)"
  by (simp_all add: printf_to_def vprintf_to_def vprintf_loop_text ascii_def printf_text.simps parse_c conv_text_def string_text_def
      no_flags_def unsupported_def ucast_back)

section \<open>Properties\<close>


text \<open>What \<^verbatim>\<open>vsnprintf_helper\<close> has stored after a text.\<close>

lemma helper_fold:
  "fold vsnprintf_helper t \<lparr>out_p = p, out_length = 0, max_length = mx, out_mem = m\<rparr> =
     \<lparr>out_p = p + min (length t) (nat mx), out_length = int (length t), max_length = mx,
      out_mem = (\<lambda>a. if p \<le> a \<and> a < p + min (length t) (nat mx) then t ! (a - p) else m a)\<rparr>"
proof (induction t rule: rev_induct)
  case (snoc ch t)
  show ?case
  proof (cases "int (length t) < mx")
    case True
    then have k: "min (length t) (nat mx) = length t" "min (length (t @ [ch])) (nat mx) = Suc (length t)" by auto
    show ?thesis using snoc True unfolding k by (auto simp: vsnprintf_helper_def fun_eq_iff nth_append)
  next
    case False
    then have k: "min (length t) (nat mx) = nat mx" "min (length (t @ [ch])) (nat mx) = nat mx" by auto
    show ?thesis using snoc False unfolding k by (auto simp: vsnprintf_helper_def fun_eq_iff nth_append)
  qed
qed (auto simp: fun_eq_iff)

lemma sint_small:
  assumes "unat (x :: u32) < 2 ^ 31"
  shows "sint x = int (unat x)"
proof -
  have "unat x < 2147483648" using assms by simp
  then have "sint (word_of_int (int (unat x)) :: u32) = int (unat x)" by (intro fits_32) linarith+
  then show ?thesis by simp
qed

lemma vsnprintf_text:
  assumes t: "printf_text fmt args = Some t" and n: "unat n \<le> 2 ^ 31"
  defines "k \<equiv> min (length t) (unat n - 1)"
  shows "vsnprintf buffer n fmt args m = Some (int (length t),
     if n = 0 then m else (\<lambda>a. if buffer \<le> a \<and> a < buffer + k then t ! (a - buffer) else if a = buffer + k then 0 else m a))"
proof (cases "n = 0")
  case True
  then show ?thesis by (auto simp: vsnprintf_def vprintf_to_def vprintf_loop_text t helper_fold fun_eq_iff)
next
  case False
  then have u: "0 < unat n" by (simp add: unat_gt_0)
  have "unat (n - 1) = unat n - 1" using u by (simp add: unat_minus_one False)
  then have "sint (n - 1) = int (unat n - 1)" using n u sint_small [of "n - 1"] by simp
  then show ?thesis using False by (auto simp: vsnprintf_def vprintf_to_def vprintf_loop_text t helper_fold fun_eq_iff k_def word_gt_0)
qed



section \<open>Printing and reading numbers\<close>

lemma digit_chars:
  "\<forall>d \<in> set [0..<10]. digits base_d ! d = of_nat (48 + d) \<and> isdigit (of_nat (48 + d)) \<and> unat (of_nat (48 + d) :: u8) = 48 + d"
  by code_simp

lemma digit_char: "d < 10 \<Longrightarrow> digits base_d ! d = of_nat (48 + d)"
  and isdigit_char: "d < 10 \<Longrightarrow> isdigit (of_nat (48 + d)) \<and> unat (of_nat (48 + d) :: u8) = 48 + d"
  using digit_chars by (simp_all del: of_nat_add)

lemma place_digits_less: "d \<in> set (place_digits r n) \<Longrightarrow> d < r"
proof (induction r n rule: place_digits.induct)
  case (1 r n)
  then show ?case by (subst (asm) place_digits.simps) (auto split: if_splits)
qed

lemma decimal_append: "decimal (ds @ [d]) = decimal ds * 10 + (unat d - 48)"
  by (simp add: decimal_def)

lemma decimal_place_digits: "decimal (rev (map ((!) (digits base_d)) (place_digits 10 n))) = n"
proof (induction n rule: less_induct)
  case (less n)
  show ?case
  proof (cases "n = 0")
    case True
    then show ?thesis by (simp add: place_digits.simps decimal_def)
  next
    case False
    have "n mod 10 < 10" by simp
    then show ?thesis
      using less [of "n div 10"] False by (simp add: place_digits.simps [of 10 n] decimal_append digit_char isdigit_char del: of_nat_add)
  qed
qed

text \<open>The text of \<open>%d\<close>: an optional minus sign and decimal digits.\<close>

lemma int_text_decimal:
  obtains ds where "int_text v True neg base_d no_flags = (if neg then [45] else []) @ ds" "ds \<noteq> []" "\<forall>d \<in> set ds. isdigit d"
    "decimal ds = unat v" "\<And>k. k > 0 \<Longrightarrow> unat v < 10 ^ k \<Longrightarrow> length ds \<le> k"
proof -
  define ps where "ps = place_digits 10 (unat v)"
  define ds where "ds = rev (map ((!) (digits base_d)) ps @ replicate (1 - length ps) 48)"
  have r: "unat (radix base_d) = 10" "x_char base_d = 0" "radix base_d \<noteq> 8" by (simp_all add: base_d_def)
  have "int_digits v base_d no_flags = rev ds"
    by (simp add: int_digits_def no_flags_def digit_text_def r Let_def ds_def ps_def)
  then have t: "int_text v True neg base_d no_flags = (if neg then [45] else []) @ ds"
    by (simp add: int_text_def no_flags_def sign_char_def r Let_def)
  have dg: "\<forall>d \<in> set ds. isdigit d"
    using place_digits_less isdigit_char digit_char by (auto simp: ds_def ps_def isdigit_def)
  have ne: "ds \<noteq> []" by (cases ps) (simp_all add: ds_def)
  have dec: "decimal ds = unat v"
  proof (cases "ps = []")
    case True
    then have "unat v = 0" using decimal_place_digits [of "unat v"] by (simp add: ps_def decimal_def)
    then show ?thesis using True by (simp add: ds_def decimal_def)
  next
    case False
    then have "1 - length ps = 0" by (cases ps) simp_all
    then show ?thesis using decimal_place_digits [of "unat v"] by (simp add: ds_def ps_def)
  qed
  have "length ds \<le> k" if "k > 0" "unat v < 10 ^ k" for k
    using place_digits_length [OF _ that(2)] that(1) by (simp add: ds_def ps_def)
  then show thesis using that t ne dg dec by blast
qed

lemma printf_text_d:
  "printf_text (ascii ''%d'' @ [0]) [A32 x] =
     Some (int_text (if sint x < 0 then - scast x else scast x) True (sint x < 0) base_d no_flags)"
proof -
  have f: "ascii ''%d'' @ [0] = [37, 100, 0]" by (simp add: ascii_def)
  have c: "parse_conversion [100, 0] [A32 x] = Some ([100, 0], no_flags, [A32 x])"
    by (simp add: parse_conversion_def all_flags_def parse_width_def parse_precision_def parse_number_def parse_type_def no_flags_def isdigit_def)
  have "printf_text [0] [] = Some []" by (simp add: printf_text.simps)
  then show ?thesis
    unfolding f by (subst printf_text.simps) (simp add: c conv_text_def signed_arg_def no_flags_def sint_scast_64)
qed

text \<open>
  C27. Printing an \<^verbatim>\<open>int\<close> with \<open>%d\<close> into a buffer of at least 12 bytes and reading the buffer with \<^verbatim>\<open>atoi\<close> gives the number back, for every
  number, the least one included.
\<close>

theorem snprintf_atoi_roundtrip:
  assumes "buffer \<noteq> NIL" and "12 \<le> unat n" and "unat n \<le> 2 ^ 31"
  shows "\<exists>len m'. snprintf buffer n (ascii ''%d'' @ [0]) [A32 x] m = Some (len, m') \<and> atoi m' buffer = Some x"
proof -
  define neg where "neg = (sint x < 0)"
  define v :: u64 where "v = (if neg then - scast x else scast x)"
  have range: "- 2147483648 \<le> sint x" "sint x < 2147483648" by (rule sint_range_32)+
  have "v = word_of_int \<bar>sint x\<bar>" by (simp add: v_def neg_def)
  then have v: "int (unat v) = \<bar>sint x\<bar>" using range by (simp add: uint_word_of_int)
  obtain ds where ds: "int_text v True neg base_d no_flags = (if neg then [45] else []) @ ds" "ds \<noteq> []" "\<forall>d \<in> set ds. isdigit d"
    "decimal ds = unat v" "\<And>k. k > 0 \<Longrightarrow> unat v < 10 ^ k \<Longrightarrow> length ds \<le> k"
    using int_text_decimal [of v neg] by blast
  define t where "t = (if neg then [45] else []) @ ds"
  have p: "printf_text (ascii ''%d'' @ [0]) [A32 x] = Some t" using printf_text_d [of x] ds(1) by (simp add: v_def neg_def t_def)
  have "unat v \<le> 2147483648" using v range by linarith
  then have "unat v < 10 ^ 10" by simp
  then have len: "length t \<le> 11" using ds(5) [of 10] by (simp add: t_def)
  have nz: "n \<noteq> 0" using assms(2) by auto
  define m' where "m' = (\<lambda>a. if buffer \<le> a \<and> a < buffer + length t then t ! (a - buffer) else if a = buffer + length t then 0 else m a)"
  have k: "min (length t) (unat n - 1) = length t" using len assms(2) by simp
  have s: "snprintf buffer n (ascii ''%d'' @ [0]) [A32 x] m = Some (int (length t), m')"
    using vsnprintf_text [OF p assms(3), of buffer m] nz unfolding k by (simp add: snprintf_def m'_def)
  have z: "0 \<notin> set t" using ds(3) by (auto simp: t_def isdigit_def)
  have "cstr m' buffer t" unfolding cstr_bytes using z by (auto simp: m'_def intro!: nth_equalityI)
  then have "cstr m' buffer ([] @ (if neg then [45] else []) @ ds @ [])" by (simp add: t_def)
  from atoi_text [OF this assms(1) _ _ ds(2,3)] have "atoi m' buffer = Some (word_of_int (if neg then - int (decimal ds) else int (decimal ds)))"
    by (auto split: if_splits)
  moreover have "word_of_int (if neg then - int (decimal ds) else int (decimal ds)) = x" using v ds(4) by (simp add: neg_def)
  ultimately show ?thesis using s by blast
qed

theorem snprintf_atoi_roundtrip_witness:
  "\<exists>len m'. snprintf 8 12 (ascii ''%d'' @ [0]) [A32 0x80000000] (\<lambda>_. 0) = Some (len, m') \<and> atoi m' 8 = Some 0x80000000"
  by (rule snprintf_atoi_roundtrip) simp_all

end
