(* ===== verification/Intq.thy ===== *)
theory Intq
  imports Kernel_State
begin

text \<open>
  The interrupt queue, \<^verbatim>\<open>devices/intq.c\<close>: a circular buffer shared by interrupt handlers and one waiting thread on
  each side. An operation is given the interrupt level, whether it runs in an interrupt handler and the running
  thread; it either completes, possibly naming a thread to unblock, or puts the running thread to sleep as
  the waiter, in which case the code calls it again when the thread is woken.
\<close>

section \<open>Definitions\<close>

definition INTQ_BUFSIZE :: nat where
  "INTQ_BUFSIZE = 64"

record intq =
  not_full :: tptr
  not_empty :: tptr
  q_buf :: "u8 list"
  q_head :: nat
  q_tail :: nat

datatype side = NotFull | NotEmpty

definition waiter :: "side \<Rightarrow> intq \<Rightarrow> tptr" where
  "waiter w q = (case w of NotFull \<Rightarrow> not_full q | NotEmpty \<Rightarrow> not_empty q)"

definition set_waiter :: "side \<Rightarrow> tptr \<Rightarrow> intq \<Rightarrow> intq" where
  "set_waiter w t q = (case w of NotFull \<Rightarrow> q\<lparr>not_full := t\<rparr> | NotEmpty \<Rightarrow> q\<lparr>not_empty := t\<rparr>)"

definition intq_next :: "nat \<Rightarrow> nat" where
  "intq_next pos = (pos + 1) mod INTQ_BUFSIZE"

definition intq_init :: "intq \<Rightarrow> intq" where
  "intq_init q = q\<lparr>not_full := NULL, not_empty := NULL, q_head := 0, q_tail := 0\<rparr>"

definition intq_empty :: "intr_level \<Rightarrow> intq \<Rightarrow> bool option" where
  "intq_empty level q = do { ASSERT (level = INTR_OFF); Some (q_head q = q_tail q) }"

definition intq_full :: "intr_level \<Rightarrow> intq \<Rightarrow> bool option" where
  "intq_full level q = do { ASSERT (level = INTR_OFF); Some (intq_next (q_head q) = q_tail q) }"

definition intq_wait :: "side \<Rightarrow> intr_level \<Rightarrow> bool \<Rightarrow> tptr \<Rightarrow> intq \<Rightarrow> intq option" where
  "intq_wait w level in_intr cur q = do {
     ASSERT (\<not> in_intr);
     ASSERT (level = INTR_OFF);
     e \<leftarrow> intq_empty level q;
     f \<leftarrow> intq_full level q;
     ASSERT (w = NotEmpty \<and> e \<or> w = NotFull \<and> f);
     Some (set_waiter w cur q)
   }"

definition intq_signal :: "side \<Rightarrow> intr_level \<Rightarrow> intq \<Rightarrow> (tptr \<times> intq) option" where
  "intq_signal w level q = do {
     ASSERT (level = INTR_OFF);
     e \<leftarrow> intq_empty level q;
     f \<leftarrow> intq_full level q;
     ASSERT (w = NotEmpty \<and> \<not> e \<or> w = NotFull \<and> \<not> f);
     Some (if waiter w q \<noteq> NULL then (waiter w q, set_waiter w NULL q) else (NULL, q))
   }"

datatype 'a outcome = Sleeps intq | Done 'a tptr intq

definition intq_getc :: "intr_level \<Rightarrow> bool \<Rightarrow> tptr \<Rightarrow> intq \<Rightarrow> u8 outcome option" where
  "intq_getc level in_intr cur q = do {
     ASSERT (level = INTR_OFF);
     e \<leftarrow> intq_empty level q;
     if e then do {
       ASSERT (\<not> in_intr);
       q \<leftarrow> intq_wait NotEmpty level in_intr cur q;
       Some (Sleeps q)
     } else do {
       let byte = q_buf q ! q_tail q;
       let q = q\<lparr>q_tail := intq_next (q_tail q)\<rparr>;
       (wake, q) \<leftarrow> intq_signal NotFull level q;
       Some (Done byte wake q)
     }
   }"

definition intq_putc :: "intr_level \<Rightarrow> bool \<Rightarrow> tptr \<Rightarrow> u8 \<Rightarrow> intq \<Rightarrow> unit outcome option" where
  "intq_putc level in_intr cur byte q = do {
     ASSERT (level = INTR_OFF);
     f \<leftarrow> intq_full level q;
     if f then do {
       ASSERT (\<not> in_intr);
       q \<leftarrow> intq_wait NotFull level in_intr cur q;
       Some (Sleeps q)
     } else do {
       let q = q\<lparr>q_buf := (q_buf q)[q_head q := byte], q_head := intq_next (q_head q)\<rparr>;
       (wake, q) \<leftarrow> intq_signal NotEmpty level q;
       Some (Done () wake q)
     }
   }"

section \<open>The circular buffer as a sequence\<close>

definition intq_wf :: "intq \<Rightarrow> bool" where
  "intq_wf q \<longleftrightarrow> length (q_buf q) = INTQ_BUFSIZE \<and> q_head q < INTQ_BUFSIZE \<and> q_tail q < INTQ_BUFSIZE"

definition q_size :: "intq \<Rightarrow> nat" where
  "q_size q = (q_head q + INTQ_BUFSIZE - q_tail q) mod INTQ_BUFSIZE"

definition contents :: "intq \<Rightarrow> u8 list" where
  "contents q = map (\<lambda>k. q_buf q ! ((q_tail q + k) mod INTQ_BUFSIZE)) [0..<q_size q]"

lemma length_contents [simp]: "length (contents q) = q_size q"
  by (simp add: contents_def)

lemma mod_bufsize: "a < 2 * INTQ_BUFSIZE \<Longrightarrow> a mod INTQ_BUFSIZE = (if a < INTQ_BUFSIZE then a else a - INTQ_BUFSIZE)"
  by (simp add: le_mod_geq)

lemma q_size_cases:
  assumes "intq_wf q"
  shows "q_size q = (if q_tail q \<le> q_head q then q_head q - q_tail q else q_head q + INTQ_BUFSIZE - q_tail q)"
  using assms mod_bufsize [of "q_head q + INTQ_BUFSIZE - q_tail q"] by (auto simp: q_size_def intq_wf_def)

lemma intq_next_cases: "p < INTQ_BUFSIZE \<Longrightarrow> intq_next p = (if p = 63 then 0 else p + 1)"
  using mod_bufsize [of "p + 1"] by (auto simp: intq_next_def INTQ_BUFSIZE_def)

lemma empty_iff: "intq_wf q \<Longrightarrow> q_head q = q_tail q \<longleftrightarrow> contents q = []"
  using q_size_cases [of q] by (auto simp: contents_def intq_wf_def split: if_splits)

lemma full_iff: "intq_wf q \<Longrightarrow> intq_next (q_head q) = q_tail q \<longleftrightarrow> length (contents q) = 63"
  using q_size_cases [of q] by (auto simp: intq_next_cases intq_wf_def INTQ_BUFSIZE_def split: if_splits)

lemma size_bound: "intq_wf q \<Longrightarrow> q_size q \<le> 63"
  using q_size_cases [of q] by (auto simp: intq_wf_def INTQ_BUFSIZE_def split: if_splits)

lemma contents_get:
  assumes "intq_wf q" and "contents q \<noteq> []"
  shows "contents q = q_buf q ! q_tail q # contents (q\<lparr>q_tail := intq_next (q_tail q)\<rparr>)"
    and "intq_wf (q\<lparr>q_tail := intq_next (q_tail q)\<rparr>)"
proof -
  let ?q = "q\<lparr>q_tail := intq_next (q_tail q)\<rparr>"
  show wf: "intq_wf ?q" using assms(1) by (simp add: intq_wf_def intq_next_def INTQ_BUFSIZE_def)
  have ne: "q_head q \<noteq> q_tail q" using assms empty_iff by blast
  have s: "q_size q = Suc (q_size ?q)"
    using assms(1) ne q_size_cases [OF assms(1)] q_size_cases [OF wf]
    by (auto simp: intq_next_cases intq_wf_def INTQ_BUFSIZE_def split: if_splits)
  have e: "(intq_next (q_tail q) + k) mod INTQ_BUFSIZE = (q_tail q + Suc k) mod INTQ_BUFSIZE" for k
    by (simp add: intq_next_def mod_add_left_eq)
  have "contents q = map (\<lambda>k. q_buf q ! ((q_tail q + k) mod INTQ_BUFSIZE)) (0 # map Suc [0..<q_size ?q])"
    unfolding contents_def s by (simp add: upt_conv_Cons map_Suc_upt del: upt_Suc)
  then show "contents q = q_buf q ! q_tail q # contents ?q"
    using assms(1) by (simp add: contents_def e intq_wf_def comp_def)
qed

lemma contents_put:
  assumes "intq_wf q" and "length (contents q) < 63"
  shows "contents (q\<lparr>q_buf := (q_buf q)[q_head q := b], q_head := intq_next (q_head q)\<rparr>) = contents q @ [b]"
    and "intq_wf (q\<lparr>q_buf := (q_buf q)[q_head q := b], q_head := intq_next (q_head q)\<rparr>)"
proof -
  let ?q = "q\<lparr>q_buf := (q_buf q)[q_head q := b], q_head := intq_next (q_head q)\<rparr>"
  show wf: "intq_wf ?q" using assms(1) by (simp add: intq_wf_def intq_next_def INTQ_BUFSIZE_def)
  have s: "q_size ?q = Suc (q_size q)"
    using assms q_size_cases [OF assms(1)] q_size_cases [OF wf]
    by (auto simp: intq_next_cases intq_wf_def INTQ_BUFSIZE_def split: if_splits)
  have h: "(q_tail q + q_size q) mod INTQ_BUFSIZE = q_head q"
    using assms(1) q_size_cases [OF assms(1)] mod_bufsize [of "q_tail q + q_size q"]
    by (auto simp: intq_wf_def split: if_splits)
  have o: "(q_tail q + k) mod INTQ_BUFSIZE \<noteq> q_head q" if "k < q_size q" for k
    using assms(1) that q_size_cases [OF assms(1)] mod_bufsize [of "q_tail q + k"]
    by (auto simp: intq_wf_def split: if_splits)
  have "contents ?q = map (\<lambda>k. (q_buf q)[q_head q := b] ! ((q_tail q + k) mod INTQ_BUFSIZE)) [0..<Suc (q_size q)]"
    by (simp add: contents_def s del: upt_Suc)
  also have "\<dots> = contents q @ [b]"
    using assms(1) h o by (auto simp: contents_def intq_wf_def nth_list_update_neq [OF not_sym])
  finally show "contents ?q = contents q @ [b]" .
qed

lemma set_waiter_simps [simp]:
  "contents (set_waiter w t q) = contents q" "intq_wf (set_waiter w t q) = intq_wf q"
  "waiter w (set_waiter w t q) = t"
  by (cases w; simp add: set_waiter_def contents_def q_size_def intq_wf_def waiter_def)+

section \<open>Properties\<close>

lemma putc_spec:
  assumes "intq_wf q"
  shows "if length (contents q) = 63
    then intq_putc INTR_OFF ii cur b q = (if ii then None else Some (Sleeps (set_waiter NotFull cur q)))
    else \<exists>q'. intq_putc INTR_OFF ii cur b q = Some (Done () (not_empty q) q') \<and> intq_wf q'
          \<and> contents q' = contents q @ [b] \<and> not_empty q' = NULL \<and> not_full q' = not_full q"
proof (cases "length (contents q) = 63")
  case True
  then show ?thesis using full_iff [OF assms]
    by (simp add: intq_putc_def intq_full_def intq_empty_def intq_wait_def)
next
  case False
  let ?q = "q\<lparr>q_buf := (q_buf q)[q_head q := b], q_head := intq_next (q_head q)\<rparr>"
  have lt: "length (contents q) < 63" using False size_bound [OF assms] by simp
  note p = contents_put [OF assms lt, of b]
  have "q_head ?q \<noteq> q_tail ?q" using p empty_iff [OF p(2)] by simp
  then have "intq_putc INTR_OFF ii cur b q = Some (Done () (not_empty q) (?q\<lparr>not_empty := NULL\<rparr>))"
    using False full_iff [OF assms]
    by (auto simp: intq_putc_def intq_full_def intq_signal_def intq_empty_def waiter_def set_waiter_def Let_def)
  moreover have "intq_wf (?q\<lparr>not_empty := NULL\<rparr>)" "contents (?q\<lparr>not_empty := NULL\<rparr>) = contents q @ [b]"
    using p by (simp_all add: intq_wf_def contents_def q_size_def)
  ultimately show ?thesis using False by auto
qed

lemma getc_spec:
  assumes "intq_wf q"
  shows "if contents q = []
    then intq_getc INTR_OFF ii cur q = (if ii then None else Some (Sleeps (set_waiter NotEmpty cur q)))
    else \<exists>q'. intq_getc INTR_OFF ii cur q = Some (Done (hd (contents q)) (not_full q) q') \<and> intq_wf q'
          \<and> contents q' = tl (contents q) \<and> not_full q' = NULL \<and> not_empty q' = not_empty q"
proof (cases "contents q = []")
  case True
  then show ?thesis using empty_iff [OF assms]
    by (simp add: intq_getc_def intq_full_def intq_empty_def intq_wait_def)
next
  case False
  let ?q = "q\<lparr>q_tail := intq_next (q_tail q)\<rparr>"
  note g = contents_get [OF assms False]
  have "length (contents q) = Suc (length (contents ?q))" using g(1) by (metis length_Cons)
  then have "length (contents ?q) \<noteq> 63" using size_bound [OF assms] by simp
  then have "intq_next (q_head ?q) \<noteq> q_tail ?q" using full_iff [OF g(2)] by blast
  then have "intq_getc INTR_OFF ii cur q = Some (Done (q_buf q ! q_tail q) (not_full q) (?q\<lparr>not_full := NULL\<rparr>))"
    using False empty_iff [OF assms]
    by (auto simp: intq_getc_def intq_full_def intq_signal_def intq_empty_def waiter_def set_waiter_def Let_def)
  moreover have "intq_wf (?q\<lparr>not_full := NULL\<rparr>)" "contents (?q\<lparr>not_full := NULL\<rparr>) = contents ?q"
    using g(2) by (simp_all add: intq_wf_def contents_def q_size_def)
  moreover have "hd (contents q) = q_buf q ! q_tail q" "tl (contents q) = contents ?q" using g(1) by (metis list.sel)+
  ultimately show ?thesis using False by auto
qed


definition intq_ex :: intq where
  "intq_ex = \<lparr>not_full = 0, not_empty = 9, q_buf = replicate 64 0, q_head = 63, q_tail = 63\<rparr>"


end
