(* ===== verification/Vaddr.thy ===== *)
theory Vaddr
  imports Prelude
begin

text \<open>
  Virtual addresses and page table entries of the x86: \<^verbatim>\<open>threads/vaddr.h\<close> and \<^verbatim>\<open>threads/pte.h\<close>. Addresses are 32-bit words.
\<close>

section \<open>Definitions\<close>

definition PGBITS :: nat where "PGBITS = 12"
definition PGSIZE :: u32 where "PGSIZE = push_bit PGBITS 1"

definition BITMASK :: "nat \<Rightarrow> nat \<Rightarrow> u32" where
  "BITMASK shift cnt = push_bit shift (push_bit cnt 1 - 1)"

definition PGMASK :: u32 where "PGMASK = BITMASK 0 PGBITS"

definition pg_ofs :: "u32 \<Rightarrow> u32" where
  "pg_ofs va = va AND PGMASK"

definition pg_no :: "u32 \<Rightarrow> u32" where
  "pg_no va = drop_bit PGBITS va"

definition pg_round_up :: "u32 \<Rightarrow> u32" where
  "pg_round_up va = (va + PGSIZE - 1) AND NOT PGMASK"

definition pg_round_down :: "u32 \<Rightarrow> u32" where
  "pg_round_down va = va AND NOT PGMASK"

definition PHYS_BASE :: u32 where "PHYS_BASE = 0xc0000000"

definition is_user_vaddr :: "u32 \<Rightarrow> bool" where
  "is_user_vaddr vaddr \<longleftrightarrow> vaddr < PHYS_BASE"

definition is_kernel_vaddr :: "u32 \<Rightarrow> bool" where
  "is_kernel_vaddr vaddr \<longleftrightarrow> vaddr \<ge> PHYS_BASE"

definition ptov :: "u32 \<Rightarrow> u32 option" where
  "ptov paddr = do { ASSERT (paddr < PHYS_BASE); Some (paddr + PHYS_BASE) }"

definition vtop :: "u32 \<Rightarrow> u32 option" where
  "vtop vaddr = do { ASSERT (is_kernel_vaddr vaddr); Some (vaddr - PHYS_BASE) }"

definition PTSHIFT :: nat where "PTSHIFT = PGBITS"
definition PTBITS :: nat where "PTBITS = 10"
definition PTMASK :: u32 where "PTMASK = BITMASK PTSHIFT PTBITS"
definition PDSHIFT :: nat where "PDSHIFT = PTSHIFT + PTBITS"

definition pt_no :: "u32 \<Rightarrow> u32" where
  "pt_no va = drop_bit PTSHIFT (va AND PTMASK)"

definition pd_no :: "u32 \<Rightarrow> u32" where
  "pd_no va = drop_bit PDSHIFT va"

definition PTE_ADDR :: u32 where "PTE_ADDR = 0xfffff000"
definition PTE_P :: u32 where "PTE_P = 1"
definition PTE_W :: u32 where "PTE_W = 2"
definition PTE_U :: u32 where "PTE_U = 4"
definition PTE_A :: u32 where "PTE_A = 0x20"
definition PTE_D :: u32 where "PTE_D = 0x40"

definition pde_create :: "u32 \<Rightarrow> u32 option" where
  "pde_create pt = do {
     ASSERT (pg_ofs pt = 0);
     p \<leftarrow> vtop pt;
     Some (p OR PTE_U OR PTE_P OR PTE_W)
   }"

definition pde_get_pt :: "u32 \<Rightarrow> u32 option" where
  "pde_get_pt pde = do { ASSERT (pde AND PTE_P \<noteq> 0); ptov (pde AND PTE_ADDR) }"

definition pte_create_kernel :: "u32 \<Rightarrow> bool \<Rightarrow> u32 option" where
  "pte_create_kernel page writable = do {
     ASSERT (pg_ofs page = 0);
     p \<leftarrow> vtop page;
     Some (p OR PTE_P OR (if writable then PTE_W else 0))
   }"

definition pte_create_user :: "u32 \<Rightarrow> bool \<Rightarrow> u32 option" where
  "pte_create_user page writable = do {
     e \<leftarrow> pte_create_kernel page writable;
     Some (e OR PTE_U)
   }"

definition pte_get_page :: "u32 \<Rightarrow> u32 option" where
  "pte_get_page pte = ptov (pte AND PTE_ADDR)"

section \<open>Pages and offsets as numbers\<close>

lemmas page_consts = PGBITS_def PGSIZE_def PGMASK_def BITMASK_def PHYS_BASE_def PTSHIFT_def PTBITS_def PTMASK_def PDSHIFT_def
lemmas pte_consts = PTE_ADDR_def PTE_P_def PTE_W_def PTE_U_def PTE_A_def PTE_D_def

lemma PGSIZE_eq: "PGSIZE = 4096" and PGMASK_eq: "PGMASK = mask 12" and PTMASK_eq: "PTMASK = push_bit 12 (mask 10)"
  by (simp_all add: page_consts mask_eq_exp_minus_1)

lemma pg_ofs_take_bit: "pg_ofs va = take_bit 12 va"
  by (simp add: pg_ofs_def PGMASK_eq take_bit_eq_mask)

lemma unat_take_bit: "unat (take_bit n (x :: u32)) = unat x mod 2 ^ n"
  by (rule trans [OF unsigned_take_bit_eq take_bit_eq_mod])

lemma unat_pg_ofs [width_simps]: "unat (pg_ofs va) = unat va mod 4096"
  by (simp add: pg_ofs_take_bit unat_take_bit)

lemma unat_pg_no [width_simps]: "unat (pg_no va) = unat va div 4096"
  by (simp add: pg_no_def PGBITS_def width_simps)

lemma unat_pd_no [width_simps]: "unat (pd_no va) = unat va div 4194304"
  by (simp add: pd_no_def PDSHIFT_def PTSHIFT_def PTBITS_def PGBITS_def width_simps)

lemma pt_no_eq: "pt_no va = take_bit 10 (drop_bit 12 va)"
  by (rule bit_word_eqI)
    (auto simp: pt_no_def PTSHIFT_def PGBITS_def PTMASK_eq bit_drop_bit_eq bit_and_iff bit_push_bit_iff bit_mask_iff bit_take_bit_iff)

lemma unat_pt_no [width_simps]: "unat (pt_no va) = unat va div 4096 mod 1024"
  by (simp add: pt_no_eq unat_take_bit width_simps)

lemma NOT_PGMASK: "va AND NOT PGMASK = push_bit 12 (drop_bit 12 va)"
  by (rule bit_word_eqI)
    (auto simp: PGMASK_eq bit_and_iff bit_not_iff bit_mask_iff bit_push_bit_iff bit_drop_bit_eq)

lemma unat_pg_round_down [width_simps]: "unat (pg_round_down va) = unat va div 4096 * 4096"
proof -
  have "unat (drop_bit 12 va) * 2 ^ 12 < 2 ^ 32"
    using unat_lt_32 [of va] by (simp add: width_simps)
  then have "unat (push_bit 12 (drop_bit 12 va)) = unat (drop_bit 12 va) * 2 ^ 12"
    by (intro unat_push_bit_no_overflow) simp
  then show ?thesis by (simp add: pg_round_down_def NOT_PGMASK width_simps)
qed

lemma pg_split: "va = pg_round_down va + pg_ofs va"
proof -
  have "unat (pg_round_down va + pg_ofs va) = unat va"
    using unat_lt_32 [of va] by (subst unat_plus_no_overflow) (simp_all add: width_simps)
  then show ?thesis by (simp add: unat_eq_iff)
qed

lemma pg_aligned_iff: "pg_ofs va = 0 \<longleftrightarrow> unat va mod 4096 = 0"
  by (metis unat_0 unat_eq_iff unat_pg_ofs)

lemma pg_index_inj:
  "pd_no a = pd_no b \<Longrightarrow> pt_no a = pt_no b \<Longrightarrow> pg_round_down a = pg_round_down b"
proof -
  assume "pd_no a = pd_no b" "pt_no a = pt_no b"
  then have "unat a div 4194304 = unat b div 4194304" "unat a div 4096 mod 1024 = unat b div 4096 mod 1024"
    by (metis unat_pd_no, metis unat_pt_no)
  moreover have "x div 4096 = x div 4194304 * 1024 + x div 4096 mod 1024" for x :: nat
    using div_mult2_eq [of x 4096 1024] by simp
  ultimately have "unat a div 4096 = unat b div 4096" by metis
  then show ?thesis by (simp add: unat_eq_iff width_simps)
qed

section \<open>Entries\<close>

text \<open>An entry is a page-aligned physical address and flags in the low twelve bits.\<close>

lemma entry_parts:
  assumes "take_bit 12 (p :: u32) = 0" and "drop_bit 12 (f :: u32) = 0"
  shows "(p OR f) AND PTE_ADDR = p" and "drop_bit 12 g = 0 \<Longrightarrow> (p OR f) AND g = f AND g"
proof -
  have p: "\<not> bit p k" if "k < 12" for k
  proof -
    have "\<not> bit (take_bit 12 p) k" unfolding assms(1) by simp
    with that show ?thesis by (simp add: bit_take_bit_iff)
  qed
  have z: "\<not> bit h k" if "drop_bit 12 h = 0" "12 \<le> k" for h :: u32 and k
  proof -
    have "\<not> bit (drop_bit 12 h) (k - 12)" unfolding that(1) by simp
    with that(2) show ?thesis by (simp add: bit_drop_bit_eq)
  qed
  have a: "PTE_ADDR = NOT (mask 12)" by (simp add: PTE_ADDR_def mask_eq_exp_minus_1)
  show "(p OR f) AND PTE_ADDR = p"
    unfolding a by (rule bit_word_eqI) (use p z [OF assms(2)] in \<open>auto simp: bit_and_iff bit_or_iff bit_not_iff bit_mask_iff\<close>)
  show "(p OR f) AND g = f AND g" if "drop_bit 12 g = 0"
  proof (rule bit_word_eqI)
    fix k
    show "bit ((p OR f) AND g) k = bit (f AND g) k"
      using p [of k] z [OF that, of k] by (cases "k < 12") (auto simp: bit_and_iff bit_or_iff)
  qed
qed

definition frame_addr :: "u32 \<Rightarrow> bool" where
  "frame_addr page \<longleftrightarrow> pg_ofs page = 0 \<and> is_kernel_vaddr page"

lemma vtop_aligned:
  assumes "frame_addr page"
  shows "vtop page = Some (page - PHYS_BASE)" and "take_bit 12 (page - PHYS_BASE) = 0"
    and "ptov (page - PHYS_BASE) = Some page"
proof -
  have k: "PHYS_BASE \<le> page" using assms by (simp add: frame_addr_def is_kernel_vaddr_def)
  then show "vtop page = Some (page - PHYS_BASE)" by (simp add: vtop_def is_kernel_vaddr_def)
  have u: "unat (page - PHYS_BASE) = unat page - 3221225472"
    using k by (subst unat_minus_no_underflow) (simp_all add: word_le_nat_alt PHYS_BASE_def)
  have "unat page mod 4096 = 0" using assms by (simp add: frame_addr_def pg_aligned_iff)
  then have "4096 dvd unat page" by (simp only: dvd_eq_mod_eq_0)
  then obtain q where "unat page = 4096 * q" by (elim dvdE)
  then have "unat (page - PHYS_BASE) = 4096 * (q - 786432)" unfolding u by (simp add: diff_mult_distrib2)
  then have "unat (page - PHYS_BASE) mod 4096 = 0" by simp
  then show "take_bit 12 (page - PHYS_BASE) = 0" by (simp only: pg_ofs_take_bit [symmetric] pg_aligned_iff)
  have "page - PHYS_BASE < PHYS_BASE"
    using u unat_lt_32 [of page] by (simp add: word_less_nat_alt PHYS_BASE_def)
  then show "ptov (page - PHYS_BASE) = Some page" by (simp add: ptov_def)
qed

lemma pde_create_frame:
  assumes "frame_addr pt"
  shows "\<exists>e. pde_create pt = Some e \<and> e \<noteq> 0 \<and> e AND PTE_P \<noteq> 0 \<and> pde_get_pt e = Some pt"
proof -
  let ?f = "PTE_U OR PTE_P OR PTE_W"
  have f: "drop_bit 12 ?f = 0" "?f AND PTE_P = 1" by (simp_all add: pte_consts)
  note v = vtop_aligned [OF assms]
  note e = entry_parts [OF v(2) f(1)]
  have "drop_bit 12 PTE_P = 0" by (simp add: pte_consts)
  then have p: "((pt - PHYS_BASE) OR ?f) AND PTE_P \<noteq> 0" using e(2) f(2) by simp
  have "pde_create pt = Some ((pt - PHYS_BASE) OR ?f)"
    using assms v(1) by (simp add: pde_create_def frame_addr_def or.assoc)
  moreover have "pde_get_pt ((pt - PHYS_BASE) OR ?f) = Some pt"
    using e(1) v(3) p by (simp add: pde_get_pt_def)
  ultimately show ?thesis using p by auto
qed

lemma pte_create_frame:
  assumes "frame_addr page"
  shows "\<exists>e. pte_create_user page w = Some e \<and> e AND PTE_P \<noteq> 0 \<and> pte_get_page e = Some page
     \<and> (e AND PTE_W \<noteq> 0) = w \<and> e AND PTE_U \<noteq> 0 \<and> e AND PTE_D = 0 \<and> e AND PTE_A = 0"
proof -
  let ?f = "PTE_P OR (if w then PTE_W else 0) OR PTE_U"
  have f: "drop_bit 12 ?f = 0" by (simp add: pte_consts)
  note v = vtop_aligned [OF assms]
  note e = entry_parts [OF v(2) f]
  have "pte_create_user page w = Some ((page - PHYS_BASE) OR ?f)"
    using assms v(1) by (simp add: pte_create_user_def pte_create_kernel_def frame_addr_def or.assoc)
  moreover have "pte_get_page ((page - PHYS_BASE) OR ?f) = Some page"
    using e(1) v(3) by (simp add: pte_get_page_def)
  moreover have "drop_bit 12 PTE_P = 0" "drop_bit 12 PTE_W = 0" "drop_bit 12 PTE_U = 0" "drop_bit 12 PTE_A = 0" "drop_bit 12 PTE_D = 0"
    by (simp_all add: pte_consts)
  note g = this [THEN e(2)]
  have "?f AND PTE_P \<noteq> 0" "(?f AND PTE_W \<noteq> 0) = w" "?f AND PTE_U \<noteq> 0" "?f AND PTE_D = 0" "?f AND PTE_A = 0"
    by (simp_all add: pte_consts)
  ultimately show ?thesis using g by auto
qed

end
