(* ===== verification/Page_Alloc.thy ===== *)
theory Page_Alloc
  imports Bitmap Vaddr
begin

text \<open>
  The page allocator, \<^verbatim>\<open>threads/palloc.c\<close>, over \<^verbatim>\<open>lib/kernel/bitmap.c\<close>. Memory is a function from the addresses of aligned
  words to words. The bitmap at the head of a pool is kept in the pool's record; its pages are not among the pages that the
  pool hands out. The operations are the sequential ones: the lock that a pool's users take is a lock of the thread model.
\<close>

section \<open>Definitions\<close>

record pool =
  used_map :: bitmap
  pool_base :: u32

record palloc_state =
  kernel_pool :: pool
  user_pool :: pool
  pmem :: "u32 \<Rightarrow> u32"

definition PAL_ASSERT :: u32 where "PAL_ASSERT = 1"
definition PAL_ZERO :: u32 where "PAL_ZERO = 2"
definition PAL_USER :: u32 where "PAL_USER = 4"

definition DIV_ROUND_UP :: "u32 \<Rightarrow> u32 \<Rightarrow> u32" where
  "DIV_ROUND_UP x step = (x + step - 1) div step"

text \<open>\<^verbatim>\<open>memset\<close> on whole words: every byte of the words of the area becomes \<^term>\<open>value\<close>.\<close>

definition memset_words :: "u32 \<Rightarrow> u32 \<Rightarrow> u32 \<Rightarrow> 'a palloc_state_scheme \<Rightarrow> 'a palloc_state_scheme" where
  "memset_words dst value n s =
     s\<lparr>pmem := (\<lambda>a. if a - dst < n then value * 0x01010101 else pmem s a)\<rparr>"

definition bitmap_words :: "u32 \<Rightarrow> u32 \<Rightarrow> 'a palloc_state_scheme \<Rightarrow> u32 list" where
  "bitmap_words base n s = map (\<lambda>i. pmem s (base + 8 + 4 * of_nat i)) [0..<unat (elem_cnt n)]"

definition init_pool :: "u32 \<Rightarrow> u32 \<Rightarrow> 'a palloc_state_scheme \<Rightarrow> pool option" where
  "init_pool base page_cnt s = do {
     let bm_pages = DIV_ROUND_UP (bitmap_buf_size page_cnt) PGSIZE;
     ASSERT (\<not> bm_pages > page_cnt);
     let page_cnt = page_cnt - bm_pages;
     b \<leftarrow> bitmap_create_in_buf page_cnt (bitmap_words base page_cnt s) (bm_pages * PGSIZE);
     Some \<lparr>used_map = b, pool_base = base + bm_pages * PGSIZE\<rparr>
   }"

definition palloc_init :: "u32 \<Rightarrow> u32 \<Rightarrow> 'a palloc_state_scheme \<Rightarrow> 'a palloc_state_scheme option" where
  "palloc_init init_ram_pages user_page_limit s = do {
     free_start \<leftarrow> ptov (1024 * 1024);
     free_end \<leftarrow> ptov (init_ram_pages * PGSIZE);
     let free_pages = (free_end - free_start) div PGSIZE;
     let user_pages = free_pages div 2;
     let user_pages = (if user_pages > user_page_limit then user_page_limit else user_pages);
     let kernel_pages = free_pages - user_pages;
     kp \<leftarrow> init_pool free_start kernel_pages s;
     let s = s\<lparr>kernel_pool := kp\<rparr>;
     up \<leftarrow> init_pool (free_start + kernel_pages * PGSIZE) user_pages s;
     Some (s\<lparr>user_pool := up\<rparr>)
   }"

definition page_from_pool :: "pool \<Rightarrow> u32 \<Rightarrow> bool" where
  "page_from_pool pool page =
     (let page_no = pg_no page;
          start_page = pg_no (pool_base pool);
          end_page = start_page + bitmap_size (used_map pool)
      in page_no \<ge> start_page \<and> page_no < end_page)"

text \<open>A pool is named by whether it is the user pool.\<close>

definition get_pool :: "bool \<Rightarrow> 'a palloc_state_scheme \<Rightarrow> pool" where
  "get_pool user s = (if user then user_pool s else kernel_pool s)"

definition set_pool :: "bool \<Rightarrow> pool \<Rightarrow> 'a palloc_state_scheme \<Rightarrow> 'a palloc_state_scheme" where
  "set_pool user p s = (if user then s\<lparr>user_pool := p\<rparr> else s\<lparr>kernel_pool := p\<rparr>)"

definition palloc_get_multiple :: "u32 \<Rightarrow> u32 \<Rightarrow> 'a palloc_state_scheme \<Rightarrow> (u32 \<times> 'a palloc_state_scheme) option" where
  "palloc_get_multiple flags page_cnt s =
     (let user = (flags AND PAL_USER \<noteq> 0); pool = get_pool user s
      in if page_cnt = 0 then Some (0, s)
         else do {
           (page_idx, b) \<leftarrow> bitmap_scan_and_flip (used_map pool) 0 page_cnt False;
           let s = set_pool user (pool\<lparr>used_map := b\<rparr>) s;
           let pages = (if page_idx \<noteq> BITMAP_ERROR then pool_base pool + PGSIZE * page_idx else 0);
           if pages \<noteq> 0
           then Some (pages, if flags AND PAL_ZERO \<noteq> 0 then memset_words pages 0 (PGSIZE * page_cnt) s else s)
           else do { ASSERT (flags AND PAL_ASSERT = 0); Some (pages, s) }
         })"

definition palloc_get_page :: "u32 \<Rightarrow> 'a palloc_state_scheme \<Rightarrow> (u32 \<times> 'a palloc_state_scheme) option" where
  "palloc_get_page flags s = palloc_get_multiple flags 1 s"

definition palloc_free_multiple :: "u32 \<Rightarrow> u32 \<Rightarrow> 'a palloc_state_scheme \<Rightarrow> 'a palloc_state_scheme option" where
  "palloc_free_multiple pages page_cnt s = do {
     ASSERT (pg_ofs pages = 0);
     if pages = 0 \<or> page_cnt = 0 then Some s
     else do {
       user \<leftarrow> (if page_from_pool (kernel_pool s) pages then Some False
               else if page_from_pool (user_pool s) pages then Some True
               else None);
       let pool = get_pool user s;
       let page_idx = pg_no pages - pg_no (pool_base pool);
       let s = memset_words pages 0xcc (PGSIZE * page_cnt) s;
       a \<leftarrow> bitmap_all (used_map pool) page_idx page_cnt;
       ASSERT a;
       b \<leftarrow> bitmap_set_multiple (used_map pool) page_idx page_cnt False;
       Some (set_pool user (pool\<lparr>used_map := b\<rparr>) s)
     }
   }"

definition palloc_free_page :: "u32 \<Rightarrow> 'a palloc_state_scheme \<Rightarrow> 'a palloc_state_scheme option" where
  "palloc_free_page page s = palloc_free_multiple page 1 s"

section \<open>Pools\<close>

definition page_at :: "pool \<Rightarrow> nat \<Rightarrow> u32" where
  "page_at p i = pool_base p + PGSIZE * of_nat i"

abbreviation npages :: "pool \<Rightarrow> nat" where
  "npages p \<equiv> nbits (used_map p)"

definition pool_wf :: "pool \<Rightarrow> bool" where
  "pool_wf p \<longleftrightarrow> bm_inv (used_map p) \<and> frame_addr (pool_base p) \<and> unat (pool_base p) + 4096 * npages p \<le> 2 ^ 32"

definition pool_used :: "pool \<Rightarrow> u32 set" where
  "pool_used p = {page_at p i | i. i < npages p \<and> bval (used_map p) i}"

definition pool_pages :: "pool \<Rightarrow> u32 set" where
  "pool_pages p = page_at p ` {..< npages p}"

definition palloc_wf :: "'a palloc_state_scheme \<Rightarrow> bool" where
  "palloc_wf s \<longleftrightarrow> pool_wf (kernel_pool s) \<and> pool_wf (user_pool s)
     \<and> pool_pages (kernel_pool s) \<inter> pool_pages (user_pool s) = {}"

definition used_pages :: "'a palloc_state_scheme \<Rightarrow> u32 set" where
  "used_pages s = pool_used (kernel_pool s) \<union> pool_used (user_pool s)"

lemma frame_addr_iff: "frame_addr a \<longleftrightarrow> unat a mod 4096 = 0 \<and> 3221225472 \<le> unat a"
  by (simp add: frame_addr_def pg_aligned_iff is_kernel_vaddr_def word_le_nat_alt PHYS_BASE_def)

lemma frame_nonzero: "frame_addr p \<Longrightarrow> p \<noteq> 0"
  by (auto simp: frame_addr_iff)

lemma pool_bound: "pool_wf p \<Longrightarrow> npages p \<le> 262144"
  by (simp add: pool_wf_def frame_addr_iff)

lemma page_at_unat:
  assumes "pool_wf p" and "i < npages p"
  shows "unat (page_at p i) = unat (pool_base p) + 4096 * i"
proof -
  have i: "unat (of_nat i :: u32) = i" using assms(2) pool_bound [OF assms(1)] by (intro unat_of_nat_32) simp
  have lt: "unat (pool_base p) + 4096 * i < 2 ^ 32" using assms by (simp add: pool_wf_def)
  then have "unat (PGSIZE * of_nat i) = 4096 * i"
    by (subst unat_mult_no_overflow) (simp_all add: i PGSIZE_eq)
  then show ?thesis using lt by (simp add: page_at_def unat_plus_no_overflow)
qed

lemma page_at_frame: "pool_wf p \<Longrightarrow> i < npages p \<Longrightarrow> frame_addr (page_at p i)"
  by (simp add: frame_addr_iff page_at_unat) (simp add: pool_wf_def frame_addr_iff mod_add_left_eq [symmetric])

lemma page_at_inj: "pool_wf p \<Longrightarrow> i < npages p \<Longrightarrow> j < npages p \<Longrightarrow> page_at p i = page_at p j \<longleftrightarrow> i = j"
  by (simp add: unat_eq_iff page_at_unat)

lemma page_index:
  assumes "pool_wf p" and "i < npages p"
  shows "unat (pg_no (page_at p i) - pg_no (pool_base p)) = i"
proof -
  have "unat (pg_no (page_at p i)) = unat (pg_no (pool_base p)) + i"
    by (simp add: width_simps page_at_unat [OF assms])
  then show ?thesis by (subst unat_minus_no_underflow) simp_all
qed

lemma page_from_pool_iff:
  assumes "pool_wf p" and "pg_ofs x = 0"
  shows "page_from_pool p x \<longleftrightarrow> x \<in> pool_pages p"
proof -
  define b where "b = unat (pool_base p)"
  have b: "b mod 4096 = 0" "3221225472 \<le> b" "b + 4096 * npages p \<le> 2 ^ 32"
    using assms(1) by (simp_all add: b_def pool_wf_def frame_addr_iff)
  have x: "unat x mod 4096 = 0" using assms(2) by (simp add: pg_aligned_iff)
  have lt: "unat (pg_no (pool_base p) + bitmap_size (used_map p)) = b div 4096 + npages p"
    using b pool_bound [OF assms(1)] unat_lt_32 [of "pool_base p"]
    by (subst unat_plus_no_overflow) (simp_all add: width_simps bitmap_size_def b_def)
  have range: "u \<le> v \<and> v < u + n \<longleftrightarrow> (\<exists>i < n. v = u + i)" for u v n :: nat
    by (auto intro: exI [of _ "v - u"])
  have "page_from_pool p x \<longleftrightarrow> b div 4096 \<le> unat x div 4096 \<and> unat x div 4096 < b div 4096 + npages p"
    unfolding page_from_pool_def Let_def word_le_nat_alt word_less_nat_alt lt unat_pg_no b_def ..
  also have "\<dots> \<longleftrightarrow> (\<exists>i < npages p. unat x div 4096 = b div 4096 + i)"
    using range [of "b div 4096"] .
  also have "\<dots> \<longleftrightarrow> (\<exists>i < npages p. unat x = b + 4096 * i)"
  proof (intro ex_cong1 conj_cong refl)
    fix i
    have "unat x = 4096 * (unat x div 4096) + unat x mod 4096" "b = 4096 * (b div 4096) + b mod 4096" by simp_all
    then have "unat x = 4096 * (unat x div 4096)" "b = 4096 * (b div 4096)" unfolding x b(1) by simp_all
    then show "unat x div 4096 = b div 4096 + i \<longleftrightarrow> unat x = b + 4096 * i" by linarith
  qed
  also have "\<dots> \<longleftrightarrow> x \<in> pool_pages p"
    unfolding pool_pages_def b_def image_iff Bex_def lessThan_iff unat_eq_iff
    by (intro ex_cong1 conj_cong refl) (simp add: page_at_unat [OF assms(1)])
  finally show ?thesis .
qed

lemma pool_used_pages: "pool_used p \<subseteq> pool_pages p"
  by (auto simp: pool_used_def pool_pages_def)

lemma pool_used_iff:
  "pool_wf p \<Longrightarrow> i < npages p \<Longrightarrow> page_at p i \<in> pool_used p \<longleftrightarrow> bval (used_map p) i"
  by (auto simp: pool_used_def page_at_inj)

lemma pool_used_update:
  assumes "pool_wf p" and "bit_cnt b = bit_cnt (used_map p)" and "i + n \<le> npages p"
    and "\<forall>j < npages p. bval b j = (if i \<le> j \<and> j < i + n then v else bval (used_map p) j)"
  shows "pool_used (p\<lparr>used_map := b\<rparr>)
    = (if v then pool_used p \<union> page_at p ` {i ..< i + n} else pool_used p - page_at p ` {i ..< i + n})"
proof (rule set_eqI)
  fix x
  have at: "page_at (p\<lparr>used_map := b\<rparr>) = page_at p" by (simp add: page_at_def fun_eq_iff)
  have "x \<in> pool_used (p\<lparr>used_map := b\<rparr>) \<longleftrightarrow> (\<exists>j < npages p. x = page_at p j \<and> (if i \<le> j \<and> j < i + n then v else bval (used_map p) j))"
    using assms(2,4) by (auto simp: pool_used_def at)
  also have "\<dots> \<longleftrightarrow> x \<in> (if v then pool_used p \<union> page_at p ` {i ..< i + n} else pool_used p - page_at p ` {i ..< i + n})"
  proof -
    have inj: "page_at p j = page_at p k \<Longrightarrow> j = k" if "j < npages p" "k < npages p" for j k
      using page_at_inj [OF assms(1) that] by simp
    have "x \<in> page_at p ` {i ..< i + n} \<longleftrightarrow> (\<exists>j < npages p. x = page_at p j \<and> i \<le> j \<and> j < i + n)"
      using assms(3) by force
    then show ?thesis
      unfolding pool_used_def if_distrib [where f = "\<lambda>S. x \<in> S"] Un_iff Diff_iff mem_Collect_eq
      by (cases v; simp only: if_True if_False if_bool_eq_conj simp_thms) (blast, blast dest: inj)
  qed
  finally show "x \<in> pool_used (p\<lparr>used_map := b\<rparr>) \<longleftrightarrow>
    x \<in> (if v then pool_used p \<union> page_at p ` {i ..< i + n} else pool_used p - page_at p ` {i ..< i + n})" .
qed

section \<open>Groups of pages\<close>

definition group_pages :: "pool \<Rightarrow> nat \<Rightarrow> nat \<Rightarrow> u32 set" where
  "group_pages p i n = page_at p ` {i ..< i + n}"

lemma group_pages_eq: "group_pages p i n = (\<lambda>k. page_at p (i + k)) ` {..< n}"
proof -
  have "{i ..< i + n} = (+) i ` {..< n}" by (simp add: lessThan_atLeast0 add.commute)
  then show ?thesis by (simp only: group_pages_def image_image)
qed

lemma group_area:
  assumes w: "pool_wf p" and le: "i + unat cnt \<le> npages p" and nz: "cnt \<noteq> 0"
  shows "a - page_at p i < PGSIZE * cnt \<longleftrightarrow> pg_round_down a \<in> group_pages p i (unat cnt)"
proof -
  have c: "0 < unat cnt" using nz by (simp add: unat_gt_0)
  define B where "B = unat (pool_base p) div 4096"
  have "unat (pool_base p) mod 4096 = 0" using w by (simp add: pool_wf_def frame_addr_iff)
  then have b: "unat (pool_base p) = 4096 * B" unfolding B_def by (metis add.right_neutral mult_div_mod_eq)
  have top: "4096 * B + 4096 * npages p \<le> 4294967296" using w by (simp add: pool_wf_def b)
  have at: "unat (page_at p j) = 4096 * B + 4096 * j" if "j < npages p" for j using page_at_unat [OF w that] b by simp
  have "unat (PGSIZE * cnt) = 4096 * unat cnt"
    using le pool_bound [OF w] by (subst unat_mult_no_overflow) (simp_all add: PGSIZE_eq)
  then have "a - page_at p i < PGSIZE * cnt \<longleftrightarrow> 4096 * (B + i) \<le> unat a \<and> unat a < 4096 * (B + i + unat cnt)"
    using at [of i] le c top unat_lt_32 [of a]
    by (auto simp: word_less_nat_alt unat_sub_if')
  also have "\<dots> \<longleftrightarrow> B + i \<le> unat a div 4096 \<and> unat a div 4096 < B + i + unat cnt"
    by (simp add: less_eq_div_iff_mult_less_eq div_less_iff_less_mult mult.commute)
  also have "\<dots> \<longleftrightarrow> (\<exists>j \<in> {i ..< i + unat cnt}. unat a div 4096 = B + j)"
    by (auto intro!: bexI [of _ "unat a div 4096 - B"])
  also have "\<dots> \<longleftrightarrow> (\<exists>j \<in> {i ..< i + unat cnt}. unat (pg_round_down a) = unat (page_at p j))"
    using at le by (intro bex_cong refl) (auto simp: unat_pg_round_down)
  also have "\<dots> \<longleftrightarrow> pg_round_down a \<in> group_pages p i (unat cnt)"
    unfolding group_pages_def image_iff by (simp add: unat_eq_iff)
  finally show ?thesis .
qed

lemma palloc_pool: "palloc_wf s \<Longrightarrow> pool_wf (get_pool u s)"
  by (simp add: palloc_wf_def get_pool_def)

lemma used_pool: "pool_used (get_pool u s) \<subseteq> used_pages s"
  by (auto simp: used_pages_def get_pool_def)

text \<open>Changing the bitmap of one pool in the area of a group.\<close>

lemma set_pool_spec:
  assumes w: "palloc_wf s" and p: "p = get_pool u s" and le: "i + n \<le> npages p"
    and b: "bm_inv b" "bit_cnt b = bit_cnt (used_map p)"
    and v: "\<forall>j < npages p. bval b j = (if i \<le> j \<and> j < i + n then v else bval (used_map p) j)"
  shows "palloc_wf (set_pool u (p\<lparr>used_map := b\<rparr>) s)"
    and "used_pages (set_pool u (p\<lparr>used_map := b\<rparr>) s)
      = (if v then used_pages s \<union> group_pages p i n else used_pages s - group_pages p i n)"
proof -
  have wp: "pool_wf p" using palloc_pool [OF w] p by simp
  have "page_at (p\<lparr>used_map := b\<rparr>) = page_at p" by (simp add: page_at_def fun_eq_iff)
  then have pp: "pool_pages (p\<lparr>used_map := b\<rparr>) = pool_pages p" by (simp add: pool_pages_def b(2))
  have pw: "pool_wf (p\<lparr>used_map := b\<rparr>)" using wp b by (simp add: pool_wf_def)
  show "palloc_wf (set_pool u (p\<lparr>used_map := b\<rparr>) s)"
    using w pp pw p unfolding palloc_wf_def by (cases u) (simp_all add: set_pool_def get_pool_def)
  have gp: "group_pages p i n \<subseteq> pool_pages p" using le by (auto simp: group_pages_def pool_pages_def)
  have "pool_used (get_pool (\<not> u) s) \<inter> pool_pages p = {}"
    using w p pool_used_pages [of "get_pool (\<not> u) s"] by (cases u) (auto simp: palloc_wf_def get_pool_def)
  then have other: "pool_used (get_pool (\<not> u) s) \<inter> group_pages p i n = {}" using gp by blast
  have un: "used_pages t = pool_used (get_pool u t) \<union> pool_used (get_pool (\<not> u) t)" for t :: "'a palloc_state_scheme"
    by (cases u) (auto simp: used_pages_def get_pool_def)
  have "get_pool u (set_pool u q s) = q" "get_pool (\<not> u) (set_pool u q s) = get_pool (\<not> u) s" for q
    by (simp_all add: get_pool_def set_pool_def)
  then show "used_pages (set_pool u (p\<lparr>used_map := b\<rparr>) s)
      = (if v then used_pages s \<union> group_pages p i n else used_pages s - group_pages p i n)"
    unfolding un using pool_used_update [OF wp b(2) le v] p other by (auto simp: group_pages_def)
qed

lemma memset_words_simps [simp]:
  "kernel_pool (memset_words d v n s) = kernel_pool s" "user_pool (memset_words d v n s) = user_pool s"
  "get_pool u (memset_words d v n s) = get_pool u s"
  "palloc_state.more (memset_words d v n s) = palloc_state.more s"
  "palloc_wf (memset_words d v n s) = palloc_wf s" "used_pages (memset_words d v n s) = used_pages s"
  by (simp_all add: memset_words_def get_pool_def palloc_wf_def used_pages_def)

lemma memset_words_mem: "pmem (memset_words d v n s) a = (if a - d < n then v * 0x01010101 else pmem s a)"
  by (simp add: memset_words_def)

lemma set_pool_frame [simp]:
  "pmem (set_pool u p s) = pmem s" "palloc_state.more (set_pool u p s) = palloc_state.more s"
  by (simp_all add: set_pool_def)

text \<open>The place and size of the pools never change.\<close>

definition same_pools :: "'a palloc_state_scheme \<Rightarrow> 'a palloc_state_scheme \<Rightarrow> bool" where
  "same_pools s s' \<longleftrightarrow> (\<forall>u. pool_base (get_pool u s') = pool_base (get_pool u s) \<and> npages (get_pool u s') = npages (get_pool u s))"

lemma same_pools_update:
  "bit_cnt b = bit_cnt (used_map (get_pool u s)) \<Longrightarrow> same_pools s (set_pool u (get_pool u s\<lparr>used_map := b\<rparr>) s)"
  "same_pools s (memset_words d v n s') = same_pools s s'"
  "same_pools (memset_words d v n s) s' = same_pools s s'"
  by (auto simp: same_pools_def get_pool_def set_pool_def)

lemma same_pools_page_at: "same_pools s s' \<Longrightarrow> page_at (get_pool u s') = page_at (get_pool u s)"
  by (simp add: same_pools_def page_at_def fun_eq_iff)

text \<open>What an allocation of \<^term>\<open>cnt\<close> pages does: it takes the first free group of the pool.\<close>

definition takes_group :: "u32 \<Rightarrow> nat \<Rightarrow> u32 \<Rightarrow> 'a palloc_state_scheme \<Rightarrow> 'a palloc_state_scheme \<Rightarrow> bool" where
  "takes_group flags i cnt s s' =
     (let p = get_pool (flags AND PAL_USER \<noteq> 0) s; G = group_pages p i (unat cnt)
      in group_at (used_map p) (unat cnt) False i \<and> (\<forall>j < i. \<not> group_at (used_map p) (unat cnt) False j)
         \<and> palloc_wf s' \<and> same_pools s s' \<and> used_pages s' = used_pages s \<union> G \<and> used_pages s \<inter> G = {}
         \<and> palloc_state.more s' = palloc_state.more s
         \<and> (\<forall>a. pmem s' a = (if flags AND PAL_ZERO \<noteq> 0 \<and> pg_round_down a \<in> G then 0 else pmem s a)))"

lemma group_fresh:
  assumes w: "palloc_wf s" and p: "p = get_pool u s" and g: "group_at (used_map p) n False i"
  shows "used_pages s \<inter> group_pages p i n = {}"
proof -
  have wp: "pool_wf p" using palloc_pool [OF w] p by simp
  have le: "i + n \<le> npages p" and f: "\<And>k. k < n \<Longrightarrow> \<not> bval (used_map p) (i + k)" using g by (auto simp: group_at_def)
  have "page_at p j \<notin> pool_used p" if "i \<le> j" "j < i + n" for j
    using pool_used_iff [OF wp, of j] f [of "j - i"] le that by simp
  then have "pool_used p \<inter> group_pages p i n = {}" by (auto simp: group_pages_def)
  moreover have "group_pages p i n \<subseteq> pool_pages p" using le by (auto simp: group_pages_def pool_pages_def)
  moreover have "pool_used (get_pool (\<not> u) s) \<inter> pool_pages p = {}"
    using w p pool_used_pages [of "get_pool (\<not> u) s"] by (cases u) (auto simp: palloc_wf_def get_pool_def)
  ultimately show ?thesis using p by (cases u) (auto simp: used_pages_def get_pool_def)
qed

lemma palloc_get_multiple_cases:
  assumes w: "palloc_wf s" and nz: "cnt \<noteq> 0" and p: "p = get_pool (flags AND PAL_USER \<noteq> 0) s"
  obtains (none) "\<forall>i. \<not> group_at (used_map p) (unat cnt) False i"
      "palloc_get_multiple flags cnt s = (if flags AND PAL_ASSERT = 0 then Some (0, s) else None)"
  | (found) i s' where "palloc_get_multiple flags cnt s = Some (page_at p i, s')" "takes_group flags i cnt s s'"
      "i + unat cnt \<le> npages p" "frame_addr (page_at p i)"
proof -
  let ?u = "flags AND PAL_USER \<noteq> 0"
  have wp: "pool_wf p" using palloc_pool [OF w] p by simp
  then have inv: "bm_inv (used_map p)" by (simp add: pool_wf_def)
  have z: "unat (0 :: u32) \<le> npages p" by simp
  show thesis
  proof (cases rule: bitmap_scan_and_flip_cases [OF inv nz z, of False])
    case 1
    moreover have "set_pool ?u p s = s" using p by (simp add: set_pool_def get_pool_def)
    ultimately show thesis
      by (intro none) (simp_all add: palloc_get_multiple_def nz p [symmetric] ASSERT_bind_eq)
  next
    case (2 i b)
    have le: "i + unat cnt \<le> npages p" using 2(2) by (simp add: group_at_def)
    have c: "0 < unat cnt" using nz by (simp add: unat_gt_0)
    have fr: "frame_addr (page_at p i)" using page_at_frame [OF wp] le c by simp
    let ?s = "set_pool ?u (p\<lparr>used_map := b\<rparr>) s"
    let ?s' = "if flags AND PAL_ZERO \<noteq> 0 then memset_words (page_at p i) 0 (PGSIZE * cnt) ?s else ?s"
    have "palloc_get_multiple flags cnt s = Some (page_at p i, ?s')"
      using 2(4,6) frame_nonzero [OF fr] by (simp add: palloc_get_multiple_def nz p [symmetric] page_at_def Let_def)
    moreover note sp = set_pool_spec [OF w p le 2(7,8), of True]
    have "takes_group flags i cnt s ?s'"
      unfolding takes_group_def Let_def p [symmetric]
      using 2(2,3,10) sp group_fresh [OF w p 2(2)] group_area [OF wp le nz] same_pools_update(1) [of b ?u s] 2(8)
      by (auto simp: memset_words_mem same_pools_update p)
    ultimately show thesis using found le fr by blast
  qed
qed

text \<open>Giving pages back: the call returns only if all of them are in use.\<close>

lemma contains_loop_range:
  "contains_loop b start v is = Some False \<Longrightarrow> \<forall>i \<in> set is. unat (start + of_nat i) < nbits b"
  by (induction "is") (auto simp: bitmap_test_def word_less_nat_alt panic_simps split: if_splits bind_splits)

lemma bitmap_all_range:
  assumes "bitmap_all b start cnt = Some True"
  shows "unat start + unat cnt \<le> nbits b"
proof (rule ccontr)
  assume "\<not> unat start + unat cnt \<le> nbits b"
  let ?i = "nbits b - unat start"
  have c: "start \<le> bit_cnt b" "contains_loop b start False [0..<unat cnt] = Some False"
    using assms by (auto simp: bitmap_all_def bitmap_contains_def panic_simps)
  then have st: "unat start \<le> nbits b" by (simp add: word_le_nat_alt)
  then have "unat (start + of_nat ?i) = nbits b"
    using unat_lt_32 [of "bit_cnt b"] unat_add_of_nat_32 [of start ?i] by simp
  moreover have "?i \<in> set [0..<unat cnt]" using \<open>\<not> _ \<le> _\<close> st by simp
  ultimately show False using contains_loop_range [OF c(2)] by (metis less_irrefl)
qed

definition gives_back :: "u32 set \<Rightarrow> 'a palloc_state_scheme \<Rightarrow> 'a palloc_state_scheme \<Rightarrow> bool" where
  "gives_back G s s' \<longleftrightarrow> palloc_wf s' \<and> same_pools s s' \<and> used_pages s' = used_pages s - G \<and> palloc_state.more s' = palloc_state.more s
     \<and> (\<forall>a. pmem s' a = (if pg_round_down a \<in> G then 0xcccccccc else pmem s a))"

lemma free_group:
  assumes w: "palloc_wf s" and p: "p = get_pool u s" and i: "i < npages p" and nz: "cnt \<noteq> 0"
  shows "if i + unat cnt \<le> npages p \<and> (\<forall>k < unat cnt. bval (used_map p) (i + k))
    then \<exists>s'. palloc_free_multiple (page_at p i) cnt s = Some s' \<and> gives_back (group_pages p i (unat cnt)) s s'
    else palloc_free_multiple (page_at p i) cnt s = None"
proof -
  have wp: "pool_wf p" using palloc_pool [OF w] p by simp
  then have inv: "bm_inv (used_map p)" by (simp add: pool_wf_def)
  note fr = page_at_frame [OF wp i]
  have ofs: "pg_ofs (page_at p i) = 0" using fr by (simp add: frame_addr_def)
  have "page_at p i \<in> pool_pages p" using i by (simp add: pool_pages_def)
  then have which: "(if page_from_pool (kernel_pool s) (page_at p i) then Some False
      else if page_from_pool (user_pool s) (page_at p i) then Some True else None) = Some u"
    using w p page_from_pool_iff [OF _ ofs, of "kernel_pool s"] page_from_pool_iff [OF _ ofs, of "user_pool s"]
    by (cases u) (auto simp: palloc_wf_def get_pool_def)
  let ?i = "pg_no (page_at p i) - pg_no (pool_base p)"
  have idx: "unat ?i = i" by (rule page_index [OF wp i])
  let ?s = "memset_words (page_at p i) 0xcc (PGSIZE * cnt) s"
  have eq: "palloc_free_multiple (page_at p i) cnt s = do {
      a \<leftarrow> bitmap_all (used_map p) ?i cnt;
      ASSERT a;
      b \<leftarrow> bitmap_set_multiple (used_map p) ?i cnt False;
      Some (set_pool u (p\<lparr>used_map := b\<rparr>) ?s) }"
    unfolding palloc_free_multiple_def which by (simp add: ofs nz frame_nonzero [OF fr] p [symmetric] Let_def)
  show ?thesis
  proof (cases "i + unat cnt \<le> npages p")
    case True
    then have all: "bitmap_all (used_map p) ?i cnt = Some (\<forall>k < unat cnt. bval (used_map p) (i + k))"
      using bitmap_contains_eq [OF inv, of ?i cnt False] by (simp add: bitmap_all_def idx)
    obtain b where b: "bitmap_set_multiple (used_map p) ?i cnt False = Some b" "bm_inv b" "bit_cnt b = bit_cnt (used_map p)"
        "\<forall>j < npages p. bval b j = (if i \<le> j \<and> j < i + unat cnt then False else bval (used_map p) j)"
      using bitmap_set_multiple_spec [OF inv, of ?i cnt False] True unfolding idx by blast
    have p': "p = get_pool u ?s" and w': "palloc_wf ?s" using p w by simp_all
    have "gives_back (group_pages p i (unat cnt)) s (set_pool u (p\<lparr>used_map := b\<rparr>) ?s)"
      using set_pool_spec [OF w' p' True b(2,3,4)] group_area [OF wp True nz]
        same_pools_update(1) [of b u ?s] b(3)
      by (simp add: gives_back_def memset_words_mem same_pools_update p)
    then show ?thesis using True all b(1) by (simp add: eq ASSERT_bind_eq)
  next
    case False
    then have "bitmap_all (used_map p) ?i cnt \<noteq> Some True" using bitmap_all_range idx by metis
    then show ?thesis using False unfolding eq by (cases "bitmap_all (used_map p) ?i cnt") auto
  qed
qed

text \<open>In terms of the set of pages in use.\<close>

lemma group_used_iff:
  assumes w: "palloc_wf s" and p: "p = get_pool u s" and le: "i + n \<le> npages p"
  shows "group_pages p i n \<subseteq> used_pages s \<longleftrightarrow> (\<forall>k < n. bval (used_map p) (i + k))"
proof -
  have wp: "pool_wf p" using palloc_pool [OF w] p by simp
  have dis: "pool_used (get_pool (\<not> u) s) \<inter> pool_pages p = {}"
    using w p pool_used_pages [of "get_pool (\<not> u) s"] by (cases u) (auto simp: palloc_wf_def get_pool_def)
  have un: "used_pages s = pool_used p \<union> pool_used (get_pool (\<not> u) s)"
    using p by (cases u) (auto simp: used_pages_def get_pool_def)
  have "page_at p (i + k) \<in> used_pages s \<longleftrightarrow> bval (used_map p) (i + k)" if "k < n" for k
  proof -
    have "page_at p (i + k) \<in> pool_pages p" using that le by (simp add: pool_pages_def)
    then show ?thesis using pool_used_iff [OF wp, of "i + k"] that le dis un by auto
  qed
  then show ?thesis unfolding group_pages_eq by auto
qed

lemma free_after:
  assumes w: "palloc_wf s" and nz: "cnt \<noteq> 0" and le: "i + unat cnt \<le> npages (get_pool u s)"
  shows "if group_pages (get_pool u s) i (unat cnt) \<subseteq> used_pages s
    then \<exists>s'. palloc_free_multiple (page_at (get_pool u s) i) cnt s = Some s'
           \<and> gives_back (group_pages (get_pool u s) i (unat cnt)) s s'
    else palloc_free_multiple (page_at (get_pool u s) i) cnt s = None"
proof -
  have "0 < unat cnt" using nz by (simp add: unat_gt_0)
  then have "i < npages (get_pool u s)" using le by simp
  from free_group [OF w refl this nz] group_used_iff [OF w refl le] le show ?thesis by (simp split: if_splits)
qed

lemma used_pages_frame: "palloc_wf s \<Longrightarrow> r \<in> used_pages s \<Longrightarrow> frame_addr r"
  by (auto simp: used_pages_def pool_used_def palloc_wf_def intro: page_at_frame)

lemma get_page_result:
  assumes "palloc_wf s" and "palloc_get_page flags s = Some (r, s')"
  obtains (none) "r = 0" "s' = s" | (page) "frame_addr r" "r \<notin> used_pages s" "palloc_wf s'"
      "used_pages s' = insert r (used_pages s)" "palloc_state.more s' = palloc_state.more s"
      "\<forall>a. pmem s' a = (if flags AND PAL_ZERO \<noteq> 0 \<and> pg_round_down a = r then 0 else pmem s a)"
proof (cases rule: palloc_get_multiple_cases [OF assms(1) _ refl, of 1 flags])
  case 2
  then show thesis using assms(2) none by (simp add: palloc_get_page_def split: if_splits)
next
  case (3 i s'')
  then have "r = page_at (get_pool (flags AND PAL_USER \<noteq> 0) s) i" "s'' = s'" using assms(2) by (simp_all add: palloc_get_page_def)
  then show thesis using 3 page by (simp add: takes_group_def Let_def group_pages_def)
qed simp

lemma get_page_returns:
  assumes "palloc_wf s" and "flags AND PAL_ASSERT = 0"
  shows "\<exists>r s'. palloc_get_page flags s = Some (r, s')"
  by (cases rule: palloc_get_multiple_cases [OF assms(1) _ refl, of 1 flags]) (use assms(2) in \<open>auto simp: palloc_get_page_def\<close>)

lemma free_page_result:
  assumes w: "palloc_wf s" and r: "r \<in> used_pages s"
  obtains s' where "palloc_free_page r s = Some s'" "gives_back {r} s s'"
proof -
  obtain u i where i: "r = page_at (get_pool u s) i" "i < npages (get_pool u s)" "bval (used_map (get_pool u s)) i"
    using r by (auto simp: used_pages_def pool_used_def) (metis get_pool_def)+
  then show thesis using free_group [OF w refl i(2), of 1] that
    by (auto simp: palloc_free_page_def group_pages_def)
qed

section \<open>Starting the allocator\<close>

lemma DIV_ROUND_UP_unat:
  "unat x + 4095 < 2 ^ 32 \<Longrightarrow> unat (DIV_ROUND_UP x PGSIZE) = (unat x + 4095) div 4096"
proof -
  assume "unat x + 4095 < 2 ^ 32"
  then have "unat (x + 4095) = unat x + 4095" by (simp add: unat_word_ariths)
  moreover have "x + 4096 - 1 = x + 4095" by simp
  ultimately show ?thesis by (simp only: DIV_ROUND_UP_def PGSIZE_eq unat_div) simp
qed

lemma buf_size_unat:
  assumes "unat n \<le> 262144"
  shows "unat (bitmap_buf_size n) = 8 + 4 * ((unat n + 31) div 32)"
proof -
  have e: "unat (elem_cnt n) = (unat n + 31) div 32" using assms by (intro unat_elem_cnt) simp
  have "(unat n + 31) div 32 \<le> 8192" using assms by simp
  then have "unat (4 * elem_cnt n) = 4 * ((unat n + 31) div 32)"
    by (subst unat_mult_no_overflow) (simp_all add: e)
  then show ?thesis using \<open>_ \<le> 8192\<close>
    by (simp add: bitmap_buf_size_def byte_cnt_def unat_plus_no_overflow)
qed

lemma bitmap_create_clear:
  assumes "unat n \<le> 262144" and "length block = unat (elem_cnt n)" and "unat (bitmap_buf_size n) \<le> unat sz"
  shows "\<exists>b. bitmap_create_in_buf n block sz = Some b \<and> bm_inv b \<and> bit_cnt b = n \<and> (\<forall>j < nbits b. \<not> bval b j)"
proof -
  let ?b = "\<lparr>bit_cnt = n, bits = block\<rparr>"
  have "unat (elem_cnt n) = (unat n + 31) div 32" using assms(1) by (intro unat_elem_cnt) simp
  then have "bm_inv ?b" using assms(2) by (simp add: bm_inv_def)
  then show ?thesis
    using bitmap_set_multiple_spec [of ?b 0 n False] assms(3)
    by (auto simp: bitmap_create_in_buf_def bitmap_set_all_def bitmap_size_def word_le_nat_alt)
qed

lemma init_pool_spec:
  assumes n: "0 < unat n" "unat n \<le> 262144" and b: "frame_addr base" "unat base + 4096 * unat n < 2 ^ 32"
  shows "\<exists>p. init_pool base n s = Some p \<and> pool_wf p \<and> pool_used p = {}
     \<and> unat base + 4096 \<le> unat (pool_base p) \<and> unat (pool_base p) + 4096 * npages p = unat base + 4096 * unat n"
proof -
  define kw where "kw = DIV_ROUND_UP (bitmap_buf_size n) PGSIZE"
  define k where "k = (unat (bitmap_buf_size n) + 4095) div 4096"
  have bs: "unat (bitmap_buf_size n) = 8 + 4 * ((unat n + 31) div 32)" using buf_size_unat [OF n(2)] .
  have "(unat n + 31) div 32 \<le> 8192" using n(2) by simp
  then have uk: "unat kw = k" unfolding k_def kw_def using bs by (intro DIV_ROUND_UP_unat) simp
  have kb: "1 \<le> k" "k \<le> unat n"
    using n(1) unfolding k_def bs by (simp_all add: less_eq_div_iff_mult_less_eq)
  define m where "m = n - kw"
  have un: "unat m = unat n - k" using uk kb(2) by (simp add: m_def unat_minus_no_underflow)
  have ukp: "unat (kw * PGSIZE) = 4096 * k"
    using uk kb(2) n(2) by (subst unat_mult_no_overflow) (simp_all add: PGSIZE_eq)
  have "unat (bitmap_buf_size n) \<le> 4096 * k"
    unfolding k_def using mult_div_mod_eq [of 4096 "unat (bitmap_buf_size n) + 4095"]
      mod_less_divisor [of 4096 "unat (bitmap_buf_size n) + 4095"] by linarith
  moreover have m: "unat m \<le> 262144" using un n(2) by simp
  moreover have "unat (bitmap_buf_size m) \<le> unat (bitmap_buf_size n)"
    using buf_size_unat [OF m] unfolding bs un by (simp add: div_le_mono)
  ultimately obtain bm where bm: "bitmap_create_in_buf m (bitmap_words base m s) (kw * PGSIZE) = Some bm"
      "bm_inv bm" "bit_cnt bm = m" "\<forall>j < nbits bm. \<not> bval bm j"
    using bitmap_create_clear [OF m, of "bitmap_words base m s" "kw * PGSIZE"]
    unfolding ukp bitmap_words_def length_map length_upt by auto
  let ?p = "\<lparr>used_map = bm, pool_base = base + kw * PGSIZE\<rparr>"
  have "init_pool base n s = Some ?p"
    using bm(1) kb(2) by (simp add: init_pool_def Let_def word_less_nat_alt uk kw_def [symmetric] m_def [symmetric])
  moreover have pb: "unat (base + kw * PGSIZE) = unat base + 4096 * k"
    using b(2) kb(2) ukp by (subst unat_plus_no_overflow) simp_all
  have "frame_addr (base + kw * PGSIZE)"
    using b(1) unfolding frame_addr_iff pb by (auto simp: mod_add_left_eq [symmetric])
  then have "pool_wf ?p" using bm(2,3) b(2) kb(2) by (simp add: pool_wf_def pb un diff_mult_distrib2)
  moreover have "pool_used ?p = {}" using bm(4) by (simp add: pool_used_def)
  ultimately show ?thesis using kb bm(3) by (auto simp: pb un diff_mult_distrib2)
qed

text \<open>The pages above the first megabyte, and the share of them that the user pool gets.\<close>

definition free_page_cnt :: "u32 \<Rightarrow> nat" where
  "free_page_cnt init_ram_pages = unat init_ram_pages - 256"

definition user_page_cnt :: "u32 \<Rightarrow> u32 \<Rightarrow> nat" where
  "user_page_cnt init_ram_pages limit = min (free_page_cnt init_ram_pages div 2) (unat limit)"

lemma palloc_init_unfold:
  assumes r: "258 \<le> unat init_ram_pages" "unat init_ram_pages < 262144" and l: "limit \<noteq> 0"
  obtains f u :: u32 where "unat f = free_page_cnt init_ram_pages" "unat u = user_page_cnt init_ram_pages limit"
    "unat (f - u) = unat f - unat u" "0 < unat u" "unat u < unat f" "unat f < 261888"
    "palloc_init init_ram_pages limit s = do {
       kp \<leftarrow> init_pool 3222274048 (f - u) s;
       up \<leftarrow> init_pool (3222274048 + (f - u) * PGSIZE) u (s\<lparr>kernel_pool := kp\<rparr>);
       Some (s\<lparr>kernel_pool := kp, user_pool := up\<rparr>) }"
proof -
  define f where "f = (init_ram_pages * PGSIZE - 1048576) div PGSIZE"
  define u where "u = (if f div 2 > limit then limit else f div 2)"
  have lim: "0 < unat limit" using l by (simp add: unat_gt_0)
  have rp: "unat (init_ram_pages * PGSIZE) = 4096 * unat init_ram_pages"
    using r(2) by (subst unat_mult_no_overflow) (simp_all add: PGSIZE_eq)
  then have "unat (init_ram_pages * PGSIZE - 1048576) = 4096 * free_page_cnt init_ram_pages"
    using r(1) by (subst unat_minus_no_underflow) (simp_all add: free_page_cnt_def diff_mult_distrib2)
  then have uf: "unat f = free_page_cnt init_ram_pages" by (simp add: f_def unat_div PGSIZE_eq)
  then have uu: "unat u = user_page_cnt init_ram_pages limit"
    by (auto simp: u_def user_page_cnt_def unat_div word_less_nat_alt)
  have b: "0 < unat u" "unat u < unat f" "unat f < 261888"
    unfolding uf uu using r lim by (auto simp: free_page_cnt_def user_page_cnt_def)
  have "ptov (1024 * 1024) = Some 3222274048" by (simp add: ptov_def PHYS_BASE_def)
  moreover have "ptov (init_ram_pages * PGSIZE) = Some (init_ram_pages * PGSIZE + PHYS_BASE)"
    using r(2) by (simp add: ptov_def word_less_nat_alt rp) (simp add: PHYS_BASE_def)
  moreover have "(init_ram_pages * PGSIZE + PHYS_BASE - 3222274048) div PGSIZE = f"
    by (simp add: f_def PHYS_BASE_def)
  ultimately have eq: "palloc_init init_ram_pages limit s = do {
       kp \<leftarrow> init_pool 3222274048 (f - u) s;
       up \<leftarrow> init_pool (3222274048 + (f - u) * PGSIZE) u (s\<lparr>kernel_pool := kp\<rparr>);
       Some (s\<lparr>kernel_pool := kp, user_pool := up\<rparr>) }"
    by (simp add: palloc_init_def Let_def u_def)
  show thesis using that [OF uf uu _ b eq] b(2) unat_minus_no_underflow [of u f] by simp
qed

lemma pool_pages_bounds:
  "pool_wf p \<Longrightarrow> x \<in> pool_pages p \<Longrightarrow> unat (pool_base p) \<le> unat x \<and> unat x < unat (pool_base p) + 4096 * npages p"
  by (auto simp: pool_pages_def page_at_unat)

lemma palloc_init_spec:
  assumes r: "258 \<le> unat init_ram_pages" "unat init_ram_pages < 262144" and l: "limit \<noteq> 0"
  shows "\<exists>s'. palloc_init init_ram_pages limit s = Some s' \<and> palloc_wf s' \<and> used_pages s' = {} \<and> pmem s' = pmem s
     \<and> npages (user_pool s') < unat limit \<and> 3222274048 < unat (pool_base (kernel_pool s'))
     \<and> unat (pool_base (user_pool s')) + 4096 * npages (user_pool s') = 3221225472 + 4096 * unat init_ram_pages"
proof -
  obtain f u :: u32 where fu: "unat f = free_page_cnt init_ram_pages" "unat u = user_page_cnt init_ram_pages limit"
    "unat (f - u) = unat f - unat u" "0 < unat u" "unat u < unat f" "unat f < 261888" and
    eq: "palloc_init init_ram_pages limit s = do {
       kp \<leftarrow> init_pool 3222274048 (f - u) s;
       up \<leftarrow> init_pool (3222274048 + (f - u) * PGSIZE) u (s\<lparr>kernel_pool := kp\<rparr>);
       Some (s\<lparr>kernel_pool := kp, user_pool := up\<rparr>) }"
    by (rule palloc_init_unfold [OF r l])
  have "frame_addr 3222274048" by (simp add: frame_addr_iff)
  then obtain kp where kp: "init_pool 3222274048 (f - u) s = Some kp" "pool_wf kp" "pool_used kp = {}"
      "3222274048 + 4096 \<le> unat (pool_base kp)" "unat (pool_base kp) + 4096 * npages kp = 3222274048 + 4096 * (unat f - unat u)"
    using init_pool_spec [of "f - u" 3222274048 s] fu(3-6) less_imp_diff_less [OF fu(6), of "unat u"] by auto
  define ub where "ub = 3222274048 + (f - u) * PGSIZE"
  have kk: "unat ((f - u) * PGSIZE) = 4096 * (unat f - unat u)"
    using fu(3,6) by (subst unat_mult_no_overflow) (simp_all add: PGSIZE_eq)
  have ub: "unat ub = 3222274048 + 4096 * (unat f - unat u)"
    unfolding ub_def using kk fu(6) by (subst unat_plus_no_overflow) simp_all
  have lt: "4096 * (unat f - unat u) + 4096 * unat u < 1072693248" using fu(5,6) by (simp add: diff_mult_distrib2)
  have "frame_addr ub" unfolding frame_addr_iff ub by (simp add: mod_add_left_eq [symmetric])
  then obtain up where up: "init_pool ub u (s\<lparr>kernel_pool := kp\<rparr>) = Some up" "pool_wf up" "pool_used up = {}"
      "unat ub + 4096 \<le> unat (pool_base up)" "unat (pool_base up) + 4096 * npages up = unat ub + 4096 * unat u"
    using init_pool_spec [of u ub "s\<lparr>kernel_pool := kp\<rparr>"] ub fu(4-6) lt by auto
  have "x \<notin> pool_pages up" if "x \<in> pool_pages kp" for x
    using pool_pages_bounds [OF kp(2) that] pool_pages_bounds [OF up(2), of x] kp(5) up(4) ub by auto
  then have "palloc_wf (s\<lparr>kernel_pool := kp, user_pool := up\<rparr>)" using kp(2) up(2) by (auto simp: palloc_wf_def)
  moreover have "npages up < unat limit"
  proof -
    have "4096 * npages up + 4096 \<le> 4096 * unat u" using up(4,5) by linarith
    moreover have "unat u \<le> unat limit" using fu(2) by (simp add: user_page_cnt_def)
    ultimately show ?thesis by linarith
  qed
  moreover have "3222274048 + 4096 * unat f = 3221225472 + 4096 * unat init_ram_pages"
    using fu(1) r(1) by (simp add: free_page_cnt_def diff_mult_distrib2)
  ultimately show ?thesis
    using kp up ub fu(5) eq by (auto simp: used_pages_def ub_def diff_mult_distrib2)
qed

section \<open>Properties\<close>

text \<open>
  C33. An allocation of a positive number of pages from either pool never fails an assertion of the bitmap. If the pool has a
  group of that many free contiguous pages, the first such group is returned: its pages become used and were not used
  before, they are zero if the caller asked for that, and no other word of memory and no other page changes. If there is no
  such group the result is the null pointer and the state is unchanged, or a panic under \<^verbatim>\<open>PAL_ASSERT\<close>.
\<close>

theorem palloc_get_multiple_first_fit:
  assumes "palloc_wf s" and "cnt \<noteq> 0"
  shows "let p = get_pool (flags AND PAL_USER \<noteq> 0) s in
     (\<exists>i s'. palloc_get_multiple flags cnt s = Some (page_at p i, s') \<and> takes_group flags i cnt s s')
   \<or> (\<forall>i. \<not> group_at (used_map p) (unat cnt) False i)
      \<and> palloc_get_multiple flags cnt s = (if flags AND PAL_ASSERT = 0 then Some (0, s) else None)"
  unfolding Let_def by (cases rule: palloc_get_multiple_cases [OF assms refl, of flags]) blast+

definition palloc_ex :: palloc_state where
  "palloc_ex = \<lparr>kernel_pool = \<lparr>used_map = \<lparr>bit_cnt = 5, bits = [5]\<rparr>, pool_base = 0xc0101000\<rparr>,
     user_pool = \<lparr>used_map = \<lparr>bit_cnt = 2, bits = [3]\<rparr>, pool_base = 0xc0108000\<rparr>, pmem = (\<lambda>a. a)\<rparr>"

lemma palloc_ex_wf: "palloc_wf palloc_ex"
proof -
  have "pool_wf (kernel_pool palloc_ex)" "pool_wf (user_pool palloc_ex)"
    by (simp_all add: palloc_ex_def pool_wf_def bm_inv_def frame_addr_iff)
  moreover from this have "pool_pages (kernel_pool palloc_ex) \<inter> pool_pages (user_pool palloc_ex) = {}"
    using pool_pages_bounds [of "kernel_pool palloc_ex"] pool_pages_bounds [of "user_pool palloc_ex"]
    by (fastforce simp: palloc_ex_def)
  ultimately show ?thesis by (simp add: palloc_wf_def)
qed

theorem palloc_get_multiple_first_fit_witness:
  "palloc_wf palloc_ex \<and> map_option fst (palloc_get_multiple PAL_ZERO 2 palloc_ex) = Some 0xc0104000
   \<and> (\<exists>s' i. takes_group PAL_ZERO i 2 palloc_ex s') \<and> palloc_get_multiple (PAL_USER OR PAL_ASSERT) 1 palloc_ex = None"
proof -
  have v: "map_option fst (palloc_get_multiple PAL_ZERO 2 palloc_ex) = Some 0xc0104000"
    "palloc_get_multiple (PAL_USER OR PAL_ASSERT) 1 palloc_ex = None"
    by (code_simp, code_simp)
  moreover have "PAL_ZERO AND PAL_ASSERT = 0" by code_simp
  ultimately show ?thesis
    using palloc_get_multiple_first_fit [OF palloc_ex_wf, of 2 PAL_ZERO] palloc_ex_wf by (auto simp: Let_def)
qed

text \<open>
  C34. Freeing a group of pages that an allocation has returned succeeds, and makes the set of used pages what it was before
  the allocation. Freeing it a second time panics.
\<close>

theorem palloc_free_after_get:
  assumes "palloc_wf s" and "palloc_get_multiple flags cnt s = Some (pages, s1)" and "pages \<noteq> 0"
  shows "\<exists>s2. palloc_free_multiple pages cnt s1 = Some s2 \<and> palloc_wf s2 \<and> used_pages s2 = used_pages s
     \<and> palloc_free_multiple pages cnt s2 = None"
proof -
  have nz: "cnt \<noteq> 0" using assms(2,3) by (auto simp: palloc_get_multiple_def Let_def)
  let ?u = "flags AND PAL_USER \<noteq> 0"
  show ?thesis
  proof (cases rule: palloc_get_multiple_cases [OF assms(1) nz refl, of flags])
    case 1
    then show ?thesis using assms(2,3) by (simp split: if_splits)
  next
    case (2 i s')
    let ?p = "get_pool ?u s" and ?G = "group_pages (get_pool ?u s) i (unat cnt)"
    have r: "pages = page_at ?p i" "s' = s1" using 2(1) assms(2) by simp_all
    have t: "palloc_wf s1" "same_pools s s1" "used_pages s1 = used_pages s \<union> ?G" "used_pages s \<inter> ?G = {}"
      using 2(2) r(2) by (simp_all add: takes_group_def Let_def)
    have np: "i + unat cnt \<le> npages (get_pool ?u s1)" using t(2) 2(3) by (simp add: same_pools_def)
    have G1: "group_pages (get_pool ?u s1) i (unat cnt) = ?G" "page_at (get_pool ?u s1) i = pages"
      using same_pools_page_at [OF t(2)] r(1) by (simp_all add: group_pages_def)
    obtain s2 where s2: "palloc_free_multiple pages cnt s1 = Some s2" "gives_back ?G s1 s2"
      using free_after [OF t(1) nz np] t(3) unfolding G1 by auto
    then have g: "palloc_wf s2" "same_pools s1 s2" "used_pages s2 = used_pages s" using t(3,4) by (auto simp: gives_back_def)
    have G2: "group_pages (get_pool ?u s2) i (unat cnt) = ?G" "page_at (get_pool ?u s2) i = pages"
      "i + unat cnt \<le> npages (get_pool ?u s2)"
      using same_pools_page_at [OF g(2)] G1 np g(2) by (simp_all add: group_pages_def same_pools_def)
    have "pages \<in> ?G" using nz r(1) by (simp add: group_pages_def unat_gt_0)
    then have "\<not> ?G \<subseteq> used_pages s2" using t(4) g(3) by blast
    then have "palloc_free_multiple pages cnt s2 = None"
      using free_after [OF g(1) nz G2(3)] unfolding G2(1,2) by simp
    then show ?thesis using s2 g by blast
  qed
qed

theorem palloc_free_after_get_witness:
  "\<exists>s1 s2. palloc_get_multiple PAL_ZERO 2 palloc_ex = Some (0xc0104000, s1) \<and> palloc_free_multiple 0xc0104000 2 s1 = Some s2
     \<and> used_pages s2 = used_pages palloc_ex \<and> palloc_free_multiple 0xc0104000 2 s2 = None"
proof -
  have "map_option fst (palloc_get_multiple PAL_ZERO 2 palloc_ex) = Some 0xc0104000" by code_simp
  then obtain s1 where "palloc_get_multiple PAL_ZERO 2 palloc_ex = Some (0xc0104000, s1)" by auto
  with palloc_free_after_get [OF palloc_ex_wf this] show ?thesis by auto
qed



end
