(* ===== verification/Block_Alloc.thy ===== *)
theory Block_Alloc
  imports Page_Alloc
begin

text \<open>
  The block allocator, \<^verbatim>\<open>threads/malloc.c\<close>, on top of the page allocator. The headers of arenas are words of the memory that the
  page allocator hands out: \<^verbatim>\<open>magic\<close> at offset 0, \<^verbatim>\<open>desc\<close> at offset 4, \<^verbatim>\<open>free_cnt\<close> at offset 8. The free list of a descriptor is the
  sequence of its blocks (theory \<^verbatim>\<open>Linked_List\<close> shows that the pointer structures implement the operations on sequences); the
  links inside free blocks and the locks of descriptors are left out.
\<close>

section \<open>Definitions\<close>

record desc =
  block_size :: u32
  blocks_per_arena :: u32
  free_list :: "u32 list"

record malloc_state = palloc_state +
  descs :: "desc list"
  desc_cnt :: nat
  descs_at :: u32

definition ARENA_MAGIC :: u32 where "ARENA_MAGIC = 0x9a548eed"

text \<open>\<^verbatim>\<open>sizeof (struct arena)\<close>, and \<^verbatim>\<open>sizeof (struct desc)\<close>: two words, a list of two elements and a lock.\<close>

definition ARENA_SIZE :: u32 where "ARENA_SIZE = 12"
definition DESC_SIZE :: u32 where "DESC_SIZE = 56"

definition desc_ptr :: "nat \<Rightarrow> 'a malloc_state_scheme \<Rightarrow> u32" where
  "desc_ptr i s = descs_at s + DESC_SIZE * of_nat i"

text \<open>The descriptor that a pointer points to; any other pointer is a wild access.\<close>

definition desc_index :: "u32 \<Rightarrow> 'a malloc_state_scheme \<Rightarrow> nat option" where
  "desc_index d s = do {
     let i = unat ((d - descs_at s) div DESC_SIZE);
     ASSERT (i < length (descs s) \<and> d = desc_ptr i s);
     Some i
   }"

function malloc_init_loop :: "nat \<Rightarrow> 'a malloc_state_scheme \<Rightarrow> 'a malloc_state_scheme option" where
  "malloc_init_loop bsize s =
     (if 0 < bsize \<and> bsize < 2048 then do {
        let i = desc_cnt s;
        let s = s\<lparr>desc_cnt := i + 1\<rparr>;
        ASSERT (desc_cnt s \<le> length (descs s));
        malloc_init_loop (bsize * 2)
          (s\<lparr>descs := (descs s)[i := \<lparr>block_size = of_nat bsize,
               blocks_per_arena = (PGSIZE - ARENA_SIZE) div of_nat bsize, free_list = []\<rparr>]\<rparr>)
      } else Some s)"
  by auto
termination by (relation "measure (\<lambda>(bsize, _). 2048 - bsize)") auto

definition malloc_init :: "'a malloc_state_scheme \<Rightarrow> 'a malloc_state_scheme option" where
  "malloc_init s = malloc_init_loop 16 s"

definition block_to_arena :: "u32 \<Rightarrow> 'a malloc_state_scheme \<Rightarrow> u32 option" where
  "block_to_arena b s = do {
     let a = pg_round_down b;
     ASSERT (a \<noteq> 0);
     ASSERT (pmem s a = ARENA_MAGIC);
     let d = pmem s (a + 4);
     (if d \<noteq> 0 then do {
        i \<leftarrow> desc_index d s;
        ASSERT ((pg_ofs b - ARENA_SIZE) mod block_size (descs s ! i) = 0)
      } else Some ());
     ASSERT (d \<noteq> 0 \<or> pg_ofs b = ARENA_SIZE);
     Some a
   }"

definition arena_to_block :: "u32 \<Rightarrow> u32 \<Rightarrow> 'a malloc_state_scheme \<Rightarrow> u32 option" where
  "arena_to_block a idx s = do {
     ASSERT (a \<noteq> 0);
     ASSERT (pmem s a = ARENA_MAGIC);
     i \<leftarrow> desc_index (pmem s (a + 4)) s;
     ASSERT (idx < blocks_per_arena (descs s ! i));
     Some (a + ARENA_SIZE + idx * block_size (descs s ! i))
   }"

definition upd_desc :: "nat \<Rightarrow> (u32 list \<Rightarrow> u32 list) \<Rightarrow> 'a malloc_state_scheme \<Rightarrow> 'a malloc_state_scheme" where
  "upd_desc i f s = s\<lparr>descs := (descs s)[i := (descs s ! i)\<lparr>free_list := f (free_list (descs s ! i))\<rparr>]\<rparr>"

definition set_arena :: "u32 \<Rightarrow> u32 \<Rightarrow> u32 \<Rightarrow> 'a malloc_state_scheme \<Rightarrow> 'a malloc_state_scheme" where
  "set_arena a d cnt s = s\<lparr>pmem := (pmem s)(a := ARENA_MAGIC, a + 4 := d, a + 8 := cnt)\<rparr>"

text \<open>The search for the smallest descriptor that satisfies a request; \<^verbatim>\<open>desc_cnt\<close> if there is none.\<close>

definition find_desc :: "u32 \<Rightarrow> 'a malloc_state_scheme \<Rightarrow> nat" where
  "find_desc sz s = length (takeWhile (\<lambda>d. \<not> block_size d \<ge> sz) (take (desc_cnt s) (descs s)))"

definition malloc_big :: "u32 \<Rightarrow> 'a malloc_state_scheme \<Rightarrow> (u32 \<times> 'a malloc_state_scheme) option" where
  "malloc_big sz s = do {
     let page_cnt = DIV_ROUND_UP (sz + ARENA_SIZE) PGSIZE;
     (a, s) \<leftarrow> palloc_get_multiple 0 page_cnt s;
     if a = 0 then Some (0, s) else Some (a + ARENA_SIZE, set_arena a 0 page_cnt s)
   }"

text \<open>A new arena for descriptor \<^term>\<open>i\<close>, with all its blocks on the free list; the result tells whether there was a page.\<close>

definition new_arena :: "nat \<Rightarrow> 'a malloc_state_scheme \<Rightarrow> (bool \<times> 'a malloc_state_scheme) option" where
  "new_arena i s = do {
     (a, s) \<leftarrow> palloc_get_page 0 s;
     if a = 0 then Some (False, s)
     else do {
       let n = blocks_per_arena (descs s ! i);
       let s = set_arena a (desc_ptr i s) n s;
       s \<leftarrow> foldM (\<lambda>k s. do { b \<leftarrow> arena_to_block a (of_nat k) s; Some (upd_desc i (\<lambda>fl. fl @ [b]) s) }) [0..<unat n] s;
       Some (True, s)
     }
   }"

definition malloc :: "u32 \<Rightarrow> 'a malloc_state_scheme \<Rightarrow> (u32 \<times> 'a malloc_state_scheme) option" where
  "malloc sz s =
     (if sz = 0 then Some (0, s)
      else (let i = find_desc sz s
            in if i = desc_cnt s then malloc_big sz s
               else do {
                 (ok, s) \<leftarrow> (if free_list (descs s ! i) = [] then new_arena i s else Some (True, s));
                 if \<not> ok then Some (0, s)
                 else (case free_list (descs s ! i) of
                         [] \<Rightarrow> None
                       | b # _ \<Rightarrow> do {
                           let s = upd_desc i tl s;
                           a \<leftarrow> block_to_arena b s;
                           Some (b, s\<lparr>pmem := (pmem s)(a + 8 := pmem s (a + 8) - 1)\<rparr>)
                         })
               }))"

text \<open>\<^verbatim>\<open>memset\<close> and \<^verbatim>\<open>memcpy\<close> of bytes, seen on words: the last word may be touched in part. Words are little-endian.\<close>

definition splice_bytes :: "nat \<Rightarrow> u32 \<Rightarrow> u32 \<Rightarrow> u32" where
  "splice_bytes n new_word old_word =
     (if n \<ge> 4 then new_word else (new_word AND mask (8 * n)) OR (old_word AND NOT (mask (8 * n))))"

definition memset_bytes :: "u32 \<Rightarrow> u32 \<Rightarrow> u32 \<Rightarrow> 'a malloc_state_scheme \<Rightarrow> 'a malloc_state_scheme" where
  "memset_bytes dst value n s =
     s\<lparr>pmem := (\<lambda>a. if a - dst < n then splice_bytes (unat (n - (a - dst))) (value * 0x01010101) (pmem s a) else pmem s a)\<rparr>"

definition memcpy_bytes :: "u32 \<Rightarrow> u32 \<Rightarrow> u32 \<Rightarrow> 'a malloc_state_scheme \<Rightarrow> 'a malloc_state_scheme" where
  "memcpy_bytes dst src n s =
     s\<lparr>pmem := (\<lambda>a. if a - dst < n then splice_bytes (unat (n - (a - dst))) (pmem s (src + (a - dst))) (pmem s a) else pmem s a)\<rparr>"

definition calloc :: "u32 \<Rightarrow> u32 \<Rightarrow> 'a malloc_state_scheme \<Rightarrow> (u32 \<times> 'a malloc_state_scheme) option" where
  "calloc a b s =
     (let sz = a * b
      in if sz < a \<or> sz < b then Some (0, s)
         else do {
           (p, s) \<leftarrow> malloc sz s;
           Some (p, if p \<noteq> 0 then memset_bytes p 0 sz s else s)
         })"

definition block_size_of :: "u32 \<Rightarrow> 'a malloc_state_scheme \<Rightarrow> u32 option" where
  "block_size_of b s = do {
     a \<leftarrow> block_to_arena b s;
     let d = pmem s (a + 4);
     if d \<noteq> 0 then do { i \<leftarrow> desc_index d s; Some (block_size (descs s ! i)) }
     else Some (PGSIZE * pmem s (a + 8) - pg_ofs b)
   }"

text \<open>\<^verbatim>\<open>list_remove\<close> of an element that is in no list corrupts memory: the model stops there.\<close>

definition free :: "u32 \<Rightarrow> 'a malloc_state_scheme \<Rightarrow> 'a malloc_state_scheme option" where
  "free p s =
     (if p = 0 then Some s
      else do {
        a \<leftarrow> block_to_arena p s;
        let d = pmem s (a + 4);
        if d \<noteq> 0 then do {
          i \<leftarrow> desc_index d s;
          let n = blocks_per_arena (descs s ! i);
          let s = memset_words p 0xcc (block_size (descs s ! i)) s;
          let s = upd_desc i ((#) p) s;
          let s = s\<lparr>pmem := (pmem s)(a + 8 := pmem s (a + 8) + 1)\<rparr>;
          if pmem s (a + 8) \<ge> n then do {
            ASSERT (pmem s (a + 8) = n);
            s \<leftarrow> foldM (\<lambda>k s. do {
                   b \<leftarrow> arena_to_block a (of_nat k) s;
                   ASSERT (b \<in> set (free_list (descs s ! i)));
                   Some (upd_desc i (remove1 b) s)
                 }) [0..<unat n] s;
            palloc_free_page a s
          } else Some s
        } else palloc_free_multiple a (pmem s (a + 8)) s
      })"

definition realloc :: "u32 \<Rightarrow> u32 \<Rightarrow> 'a malloc_state_scheme \<Rightarrow> (u32 \<times> 'a malloc_state_scheme) option" where
  "realloc old_block new_size s =
     (if new_size = 0 then do { s \<leftarrow> free old_block s; Some (0, s) }
      else do {
        (new_block, s) \<leftarrow> malloc new_size s;
        if old_block \<noteq> 0 \<and> new_block \<noteq> 0 then do {
          old_size \<leftarrow> block_size_of old_block s;
          let min_size = (if new_size < old_size then new_size else old_size);
          s \<leftarrow> free old_block (memcpy_bytes new_block old_block min_size s);
          Some (new_block, s)
        } else Some (new_block, s)
      })"

end
