(* ===== verification/Block_Heap.thy ===== *)
theory Block_Heap
  imports Block_Alloc
begin

text \<open>
  The invariant of the block allocator's heap: arenas and big blocks in pages of the page allocator, their headers, and the free
  lists of the descriptors; and what taking, returning, adding and removing blocks and arenas does to it.
\<close>

section \<open>Geometry of arenas\<close>

definition bsz :: "nat \<Rightarrow> nat" where "bsz i = 16 * 2 ^ i"
definition bpa :: "nat \<Rightarrow> nat" where "bpa i = 4084 div bsz i"

definition slot :: "u32 \<Rightarrow> nat \<Rightarrow> nat \<Rightarrow> u32" where
  "slot a i k = a + 12 + of_nat (k * bsz i)"

lemma bsz_pos [simp]: "0 < bsz i" and bsz_dvd: "4 dvd bsz i"
  by (simp_all add: bsz_def)

lemma slot_bound: "k < bpa i \<Longrightarrow> 12 + k * bsz i + bsz i \<le> 4096"
proof -
  assume "k < bpa i"
  then have "(k + 1) * bsz i \<le> bpa i * bsz i" by (intro mult_right_mono) simp_all
  also have "\<dots> \<le> 4084" by (simp add: bpa_def div_times_less_eq_dividend)
  finally show ?thesis by simp
qed

lemma frame_bound: "frame_addr a \<Longrightarrow> unat a + 4096 \<le> 2 ^ 32"
proof -
  assume "frame_addr a"
  then have "unat a mod 4096 = 0" by (simp add: frame_addr_iff)
  then have "unat a = 4096 * (unat a div 4096)" by (metis add.right_neutral mult_div_mod_eq)
  moreover have "unat a div 4096 < 1048576" using unat_lt_32 [of a] by (simp add: less_mult_imp_div_less)
  ultimately have "unat a + 4096 \<le> 4294967296" by linarith
  then show ?thesis by simp
qed

lemma unat_offset: "frame_addr a \<Longrightarrow> n < 4096 \<Longrightarrow> unat (a + of_nat n) = unat a + n"
  by (rule unat_add_of_nat_32) (use frame_bound [of a] in simp)

lemma slot_offset: "slot a i k = a + of_nat (12 + k * bsz i)"
  by (simp add: slot_def)

lemma slot_unat:
  assumes "frame_addr a" "k < bpa i"
  shows "unat (slot a i k) = unat a + (12 + k * bsz i)"
proof -
  have "12 + k * bsz i < 4096" using slot_bound [OF assms(2)] bsz_pos [of i] by linarith
  then show ?thesis unfolding slot_offset by (rule unat_offset [OF assms(1)])
qed

lemma offset_page:
  assumes "frame_addr a" "n < 4096"
  shows "pg_round_down (a + of_nat n) = a" "unat (pg_ofs (a + of_nat n)) = n"
proof -
  have a: "unat a mod 4096 = 0" using assms(1) by (simp add: frame_addr_iff)
  then have "(unat a + n) mod 4096 = n" using assms(2) by (simp add: mod_add_left_eq [symmetric])
  then show "unat (pg_ofs (a + of_nat n)) = n" using unat_offset [OF assms] by (simp add: width_simps)
  obtain q where "unat a = 4096 * q" using a by (auto elim: dvdE simp flip: dvd_eq_mod_eq_0)
  then have "(unat a + n) div 4096 * 4096 = unat a" using assms(2) by simp
  then show "pg_round_down (a + of_nat n) = a" using unat_offset [OF assms] by (simp add: unat_eq_iff width_simps)
qed

lemma slot_page:
  assumes "frame_addr a" "k < bpa i"
  shows "pg_round_down (slot a i k) = a" "unat (pg_ofs (slot a i k)) = 12 + k * bsz i"
proof -
  have "12 + k * bsz i < 4096" using slot_bound [OF assms(2)] bsz_pos [of i] by linarith
  then show "pg_round_down (slot a i k) = a" "unat (pg_ofs (slot a i k)) = 12 + k * bsz i"
    unfolding slot_offset by (rule offset_page [OF assms(1)])+
qed

lemma slot_eq_iff:
  assumes "frame_addr a" "frame_addr a'" "k < bpa i" "k' < bpa i"
  shows "slot a i k = slot a' i k' \<longleftrightarrow> a = a' \<and> k = k'"
proof
  assume e: "slot a i k = slot a' i k'"
  then have "a = a'" using slot_page(1) assms by metis
  moreover have "12 + k * bsz i = 12 + k' * bsz i" using slot_page(2) assms e by metis
  ultimately show "a = a' \<and> k = k'" using bsz_pos [of i] by simp
qed simp

section \<open>Descriptors and headers\<close>

definition descs_ok :: "'a malloc_state_scheme \<Rightarrow> bool" where
  "descs_ok s \<longleftrightarrow> desc_cnt s = 7 \<and> length (descs s) = 10 \<and> descs_at s \<noteq> 0 \<and> unat (descs_at s) + 560 < 2 ^ 32
     \<and> (\<forall>i < 7. block_size (descs s ! i) = of_nat (bsz i) \<and> blocks_per_arena (descs s ! i) = of_nat (bpa i))"

lemma bsz_le: "i < 7 \<Longrightarrow> bsz i \<le> 1024" and bpa_pos: "i < 7 \<Longrightarrow> 0 < bpa i" and bpa_le: "bpa i \<le> 255"
proof -
  assume "i < 7"
  then have "(2 :: nat) ^ i \<le> 2 ^ 6" by (intro power_increasing) simp_all
  then show le: "bsz i \<le> 1024" by (simp add: bsz_def)
  then show "0 < bpa i" by (simp add: bpa_def div_greater_zero_iff)
next
  have "16 \<le> bsz i" by (simp add: bsz_def)
  then have "4084 div bsz i \<le> 4084 div 16" by (intro div_le_mono2) simp_all
  then show "bpa i \<le> 255" by (simp add: bpa_def)
qed

lemma desc_index_ptr:
  assumes "descs_ok s" "i < 7"
  shows "desc_index (desc_ptr i s) s = Some i" "desc_ptr i s \<noteq> 0"
proof -
  have u: "unat (56 * of_nat i :: u32) = 56 * i" using assms(2) by (subst unat_mult_no_overflow) (simp_all add: unat_of_nat)
  have "unat (56 * of_nat i div 56 :: u32) = i" by (simp add: unat_div_distrib u)
  then show "desc_index (desc_ptr i s) s = Some i"
    using assms by (simp add: desc_index_def desc_ptr_def DESC_SIZE_def descs_ok_def)
  have "unat (desc_ptr i s) = unat (descs_at s) + 56 * i"
    using assms u by (simp add: desc_ptr_def DESC_SIZE_def descs_ok_def unat_plus_no_overflow)
  moreover have "0 < unat (descs_at s)" using assms(1) by (simp add: descs_ok_def unat_gt_0)
  ultimately show "desc_ptr i s \<noteq> 0" by auto
qed


section \<open>The heap invariant\<close>

text \<open>
  A chunk is what the allocator holds of the page allocator: an arena of a descriptor, or the pages of a big block. The
  invariant relates a state to the chunks \<^term>\<open>C\<close> by their first page, the pages \<^term>\<open>F\<close> that belong to others, and the blocks \<^term>\<open>L\<close> in
  use with the sizes their clients asked for. Every arena outside \<^term>\<open>E\<close> has a block in use.
\<close>

datatype chunk = Arena nat | Big u32

fun chunk_pages :: "u32 \<Rightarrow> chunk \<Rightarrow> u32 set" where
  "chunk_pages a (Arena i) = {a}"
| "chunk_pages a (Big n) = pg_round_down ` {x. x - a < PGSIZE * n}"

definition free_slots :: "'a malloc_state_scheme \<Rightarrow> u32 \<Rightarrow> nat \<Rightarrow> nat set" where
  "free_slots s a i = {k. k < bpa i \<and> slot a i k \<in> set (free_list (descs s ! i))}"

fun chunk_ok :: "u32 set \<Rightarrow> 'a malloc_state_scheme \<Rightarrow> u32 \<Rightarrow> chunk \<Rightarrow> bool" where
  "chunk_ok E s a (Arena i) \<longleftrightarrow> i < 7 \<and> pmem s a = ARENA_MAGIC \<and> pmem s (a + 4) = desc_ptr i s
     \<and> unat (pmem s (a + 8)) = card (free_slots s a i) \<and> (a \<notin> E \<longrightarrow> card (free_slots s a i) < bpa i)"
| "chunk_ok E s a (Big n) \<longleftrightarrow> n \<noteq> 0 \<and> pmem s a = ARENA_MAGIC \<and> pmem s (a + 4) = 0 \<and> pmem s (a + 8) = n
     \<and> (\<exists>j. a = page_at (kernel_pool s) j \<and> j + unat n \<le> npages (kernel_pool s))"

fun block_in :: "'a malloc_state_scheme \<Rightarrow> u32 \<Rightarrow> chunk \<Rightarrow> u32 \<Rightarrow> u32 \<Rightarrow> bool" where
  "block_in s a (Arena i) b sz \<longleftrightarrow>
     (\<exists>k < bpa i. b = slot a i k \<and> b \<notin> set (free_list (descs s ! i)) \<and> unat sz \<le> bsz i)"
| "block_in s a (Big n) b sz \<longleftrightarrow> b = a + 12 \<and> unat sz + 12 \<le> 4096 * unat n"

definition chunks_apart :: "(u32 \<rightharpoonup> chunk) \<Rightarrow> bool" where
  "chunks_apart C \<longleftrightarrow> (\<forall>a a' c c'. C a = Some c \<and> C a' = Some c' \<and> a \<noteq> a' \<longrightarrow> chunk_pages a c \<inter> chunk_pages a' c' = {})"

definition arena_slots :: "(u32 \<rightharpoonup> chunk) \<Rightarrow> nat \<Rightarrow> u32 set" where
  "arena_slots C i = {slot a i k | a k. C a = Some (Arena i) \<and> k < bpa i}"

definition lists_ok :: "'a malloc_state_scheme \<Rightarrow> (u32 \<rightharpoonup> chunk) \<Rightarrow> bool" where
  "lists_ok s C \<longleftrightarrow> (\<forall>i < 7. distinct (free_list (descs s ! i)) \<and> set (free_list (descs s ! i)) \<subseteq> arena_slots C i)"

definition heap_inv :: "u32 set \<Rightarrow> 'a malloc_state_scheme \<Rightarrow> (u32 \<rightharpoonup> chunk) \<Rightarrow> u32 set \<Rightarrow> (u32 \<rightharpoonup> u32) \<Rightarrow> bool" where
  "heap_inv E s C F L \<longleftrightarrow> palloc_wf s \<and> descs_ok s \<and> F \<subseteq> used_pages s \<and> chunks_apart C \<and> lists_ok s C
     \<and> (\<forall>a c. C a = Some c \<longrightarrow> chunk_ok E s a c \<and> chunk_pages a c \<subseteq> used_pages s - F)
     \<and> (\<forall>b sz. L b = Some sz \<longrightarrow> (\<exists>a c. C a = Some c \<and> block_in s a c b sz))"

lemma heapD:
  assumes "heap_inv E s C F L"
  shows "palloc_wf s" "descs_ok s" "F \<subseteq> used_pages s" "chunks_apart C" "lists_ok s C"
    "C a = Some c \<Longrightarrow> chunk_ok E s a c" "C a = Some c \<Longrightarrow> chunk_pages a c \<subseteq> used_pages s - F"
    "L b = Some sz \<Longrightarrow> \<exists>a c. C a = Some c \<and> block_in s a c b sz"
  using assms by (simp_all add: heap_inv_def)

lemma frame_round_down: "frame_addr a \<Longrightarrow> pg_round_down a = a"
  using offset_page(1) [of a 0] by simp

lemma big_group:
  assumes "palloc_wf s" "a = page_at (kernel_pool s) j" "j + unat n \<le> npages (kernel_pool s)" "n \<noteq> 0"
  shows "chunk_pages a (Big n) = group_pages (kernel_pool s) j (unat n)" "frame_addr a" "unat a + 4096 * unat n \<le> 2 ^ 32"
    "unat (PGSIZE * n) = 4096 * unat n"
proof -
  have w: "pool_wf (kernel_pool s)" using assms(1) by (simp add: palloc_wf_def)
  have c: "0 < unat n" using assms(4) by (simp add: unat_gt_0)
  show "frame_addr a" unfolding assms(2) using page_at_frame [OF w] assms(3) c by simp
  have "frame_addr x" if "x \<in> group_pages (kernel_pool s) j (unat n)" for x
    using that assms(3) page_at_frame [OF w] by (auto simp: group_pages_def)
  then show "chunk_pages a (Big n) = group_pages (kernel_pool s) j (unat n)"
    using group_area [OF w assms(3,4)] frame_round_down unfolding assms(2) by (auto simp: image_iff) metis
  show "unat a + 4096 * unat n \<le> 2 ^ 32"
    using page_at_unat [OF w, of j] assms(3) c w unfolding assms(2) by (simp add: pool_wf_def)
  show "unat (PGSIZE * n) = 4096 * unat n"
    using assms(3) pool_bound [OF w] by (subst unat_mult_no_overflow) (simp_all add: PGSIZE_eq)
qed

lemma chunk_first:
  assumes "heap_inv E s C F L" "C a = Some c"
  shows "frame_addr a" "a \<in> chunk_pages a c"
proof -
  note ok = heapD(6,7) [OF assms] and w = heapD(1) [OF assms(1)]
  have "frame_addr a \<and> a \<in> chunk_pages a c"
  proof (cases c)
    case (Arena i)
    then show ?thesis using ok used_pages_frame [OF w] by auto
  next
    case (Big n)
    then obtain j where j: "n \<noteq> 0" "a = page_at (kernel_pool s) j" "j + unat n \<le> npages (kernel_pool s)" using ok by auto
    note g = big_group [OF w j(2,3,1)]
    have "0 < PGSIZE * n" using g(4) j(1) by (metis unat_gt_0 mult_is_0 word_neq_0_conv zero_neq_numeral unat_eq_0)
    then have "pg_round_down a \<in> chunk_pages a c" unfolding Big chunk_pages.simps by (intro imageI CollectI) simp
    then show ?thesis using g(2) by (simp add: frame_round_down)
  qed
  then show "frame_addr a" "a \<in> chunk_pages a c" by auto
qed

text \<open>The words of a block in use: they lie in the pages of its chunk, past the header.\<close>

lemma slot_word:
  assumes "frame_addr a" "k < bpa i" "unat sz \<le> bsz i" "x - slot a i k < sz"
  shows "pg_round_down x = a" "unat (pg_ofs x) = 12 + k * bsz i + unat (x - slot a i k)" "12 + k * bsz i + unat (x - slot a i k) < 4096"
proof -
  let ?d = "unat (x - slot a i k)"
  have d: "?d < bsz i" using assms(3,4) by (simp add: word_less_nat_alt)
  then show lt: "12 + k * bsz i + ?d < 4096" using slot_bound [OF assms(2)] by linarith
  have e: "a + of_nat (12 + k * bsz i + ?d) = x" by (simp add: slot_def)
  show "pg_round_down x = a" "unat (pg_ofs x) = 12 + k * bsz i + ?d" using offset_page [OF assms(1) lt] unfolding e .
qed

lemma big_word:
  assumes w: "palloc_wf s" and a: "a = page_at (kernel_pool s) j" "j + unat n \<le> npages (kernel_pool s)" "n \<noteq> 0"
    and sz: "unat sz + 12 \<le> 4096 * unat n" and x: "x - (a + 12) < sz"
  shows "pg_round_down x \<in> chunk_pages a (Big n)" "unat x = unat a + 12 + unat (x - (a + 12))"
proof -
  note g = big_group [OF w a]
  let ?d = "unat (x - (a + 12))"
  have d: "?d < unat sz" using x by (simp add: word_less_nat_alt)
  have "x - a = of_nat (12 + ?d)" by simp
  then have "unat (x - a) = 12 + ?d" using d sz g(3) by (simp only: unat_of_nat_32)
  then have "x - a < PGSIZE * n" using d sz g(4) by (simp add: word_less_nat_alt)
  then show "pg_round_down x \<in> chunk_pages a (Big n)" by auto
  have "unat (a + of_nat (12 + ?d)) = unat a + (12 + ?d)" using d sz g(3) by (intro unat_add_of_nat_32) linarith
  then show "unat x = unat a + 12 + ?d" by simp
qed


definition headers :: "(u32 \<rightharpoonup> chunk) \<Rightarrow> u32 set" where
  "headers C = (\<Union>a \<in> dom C. {a, a + 4, a + 8})"

lemma header_page:
  assumes "frame_addr a" "x \<in> {a, a + 4, a + 8}"
  shows "pg_round_down x = a" "unat (pg_ofs x) \<le> 8" "unat x \<le> unat a + 8"
proof -
  obtain n where n: "n \<le> 8" "x = a + of_nat n" using assms(2) that [of 0] that [of 4] that [of 8] by auto
  then show "pg_round_down x = a" "unat (pg_ofs x) \<le> 8" "unat x \<le> unat a + 8"
    using offset_page [OF assms(1), of n] unat_offset [OF assms(1), of n] by simp_all
qed

lemma block_words:
  assumes inv: "heap_inv E s C F L" and c: "C a = Some c" "block_in s a c b sz" and x: "x - b < sz"
  shows "pg_round_down x \<in> chunk_pages a c" "x \<notin> headers C"
proof -
  note w = heapD(1) [OF inv] and ok = heapD(6) [OF inv c(1)] and fa = chunk_first(1) [OF inv c(1)]
  have "pg_round_down x \<in> chunk_pages a c \<and> x \<notin> {a, a + 4, a + 8}"
  proof (cases c)
    case (Arena i)
    then obtain k where k: "k < bpa i" "b = slot a i k" "unat sz \<le> bsz i" using c(2) by auto
    note s = slot_word [OF fa k(1,3) x [unfolded k(2)]]
    then have "x \<notin> {a, a + 4, a + 8}" using header_page(2) [OF fa, of x] by linarith
    then show ?thesis using s(1) Arena by simp
  next
    case (Big n)
    then obtain j where j: "a = page_at (kernel_pool s) j" "j + unat n \<le> npages (kernel_pool s)" "n \<noteq> 0"
      using ok by auto
    have b: "b = a + 12" "unat sz + 12 \<le> 4096 * unat n" using c(2) Big by simp_all
    note s = big_word [OF w j b(2) x [unfolded b(1)]]
    then have "x \<notin> {a, a + 4, a + 8}" using header_page(3) [OF fa, of x] by linarith
    then show ?thesis using s(1) Big by simp
  qed
  moreover have "a' = a" if "C a' = Some c'" "x \<in> {a', a' + 4, a' + 8}" for a' c'
  proof (rule ccontr)
    assume "a' \<noteq> a"
    then have "chunk_pages a c \<inter> chunk_pages a' c' = {}" using heapD(4) [OF inv] c(1) that(1) by (auto simp: chunks_apart_def)
    then show False using calculation chunk_first [OF inv that(1)] header_page(1) [OF _ that(2)] by auto
  qed
  ultimately show "pg_round_down x \<in> chunk_pages a c" "x \<notin> headers C" by (auto simp: headers_def dom_def)
qed

text \<open>Different blocks have no word in common.\<close>

lemma blocks_apart:
  assumes inv: "heap_inv E s C F L" and b: "L b = Some sz" and c: "L b' = Some sz'" and ne: "b \<noteq> b'" and x: "x - b < sz"
  shows "\<not> x - b' < sz'"
proof
  assume x': "x - b' < sz'"
  obtain a c a' c' where o: "C a = Some c" "block_in s a c b sz" "C a' = Some c'" "block_in s a' c' b' sz'"
    using heapD(8) [OF inv b] heapD(8) [OF inv c] by blast
  have "chunk_pages a c \<inter> chunk_pages a' c' \<noteq> {}"
    using block_words(1) [OF inv o(1,2) x] block_words(1) [OF inv o(3,4) x'] by auto
  then have a: "a' = a" using heapD(4) [OF inv] o(1,3) unfolding chunks_apart_def by metis
  then have "c' = c" using o by simp
  show False
  proof (cases c)
    case (Arena i)
    then obtain k k' where k: "k < bpa i" "b = slot a i k" "unat sz \<le> bsz i" "k' < bpa i" "b' = slot a i k'" "unat sz' \<le> bsz i"
      using o(2,4) a \<open>c' = c\<close> by auto
    note fa = chunk_first(1) [OF inv o(1)]
    have "unat (pg_ofs x) = 12 + k * bsz i + unat (x - b)" "unat (pg_ofs x) = 12 + k' * bsz i + unat (x - b')"
      using slot_word(2) [OF fa k(1,3), of x] slot_word(2) [OF fa k(4,6), of x] x x' k(2,5) by simp_all
    then have eq: "k * bsz i + unat (x - b) = k' * bsz i + unat (x - b')" by linarith
    have lt: "unat (x - b) < bsz i" "unat (x - b') < bsz i" using x x' k(3,6) by (auto simp: word_less_nat_alt)
    have "(q * bsz i + d) div bsz i = q" if "d < bsz i" for q d using that by simp
    from this [OF lt(1), of k] this [OF lt(2), of k'] have "k = k'" using eq by simp
    then show False using ne k(2,5) by simp
  next
    case (Big n)
    then show False using o(2,4) a \<open>c' = c\<close> ne by simp
  qed
qed

section \<open>Changes outside the headers\<close>

lemma same_pools_kernel:
  "same_pools s s' \<Longrightarrow> page_at (kernel_pool s') = page_at (kernel_pool s) \<and> npages (kernel_pool s') = npages (kernel_pool s)"
  using same_pools_page_at [of s s' False] by (simp add: same_pools_def get_pool_def all_bool_eq)

lemma heap_frame:
  assumes inv: "heap_inv E s C F L" and w: "palloc_wf s'" "same_pools s s'"
    and d: "descs s' = descs s" "desc_cnt s' = desc_cnt s" "descs_at s' = descs_at s"
    and m: "\<And>x. x \<in> headers C \<Longrightarrow> pmem s' x = pmem s x"
    and u: "\<And>a c. C a = Some c \<Longrightarrow> chunk_pages a c \<subseteq> used_pages s' - F'" and F: "F' \<subseteq> used_pages s'"
  shows "heap_inv E s' C F' L"
proof -
  have "chunk_ok E s' a c" if "C a = Some c" for a c
  proof -
    have "pmem s' a = pmem s a" "pmem s' (a + 4) = pmem s (a + 4)" "pmem s' (a + 8) = pmem s (a + 8)"
      using m [of a] m [of "a + 4"] m [of "a + 8"] that by (auto simp: headers_def)
    then show ?thesis using heapD(6) [OF inv that] same_pools_kernel [OF w(2)] d
      by (cases c) (simp_all add: free_slots_def desc_ptr_def)
  qed
  moreover have "block_in s' a c b sz = block_in s a c b sz" for a c b sz using d by (cases c) simp_all
  ultimately show ?thesis
    using inv w(1) d u F unfolding heap_inv_def by (simp add: descs_ok_def lists_ok_def)
qed


section \<open>Free lists\<close>

lemma block_to_arena_slot:
  assumes "descs_ok s" "frame_addr a" "i < 7" "k < bpa i" "pmem s a = ARENA_MAGIC" "pmem s (a + 4) = desc_ptr i s"
  shows "block_to_arena (slot a i k) s = Some a"
proof -
  note p = slot_page [OF assms(2,4)] and di = desc_index_ptr [OF assms(1,3)]
  have "unat (pg_ofs (slot a i k) - ARENA_SIZE) = k * bsz i"
    using p(2) by (subst unat_minus_no_underflow) (simp_all add: ARENA_SIZE_def)
  moreover have "unat (of_nat (bsz i) :: u32) = bsz i" using bsz_le [OF assms(3)] by (intro unat_of_nat_32) simp
  ultimately have "(pg_ofs (slot a i k) - ARENA_SIZE) mod block_size (descs s ! i) = 0"
    using assms(1,3) by (simp add: descs_ok_def unat_eq_iff unat_mod)
  then show ?thesis using p(1) di assms(5,6) frame_nonzero [OF assms(2)] by (simp add: block_to_arena_def Let_def)
qed

lemma arena_to_block_slot:
  assumes "descs_ok s" "frame_addr a" "i < 7" "k < bpa i" "pmem s a = ARENA_MAGIC" "pmem s (a + 4) = desc_ptr i s"
  shows "arena_to_block a (of_nat k) s = Some (slot a i k)"
proof -
  have "unat (of_nat k :: u32) = k" "unat (of_nat (bpa i) :: u32) = bpa i"
    using bpa_le [of i] assms(4) by (intro unat_of_nat_32; simp)+
  then have "(of_nat k :: u32) < blocks_per_arena (descs s ! i)"
    using assms(1,3,4) by (simp add: word_less_nat_alt descs_ok_def)
  then show ?thesis using desc_index_ptr [OF assms(1,3)] assms(1,3,5,6) frame_nonzero [OF assms(2)]
    by (simp add: arena_to_block_def slot_def ARENA_SIZE_def descs_ok_def)
qed

lemma upd_desc_simps [simp]:
  "pmem (upd_desc i f s) = pmem s" "desc_cnt (upd_desc i f s) = desc_cnt s" "descs_at (upd_desc i f s) = descs_at s"
  "kernel_pool (upd_desc i f s) = kernel_pool s" "user_pool (upd_desc i f s) = user_pool s"
  "palloc_wf (upd_desc i f s) = palloc_wf s" "used_pages (upd_desc i f s) = used_pages s"
  "length (descs (upd_desc i f s)) = length (descs s)" "desc_ptr j (upd_desc i f s) = desc_ptr j s"
  by (simp_all add: upd_desc_def palloc_wf_def used_pages_def desc_ptr_def)

lemma upd_desc_list:
  "i < length (descs s) \<Longrightarrow> free_list (descs (upd_desc i f s) ! j) = (if j = i then f (free_list (descs s ! i)) else free_list (descs s ! j))"
  "block_size (descs (upd_desc i f s) ! j) = block_size (descs s ! j)"
  "blocks_per_arena (descs (upd_desc i f s) ! j) = blocks_per_arena (descs s ! j)"
proof -
  show "i < length (descs s) \<Longrightarrow> free_list (descs (upd_desc i f s) ! j) = (if j = i then f (free_list (descs s ! i)) else free_list (descs s ! j))"
    by (simp add: upd_desc_def nth_list_update)
  show "block_size (descs (upd_desc i f s) ! j) = block_size (descs s ! j)"
    "blocks_per_arena (descs (upd_desc i f s) ! j) = blocks_per_arena (descs s ! j)"
    by (cases "i < length (descs s)"; simp add: upd_desc_def nth_list_update list_update_beyond)+
qed

lemma upd_desc_ok [simp]: "descs_ok (upd_desc i f s) = descs_ok s"
  by (simp add: descs_ok_def upd_desc_list)

lemma upd_desc_twice: "i < length (descs s) \<Longrightarrow> upd_desc i g (upd_desc i f s) = upd_desc i (\<lambda>fl. g (f fl)) s"
  by (simp add: upd_desc_def)

lemma push_slots:
  assumes "descs_ok s" "frame_addr a" "i < 7" "pmem s a = ARENA_MAGIC" "pmem s (a + 4) = desc_ptr i s" "n \<le> bpa i"
  shows "foldM (\<lambda>k s. do { b \<leftarrow> arena_to_block a (of_nat k) s; Some (upd_desc i (\<lambda>fl. fl @ [b]) s) }) [0..<n] s
    = Some (upd_desc i (\<lambda>fl. fl @ map (slot a i) [0..<n]) s)"
  using assms(6)
proof (induction n)
  case 0
  show ?case by (simp add: upd_desc_def)
next
  case (Suc n)
  let ?s = "upd_desc i (\<lambda>fl. fl @ map (slot a i) [0..<n]) s"
  have "arena_to_block a (of_nat n) ?s = Some (slot a i n)" using Suc.prems assms by (intro arena_to_block_slot) simp_all
  moreover have "i < length (descs s)" using assms(1,3) by (simp add: descs_ok_def)
  ultimately show ?case using Suc by (simp add: foldM_append upd_desc_twice)
qed

lemma remove_slots:
  assumes "descs_ok s" "frame_addr a" "i < 7" "pmem s a = ARENA_MAGIC" "pmem s (a + 4) = desc_ptr i s" "n \<le> bpa i"
    and "distinct (free_list (descs s ! i))" "slot a i ` {..<bpa i} \<subseteq> set (free_list (descs s ! i))"
  shows "foldM (\<lambda>k s. do {
       b \<leftarrow> arena_to_block a (of_nat k) s;
       ASSERT (b \<in> set (free_list (descs s ! i)));
       Some (upd_desc i (remove1 b) s) }) [0..<n] s
    = Some (upd_desc i (filter (\<lambda>b. b \<notin> slot a i ` {..<n})) s)"
  using assms(6)
proof (induction n)
  case 0
  show ?case by (simp add: upd_desc_def)
next
  case (Suc n)
  let ?s = "upd_desc i (filter (\<lambda>b. b \<notin> slot a i ` {..<n})) s"
  have le: "i < length (descs s)" using assms(1,3) by (simp add: descs_ok_def)
  have "arena_to_block a (of_nat n) ?s = Some (slot a i n)" using Suc.prems assms by (intro arena_to_block_slot) simp_all
  moreover have "slot a i n \<noteq> slot a i k" if "k < n" for k using slot_eq_iff [OF assms(2,2), of n i k] that Suc.prems by simp
  then have "slot a i n \<notin> slot a i ` {..<n}" by auto
  moreover have "slot a i n \<in> set (free_list (descs s ! i))" using assms(8) Suc.prems by auto
  moreover have "upd_desc i (\<lambda>fl. remove1 (slot a i n) (filter (\<lambda>b. b \<notin> slot a i ` {..<n}) fl)) s
      = upd_desc i (filter (\<lambda>b. b \<notin> slot a i ` {..<Suc n})) s"
  proof -
    have "remove1 (slot a i n) (filter (\<lambda>b. b \<notin> slot a i ` {..<n}) (free_list (descs s ! i)))
        = filter (\<lambda>b. b \<notin> slot a i ` {..<Suc n}) (free_list (descs s ! i))"
      using assms(7) by (auto simp: distinct_remove1_removeAll removeAll_filter_not_eq lessThan_Suc intro!: filter_cong)
    then show ?thesis by (simp add: upd_desc_def)
  qed
  ultimately show ?case using Suc le by (simp add: foldM_append upd_desc_list upd_desc_twice)
qed


lemma free_slots_card: "finite (free_slots s a i)" "card (free_slots s a i) \<le> bpa i"
proof -
  have "free_slots s a i \<subseteq> {..<bpa i}" by (auto simp: free_slots_def)
  then show "finite (free_slots s a i)" "card (free_slots s a i) \<le> bpa i"
    using finite_subset card_mono [of "{..<bpa i}"] by auto
qed

lemma desc_length: "descs_ok s \<Longrightarrow> i < 7 \<Longrightarrow> i < length (descs s)"
  by (simp add: descs_ok_def)

lemma free_block:
  assumes "heap_inv E s C F L" "i < 7" "b \<in> set (free_list (descs s ! i))"
  obtains a k where "b = slot a i k" "k < bpa i" "C a = Some (Arena i)" "frame_addr a"
proof -
  obtain a k where "b = slot a i k" "k < bpa i" "C a = Some (Arena i)"
    using heapD(5) [OF assms(1)] assms(2,3) by (fastforce simp: lists_ok_def arena_slots_def)
  then show thesis using that chunk_first(1) [OF assms(1)] by blast
qed

text \<open>Taking the first block of a free list.\<close>

lemma pop_block:
  assumes inv: "heap_inv E s C F L" and i: "i < 7" and fl: "free_list (descs s ! i) = b # r" and sz: "unat sz \<le> bsz i"
    and b: "b = slot a i k" "k < bpa i" "C a = Some (Arena i)" and E: "E \<subseteq> {a}"
  shows "heap_inv {} ((upd_desc i tl s)\<lparr>pmem := (pmem s)(a + 8 := pmem s (a + 8) - 1)\<rparr>) C F (L(b \<mapsto> sz))"
    (is "heap_inv {} ?s C F _")
proof -
  have le: "i < length (descs s)" using desc_length [OF heapD(2) [OF inv] i] .
  note lo = heapD(5) [OF inv]
  have fl': "free_list (descs ?s ! j) = (if j = i then r else free_list (descs s ! j))" for j
    using upd_desc_list(1) [OF le, of tl j] fl by simp
  have db: "b \<notin> set r" "distinct r" using lo i fl by (auto simp: lists_ok_def)
  note fa = chunk_first(1) [OF inv]
  have fs: "free_slots ?s a' j = (if j = i \<and> a' = a then free_slots s a i - {k} else free_slots s a' j)"
    if "C a' = Some (Arena j)" for a' j
    using slot_eq_iff [OF fa [OF that] fa [OF b(3)], of _ i k] fl db(1) b(1,2) that unfolding free_slots_def fl' by auto
  have kin: "k \<in> free_slots s a i" using b fl by (simp add: free_slots_def)
  have hd: "a' + x \<noteq> a + 8" if "C a' = Some c" "a' \<noteq> a" "x \<in> {0, 4, 8}" for a' c x
    using header_page(1) [OF fa [OF b(3)], of "a + 8"] header_page(1) [OF fa [OF that(1)], of "a' + x"] that(2,3) by auto
  have "chunk_ok {} ?s a' c" if c: "C a' = Some c" for a' c
  proof (cases "a' = a")
    case True
    then have c: "c = Arena i" using c b(3) by simp
    have ok: "pmem s a = ARENA_MAGIC" "pmem s (a + 4) = desc_ptr i s" "unat (pmem s (a + 8)) = card (free_slots s a i)"
      using heapD(6) [OF inv b(3)] by simp_all
    have pos: "0 < card (free_slots s a i)" using kin free_slots_card(1) card_gt_0_iff by blast
    then have "unat (pmem s (a + 8) - 1) = card (free_slots s a i) - 1" using ok(3) by (subst unat_minus_no_underflow) simp_all
    moreover have "a \<noteq> a + 8" "a + 4 \<noteq> a + 8" by simp_all
    ultimately show ?thesis using True c ok pos i fs [OF b(3)] kin free_slots_card [of s a i]
      by (simp add: desc_ptr_def)
  next
    case False
    then show ?thesis using heapD(6) [OF inv c] hd [OF c False] hd [OF c False, of 0] fs [of a'] c E
      by (cases c) (auto simp: desc_ptr_def)
  qed
  moreover have "set (b # r) \<subseteq> arena_slots C i" using lo i unfolding lists_ok_def fl [symmetric] by blast
  then have "lists_ok ?s C" using lo db(2) unfolding lists_ok_def fl' by auto
  moreover have "\<exists>a c. C a = Some c \<and> block_in ?s a c b' sz'" if L': "(L(b \<mapsto> sz)) b' = Some sz'" for b' sz'
  proof (cases "b' = b")
    case True
    then have "block_in ?s a (Arena i) b' sz'" using L' b db(1) sz fl' by auto
    then show ?thesis using b(3) by blast
  next
    case False
    then obtain a' c where c: "C a' = Some c" "block_in s a' c b' sz'" using L' heapD(8) [OF inv, of b' sz'] by auto
    then have "block_in ?s a' c b' sz'" using fl fl' by (cases c) auto
    then show ?thesis using c(1) by blast
  qed
  ultimately show ?thesis using heapD(1-4,7) [OF inv] unfolding heap_inv_def
    by (simp add: descs_ok_def upd_desc_list palloc_wf_def used_pages_def)
qed


text \<open>Putting a block back at the head of its free list.\<close>

lemma push_block:
  assumes inv: "heap_inv {} s C F L" and b: "b = slot a i k" "k < bpa i" "C a = Some (Arena i)" "b \<notin> set (free_list (descs s ! i))"
  shows "heap_inv {a} ((upd_desc i ((#) b) s)\<lparr>pmem := (pmem s)(a + 8 := pmem s (a + 8) + 1)\<rparr>) C F (L(b := None))"
    (is "heap_inv {a} ?s C F _")
proof -
  have ok: "i < 7" "pmem s a = ARENA_MAGIC" "pmem s (a + 4) = desc_ptr i s" "unat (pmem s (a + 8)) = card (free_slots s a i)"
    using heapD(6) [OF inv b(3)] by simp_all
  have le: "i < length (descs s)" using desc_length [OF heapD(2) [OF inv] ok(1)] .
  note lo = heapD(5) [OF inv] and fa = chunk_first(1) [OF inv]
  have fl: "free_list (descs ?s ! j) = (if j = i then b # free_list (descs s ! i) else free_list (descs s ! j))" for j
    using upd_desc_list(1) [OF le, of "(#) b" j] by simp
  have fs: "free_slots ?s a' j = (if j = i \<and> a' = a then insert k (free_slots s a i) else free_slots s a' j)"
    if "C a' = Some (Arena j)" for a' j
    using slot_eq_iff [OF fa [OF that] fa [OF b(3)], of _ i k] b(1,2) that unfolding free_slots_def fl by auto
  have kin: "k \<notin> free_slots s a i" using b(1,4) by (simp add: free_slots_def)
  have hd: "a' + x \<noteq> a + 8" if "C a' = Some c" "a' \<noteq> a" "x \<in> {0, 4, 8}" for a' c x
    using header_page(1) [OF fa [OF b(3)], of "a + 8"] header_page(1) [OF fa [OF that(1)], of "a' + x"] that(2,3) by auto
  have "chunk_ok {a} ?s a' c" if c: "C a' = Some c" for a' c
  proof (cases "a' = a")
    case True
    then have c: "c = Arena i" using c b(3) by simp
    have "unat (pmem s (a + 8) + 1) = card (free_slots s a i) + 1"
      using ok(4) free_slots_card(2) [of s a i] bpa_le [of i] by (subst unat_plus_no_overflow) simp_all
    then show ?thesis using True c ok fs [OF b(3)] kin free_slots_card(1) [of s a i] by (simp add: desc_ptr_def)
  next
    case False
    then show ?thesis using heapD(6) [OF inv c] hd [OF c False] hd [OF c False, of 0] fs [of a'] c
      by (cases c) (auto simp: desc_ptr_def)
  qed
  moreover have "b \<in> arena_slots C i" using b by (auto simp: arena_slots_def)
  then have "lists_ok ?s C" using lo b(4) unfolding lists_ok_def fl by auto
  moreover have "\<exists>a c. C a = Some c \<and> block_in ?s a c b' sz'" if L': "(L(b := None)) b' = Some sz'" for b' sz'
  proof -
    obtain a' c where c: "C a' = Some c" "block_in s a' c b' sz'" using L' heapD(8) [OF inv, of b' sz'] by (auto split: if_splits)
    then have "block_in ?s a' c b' sz'" using L' fl by (cases c) (auto split: if_splits)
    then show ?thesis using c(1) by blast
  qed
  ultimately show ?thesis using heapD(1-4,7) [OF inv] unfolding heap_inv_def
    by (simp add: descs_ok_def upd_desc_list palloc_wf_def used_pages_def)
qed

text \<open>An arena with a block in use is an ordinary arena again.\<close>

lemma not_full:
  assumes "heap_inv {a} s C F L" "C a = Some (Arena i)" "card (free_slots s a i) < bpa i"
  shows "heap_inv {} s C F L"
proof -
  have "chunk_ok {} s a' c" if "C a' = Some c" for a' c
    using heapD(6) [OF assms(1) that] that assms(2,3) by (cases c; cases "a' = a") auto
  then show ?thesis using assms(1) by (simp add: heap_inv_def)
qed

text \<open>Adding and removing chunks.\<close>

definition fresh_chunk :: "u32 \<Rightarrow> chunk \<Rightarrow> (u32 \<rightharpoonup> chunk) \<Rightarrow> bool" where
  "fresh_chunk a c C \<longleftrightarrow> C a = None \<and> (\<forall>a' c'. C a' = Some c' \<longrightarrow> chunk_pages a c \<inter> chunk_pages a' c' = {})"

lemma fresh_apart:
  assumes "chunks_apart C" "fresh_chunk a c C"
  shows "chunks_apart (C(a \<mapsto> c))"
  unfolding chunks_apart_def
proof (intro allI impI, elim conjE)
  fix x y cx cy
  assume x: "(C(a \<mapsto> c)) x = Some cx" and y: "(C(a \<mapsto> c)) y = Some cy" and ne: "x \<noteq> y"
  have new: "chunk_pages a c \<inter> chunk_pages z cz = {}" if "C z = Some cz" for z cz
    using assms(2) that by (simp add: fresh_chunk_def)
  show "chunk_pages x cx \<inter> chunk_pages y cy = {}"
  proof (cases "x = a \<or> y = a")
    case True
    then show ?thesis using x y ne new [of y cy] new [of x cx] by (elim disjE) (simp_all add: Int_commute)
  next
    case False
    then have "C x = Some cx \<and> C y = Some cy \<and> x \<noteq> y" using x y ne by simp
    then show ?thesis using assms(1) unfolding chunks_apart_def by blast
  qed
qed

lemma fresh_slots: "fresh_chunk a c C \<Longrightarrow> arena_slots C i \<subseteq> arena_slots (C(a \<mapsto> c)) i"
  unfolding fresh_chunk_def arena_slots_def by fastforce

lemma add_big:
  assumes inv: "heap_inv E s C F L" and fr: "fresh_chunk a (Big n) C" and ok: "chunk_ok E s a (Big n)"
    and u: "chunk_pages a (Big n) \<subseteq> used_pages s - F" and sz: "unat sz + 12 \<le> 4096 * unat n"
  shows "heap_inv E s (C(a \<mapsto> Big n)) F (L(a + 12 \<mapsto> sz))"
proof -
  have "lists_ok s (C(a \<mapsto> Big n))" using heapD(5) [OF inv] fresh_slots [OF fr] unfolding lists_ok_def by blast
  moreover have "\<exists>a' c'. (C(a \<mapsto> Big n)) a' = Some c' \<and> block_in s a' c' b sz'" if L': "(L(a + 12 \<mapsto> sz)) b = Some sz'" for b sz'
  proof (cases "b = a + 12")
    case False
    then obtain a' c' where "C a' = Some c'" "block_in s a' c' b sz'" using L' heapD(8) [OF inv, of b sz'] by auto
    then show ?thesis using fr by (intro exI [of _ a'] exI [of _ c']) (auto simp: fresh_chunk_def)
  qed (use L' sz in auto)
  ultimately show ?thesis
    using heapD(1-3) [OF inv] heapD(6,7) [OF inv] fresh_apart [OF heapD(4) [OF inv] fr] ok u unfolding heap_inv_def by auto
qed

text \<open>The slots of a new arena, at the end of the free list of its descriptor.\<close>

lemma new_slots:
  assumes inv: "heap_inv {} s C F L" and fr: "fresh_chunk a (Arena i) C" and i: "i < 7" and fa: "frame_addr a"
    and s': "s' = upd_desc i (\<lambda>fl. fl @ map (slot a i) [0..<bpa i]) s"
  shows "lists_ok s' (C(a \<mapsto> Arena i))" "free_slots s' a i = {..<bpa i}"
    "C a' = Some c \<Longrightarrow> free_slots s' a' j = free_slots s a' j" "C a' = Some c \<Longrightarrow> block_in s' a' c b sz = block_in s a' c b sz"
proof -
  have le: "i < length (descs s)" using desc_length [OF heapD(2) [OF inv] i] .
  have fl: "free_list (descs s' ! j) = (if j = i then free_list (descs s ! i) @ map (slot a i) [0..<bpa i] else free_list (descs s ! j))" for j
    using upd_desc_list(1) [OF le, of _ j] s' by simp
  have ne: "slot a' i x \<noteq> slot a i y" if "C a' = Some c" "x < bpa i" "y < bpa i" for a' c x y
    using slot_eq_iff [OF chunk_first(1) [OF inv that(1)] fa that(2,3)] that(1) fr by (auto simp: fresh_chunk_def)
  have new: "slot a i k \<notin> set (free_list (descs s ! i))" if k: "k < bpa i" for k
  proof
    assume "slot a i k \<in> set (free_list (descs s ! i))"
    then obtain a' k' where "slot a i k = slot a' i k'" "k' < bpa i" "C a' = Some (Arena i)" by (rule free_block [OF inv i])
    then show False using ne k by metis
  qed
  show "free_slots s' a i = {..<bpa i}" unfolding free_slots_def fl by auto
  show "free_slots s' a' j = free_slots s a' j" if "C a' = Some c" using ne [OF that] unfolding free_slots_def fl by auto
  show "block_in s' a' c b sz = block_in s a' c b sz" if "C a' = Some c" using ne [OF that] fl by (cases c) auto
  have "inj_on (slot a i) {..<bpa i}" using slot_eq_iff [OF fa fa, of _ i] by (auto simp: inj_on_def)
  then have di: "distinct (map (slot a i) [0..<bpa i])" by (simp add: distinct_map lessThan_atLeast0)
  show "lists_ok s' (C(a \<mapsto> Arena i))"
    unfolding lists_ok_def
  proof (intro allI impI)
    fix j :: nat
    assume "j < 7"
    then have j: "distinct (free_list (descs s ! j))" "set (free_list (descs s ! j)) \<subseteq> arena_slots (C(a \<mapsto> Arena i)) j"
      using heapD(5) [OF inv] fresh_slots [OF fr, of j] unfolding lists_ok_def by blast+
    have "slot a i k \<in> arena_slots (C(a \<mapsto> Arena i)) i" if "k < bpa i" for k
      unfolding arena_slots_def using that by (intro CollectI exI [of _ a] exI [of _ k]) simp
    then show "distinct (free_list (descs s' ! j)) \<and> set (free_list (descs s' ! j)) \<subseteq> arena_slots (C(a \<mapsto> Arena i)) j"
      using j di new unfolding fl by auto
  qed
qed

lemma add_arena:
  assumes inv: "heap_inv {} s C F L" and fr: "fresh_chunk a (Arena i) C" and i: "i < 7" and u: "a \<in> used_pages s - F"
    and hdr: "pmem s a = ARENA_MAGIC" "pmem s (a + 4) = desc_ptr i s" "pmem s (a + 8) = of_nat (bpa i)"
  shows "heap_inv {a} (upd_desc i (\<lambda>fl. fl @ map (slot a i) [0..<bpa i]) s) (C(a \<mapsto> Arena i)) F L" (is "heap_inv {a} ?s ?C F L")
proof -
  have fa: "frame_addr a" using used_pages_frame [OF heapD(1) [OF inv]] u by simp
  note ns = new_slots [OF inv fr i fa refl]
  have ub: "unat (of_nat (bpa i) :: u32) = bpa i" using bpa_le [of i] by (intro unat_of_nat_32) simp
  have "chunk_ok {a} ?s a' c" if c: "?C a' = Some c" for a' c
  proof (cases "a' = a")
    case True
    then have "c = Arena i" using c by simp
    then show ?thesis using True ns(2) hdr ub i by simp
  next
    case False
    then have c': "C a' = Some c" using c by simp
    show ?thesis using heapD(6) [OF inv c'] ns(3) [OF c'] by (cases c) simp_all
  qed
  moreover have "\<exists>a c. ?C a = Some c \<and> block_in ?s a c b sz" if L': "L b = Some sz" for b sz
  proof -
    obtain a' c where c: "C a' = Some c" "block_in s a' c b sz" using L' heapD(8) [OF inv, of b sz] by auto
    then have "?C a' = Some c" using fr by (auto simp: fresh_chunk_def)
    then show ?thesis using ns(4) [OF c(1)] c(2) by blast
  qed
  moreover have "chunk_pages a' c \<subseteq> used_pages s - F" if "?C a' = Some c" for a' c
    using that u heapD(7) [OF inv, of a' c] by (auto split: if_splits)
  ultimately show ?thesis
    using heapD(1-3) [OF inv] fresh_apart [OF heapD(4) [OF inv] fr] ns(1) unfolding heap_inv_def by simp
qed

text \<open>Removing an arena all of whose blocks are free, or a big block.\<close>

lemma remove_chunk:
  assumes inv: "heap_inv E s C F L" and lo: "lists_ok s (C(a := None))"
    and L: "\<And>b sz. L' b = Some sz \<Longrightarrow> \<exists>a' c. a' \<noteq> a \<and> C a' = Some c \<and> block_in s a' c b sz"
  shows "heap_inv (E - {a}) s (C(a := None)) F L'"
proof -
  have "chunks_apart (C(a := None))" using heapD(4) [OF inv] unfolding chunks_apart_def by (simp split: if_splits)
  moreover have "chunk_ok (E - {a}) s a' c" if "(C(a := None)) a' = Some c" for a' c
    using heapD(6) [OF inv, of a' c] that by (cases c) (auto split: if_splits)
  moreover have "chunk_pages a' c \<subseteq> used_pages s - F" if "(C(a := None)) a' = Some c" for a' c
    using heapD(7) [OF inv, of a' c] that by (auto split: if_splits)
  moreover have "\<exists>a' c. (C(a := None)) a' = Some c \<and> block_in s a' c b sz" if "L' b = Some sz" for b sz
    using L [OF that] by (metis fun_upd_other)
  ultimately show ?thesis using heapD(1-3) [OF inv] lo unfolding heap_inv_def by blast
qed

lemma drop_slots:
  assumes inv: "heap_inv {a} s C F L" and c: "C a = Some (Arena i)" and full: "card (free_slots s a i) = bpa i"
    and s': "s' = upd_desc i (filter (\<lambda>b. b \<notin> slot a i ` {..<bpa i})) s"
  shows "slot a i ` {..<bpa i} \<subseteq> set (free_list (descs s ! i))" "heap_inv {} s' (C(a := None)) F L"
proof -
  have i: "i < 7" using heapD(6) [OF inv c] by simp
  have "free_slots s a i = {..<bpa i}"
    using full free_slots_card by (intro card_subset_eq) (auto simp: free_slots_def)
  then show all: "slot a i ` {..<bpa i} \<subseteq> set (free_list (descs s ! i))" by (auto simp: free_slots_def)
  have le: "i < length (descs s)" using desc_length [OF heapD(2) [OF inv] i] .
  have fl: "free_list (descs s' ! j) = (if j = i then filter (\<lambda>b. b \<notin> slot a i ` {..<bpa i}) (free_list (descs s ! i)) else free_list (descs s ! j))" for j
    using upd_desc_list(1) [OF le, of _ j] s' by simp
  have ne: "slot a' i x \<notin> slot a i ` {..<bpa i}" if "C a' = Some c'" "x < bpa i" "a' \<noteq> a" for a' c' x
    using slot_eq_iff [OF chunk_first(1) [OF inv that(1)] chunk_first(1) [OF inv c] that(2)] that(3) by auto
  have others: "arena_slots C j \<subseteq> (if j = i then slot a i ` {..<bpa i} else {}) \<union> arena_slots (C(a := None)) j" for j
  proof
    fix x
    assume "x \<in> arena_slots C j"
    then obtain a' k where "x = slot a' j k" "C a' = Some (Arena j)" "k < bpa j" by (auto simp: arena_slots_def)
    then show "x \<in> (if j = i then slot a i ` {..<bpa i} else {}) \<union> arena_slots (C(a := None)) j"
      using c unfolding arena_slots_def by (cases "a' = a") (auto intro!: exI [of _ a'])
  qed
  have "lists_ok s' (C(a := None))"
    unfolding lists_ok_def
  proof (intro allI impI)
    fix j :: nat
    assume "j < 7"
    then show "distinct (free_list (descs s' ! j)) \<and> set (free_list (descs s' ! j)) \<subseteq> arena_slots (C(a := None)) j"
      using heapD(5) [OF inv] others [of j] unfolding lists_ok_def fl by (auto split: if_splits)
  qed
  moreover have "chunk_ok {} s' a' c'" if c': "(C(a := None)) a' = Some c'" for a' c'
  proof -
    have a': "C a' = Some c'" "a' \<noteq> a" using c' by (auto split: if_splits)
    have "free_slots s' a' j = free_slots s a' j" for j using ne [OF a'(1) _ a'(2)] unfolding free_slots_def fl by auto
    then show ?thesis using heapD(6) [OF inv a'(1)] a'(2) s' by (cases c') simp_all
  qed
  moreover have "\<exists>a' c'. (C(a := None)) a' = Some c' \<and> block_in s' a' c' b sz" if L': "L b = Some sz" for b sz
  proof -
    obtain a' c' where c': "C a' = Some c'" "block_in s a' c' b sz" using heapD(8) [OF inv L'] by blast
    moreover have "a' \<noteq> a" using c' c all by (auto simp: image_subset_iff)
    moreover have "block_in s' a' c' b sz" using c'(2) fl by (cases c') auto
    ultimately show ?thesis by (metis fun_upd_other)
  qed
  moreover have "chunks_apart (C(a := None))" using heapD(4) [OF inv] unfolding chunks_apart_def by (simp split: if_splits)
  moreover have "chunk_pages a' c' \<subseteq> used_pages s' - F" if "(C(a := None)) a' = Some c'" for a' c'
    using heapD(7) [OF inv, of a' c'] that s' by (auto split: if_splits)
  ultimately show "heap_inv {} s' (C(a := None)) F L" using heapD(1-3) [OF inv] s' unfolding heap_inv_def by simp
qed

end
