(* ===== verification/Block_Safe.thy ===== *)
theory Block_Safe
  imports Block_Heap
begin

text \<open>
  The block allocator hands out memory safely: in every history of allocations, releases and writes of its clients into their
  blocks, the blocks in use are disjoint, lie in pages that the page allocator has given to this allocator, never contain the
  header of an arena, and can be released.
\<close>

section \<open>Allocation\<close>

lemma palloc_more:
  fixes s s' :: "'a malloc_state_scheme"
  shows "palloc_state.more s' = palloc_state.more s \<Longrightarrow> descs s' = descs s \<and> desc_cnt s' = desc_cnt s \<and> descs_at s' = descs_at s"
  by (cases s; cases s') simp

lemma block_page:
  assumes "frame_addr a" "block_in s a c b sz"
  shows "pg_round_down b = a"
proof (cases c)
  case (Arena i)
  then show ?thesis using assms(2) slot_page(1) [OF assms(1)] by auto
next
  case (Big n)
  then show ?thesis using assms(2) offset_page(1) [OF assms(1), of 12] by simp
qed

lemma block_nonzero: "frame_addr a \<Longrightarrow> pg_round_down b = a \<Longrightarrow> b \<noteq> 0"
  using frame_nonzero [of a] by (auto simp: unat_eq_iff width_simps)

lemma live_page:
  assumes "heap_inv E s C F L" "L b = Some sz"
  obtains c where "C (pg_round_down b) = Some c" "block_in s (pg_round_down b) c b sz"
  using heapD(8) [OF assms] block_page chunk_first(1) [OF assms(1)] that by metis

lemma chunk_used: "heap_inv E s C F L \<Longrightarrow> C a = Some c \<Longrightarrow> a \<in> used_pages s - F"
  using heapD(7) chunk_first(2) by blast

lemma header_used: "heap_inv E s C F L \<Longrightarrow> x \<in> headers C \<Longrightarrow> pg_round_down x \<in> dom C"
  using header_page(1) chunk_first(1) by (fastforce simp: headers_def)

text \<open>New pages for the allocator, with the header written.\<close>

lemma set_arena_simps [simp]:
  "descs (set_arena a d n s) = descs s" "desc_cnt (set_arena a d n s) = desc_cnt s" "descs_at (set_arena a d n s) = descs_at s"
  "kernel_pool (set_arena a d n s) = kernel_pool s" "palloc_wf (set_arena a d n s) = palloc_wf s"
  "used_pages (set_arena a d n s) = used_pages s" "same_pools t (set_arena a d n s) = same_pools t s"
  "descs_ok (set_arena a d n s) = descs_ok s" "desc_ptr i (set_arena a d n s) = desc_ptr i s"
  by (simp_all add: set_arena_def palloc_wf_def used_pages_def same_pools_def get_pool_def descs_ok_def desc_ptr_def)

lemma set_arena_mem:
  "x \<notin> {a, a + 4, a + 8} \<Longrightarrow> pmem (set_arena a d n s) x = pmem s x"
  "pmem (set_arena a d n s) a = ARENA_MAGIC" "pmem (set_arena a d n s) (a + 4) = d" "pmem (set_arena a d n s) (a + 8) = n"
  by (simp_all add: set_arena_def)

lemma new_pages:
  assumes inv: "heap_inv {} s C F L" and w: "palloc_wf s1" "same_pools s s1" "palloc_state.more s1 = palloc_state.more s"
    and G: "used_pages s1 = used_pages s \<union> G" "used_pages s \<inter> G = {}" "a \<in> G" and m: "pmem s1 = pmem s"
  shows "heap_inv {} (set_arena a d n s1) C F L" "C a = None"
    "chunk_pages a c \<subseteq> G \<Longrightarrow> fresh_chunk a c C \<and> chunk_pages a c \<subseteq> used_pages (set_arena a d n s1) - F"
proof -
  show na: "C a = None" using chunk_used [OF inv, of a] G(2,3) by fastforce
  have fa: "frame_addr a" using used_pages_frame [OF w(1)] G(1,3) by blast
  have "x \<notin> {a, a + 4, a + 8}" if "x \<in> headers C" for x
    using header_used [OF inv that] header_page(1) [OF fa, of x] na by auto
  then show "heap_inv {} (set_arena a d n s1) C F L"
    using inv w palloc_more [OF w(3)] m G(1) heapD(3) [OF inv]
    by (intro heap_frame [OF inv]) (auto simp: set_arena_mem dest!: heapD(7) [OF inv, THEN subsetD, rotated])
  show "fresh_chunk a c C \<and> chunk_pages a c \<subseteq> used_pages (set_arena a d n s1) - F" if "chunk_pages a c \<subseteq> G"
    using that na heapD(3,7) [OF inv] G(1,2) unfolding fresh_chunk_def by (auto; blast)
qed

text \<open>The number of pages for a big block: enough, or zero where the sum wraps around.\<close>

lemma pages_needed:
  assumes "unat sz + 12 \<le> 2 ^ 32"
  shows "DIV_ROUND_UP (sz + ARENA_SIZE) PGSIZE = 0 \<or> unat sz + 12 \<le> 4096 * unat (DIV_ROUND_UP (sz + ARENA_SIZE) PGSIZE)"
proof (cases "unat sz + 4107 < 4294967296")
  case True
  then have "unat (sz + ARENA_SIZE) = unat sz + 12" by (subst unat_plus_no_overflow) (simp_all add: ARENA_SIZE_def)
  then have "unat (DIV_ROUND_UP (sz + ARENA_SIZE) PGSIZE) = (unat sz + 12 + 4095) div 4096"
    using True by (subst DIV_ROUND_UP_unat) simp_all
  then show ?thesis using mult_div_mod_eq [of 4096 "unat sz + 12 + 4095"] mod_less_divisor [of 4096 "unat sz + 12 + 4095"]
    by linarith
next
  case False
  have "unat (sz + 4107) = (unat sz + 4107) mod 4294967296" by (simp add: unat_word_ariths)
  also have "\<dots> = unat sz + 4107 - 4294967296" using False assms by (simp add: mod_if)
  finally have "unat (sz + 4107) div 4096 = 0" using assms by simp
  moreover have "DIV_ROUND_UP (sz + ARENA_SIZE) PGSIZE = (sz + 4107) div 4096"
    by (simp add: DIV_ROUND_UP_def ARENA_SIZE_def PGSIZE_eq algebra_simps)
  ultimately show ?thesis by (simp add: unat_eq_iff unat_div)
qed


text \<open>What an allocation gives: a null pointer and no change, or a block that was not in use; only headers are written.\<close>

definition gives_block :: "'a malloc_state_scheme \<Rightarrow> (u32 \<rightharpoonup> chunk) \<Rightarrow> u32 set \<Rightarrow> (u32 \<rightharpoonup> u32) \<Rightarrow> u32 \<Rightarrow> u32 \<Rightarrow> 'a malloc_state_scheme \<Rightarrow> bool" where
  "gives_block s C F L sz b s' \<longleftrightarrow> b = 0 \<and> s' = s
     \<or> b \<noteq> 0 \<and> L b = None \<and> (\<exists>C'. heap_inv {} s' C' F (L(b \<mapsto> sz)) \<and> (\<forall>x. x \<notin> headers C' \<longrightarrow> pmem s' x = pmem s x))"

lemma malloc_big_spec:
  assumes inv: "heap_inv {} s C F L" and sz: "unat sz + 12 \<le> 2 ^ 32"
  shows "\<exists>b s'. malloc_big sz s = Some (b, s') \<and> gives_block s C F L sz b s'"
proof -
  define n where "n = DIV_ROUND_UP (sz + ARENA_SIZE) PGSIZE"
  note w = heapD(1) [OF inv]
  show ?thesis
  proof (cases "n = 0")
    case True
    then show ?thesis by (simp add: malloc_big_def gives_block_def palloc_get_multiple_def n_def [symmetric])
  next
    case nz: False
    show ?thesis
    proof (cases rule: palloc_get_multiple_cases [OF w nz refl, of 0])
      case 1
      then show ?thesis by (simp add: malloc_big_def gives_block_def n_def [symmetric])
    next
      case (2 j s1)
      define a where "a = page_at (kernel_pool s) j"
      have r: "palloc_get_multiple 0 n s = Some (a, s1)" "frame_addr a" "j + unat n \<le> npages (kernel_pool s)"
        using 2 by (simp_all add: a_def get_pool_def)
      let ?G = "group_pages (kernel_pool s) j (unat n)"
      have t: "palloc_wf s1" "same_pools s s1" "palloc_state.more s1 = palloc_state.more s" "used_pages s1 = used_pages s \<union> ?G"
          "used_pages s \<inter> ?G = {}" "pmem s1 = pmem s"
        using 2(2) by (simp_all add: takes_group_def get_pool_def Let_def fun_eq_iff)
      note g = big_group [OF w a_def r(3) nz]
      have "a \<in> ?G" using nz by (auto simp: group_pages_def a_def unat_gt_0)
      note np = new_pages(1) [OF inv t(1-5) this t(6), of 0 n] new_pages(2) [OF inv t(1-5) this t(6)]
        new_pages(3) [OF inv t(1-5) this t(6), of _ 0 n]
      let ?s = "set_arena a 0 n s1"
      have fr: "fresh_chunk a (Big n) C" "chunk_pages a (Big n) \<subseteq> used_pages ?s - F" using np(3) [of "Big n"] g(1) by simp_all
      have "chunk_ok {} ?s a (Big n)"
        using nz r(3) same_pools_kernel [OF t(2)] by (auto simp: set_arena_mem a_def)
      moreover have "unat sz + 12 \<le> 4096 * unat n" using pages_needed [OF sz] nz by (simp add: n_def)
      ultimately have inv': "heap_inv {} ?s (C(a \<mapsto> Big n)) F (L(a + 12 \<mapsto> sz))" by (intro add_big [OF np(1) fr(1) _ fr(2)])
      have pg: "pg_round_down (a + 12) = a" using offset_page(1) [OF r(2), of 12] by simp
      then have "L (a + 12) = None" using live_page [OF inv, of "a + 12"] np(2) by (cases "L (a + 12)") auto
      moreover have "x \<notin> headers (C(a \<mapsto> Big n)) \<longrightarrow> pmem ?s x = pmem s x" for x
        by (simp add: headers_def set_arena_mem(1) t(6))
      ultimately have "gives_block s C F L sz (a + 12) ?s"
        using inv' block_nonzero [OF r(2) pg] unfolding gives_block_def by blast
      moreover have "malloc_big sz s = Some (a + 12, ?s)"
        using r(1) frame_nonzero [OF r(2)] unfolding malloc_big_def n_def [symmetric] Let_def by (simp add: ARENA_SIZE_def)
      ultimately show ?thesis by blast
    qed
  qed
qed

lemma new_arena_spec:
  assumes inv: "heap_inv {} s C F L" and i: "i < 7"
  shows "new_arena i s = Some (False, s)
    \<or> (\<exists>a s'. new_arena i s = Some (True, s') \<and> C a = None \<and> heap_inv {a} s' (C(a \<mapsto> Arena i)) F L
        \<and> free_list (descs s' ! i) = free_list (descs s ! i) @ map (slot a i) [0..<bpa i]
        \<and> (\<forall>x. x \<notin> {a, a + 4, a + 8} \<longrightarrow> pmem s' x = pmem s x))"
proof -
  note w = heapD(1) [OF inv] and d = heapD(2) [OF inv]
  show ?thesis
  proof (cases rule: palloc_get_multiple_cases [OF w one_neq_zero refl, of 0])
    case 1
    then show ?thesis by (simp add: new_arena_def palloc_get_page_def)
  next
    case (2 j s1)
    define a where "a = page_at (kernel_pool s) j"
    have r: "palloc_get_page 0 s = Some (a, s1)" "frame_addr a"
      using 2 by (simp_all add: a_def get_pool_def palloc_get_page_def)
    have t: "palloc_wf s1" "same_pools s s1" "palloc_state.more s1 = palloc_state.more s" "used_pages s1 = used_pages s \<union> {a}"
        "used_pages s \<inter> {a} = {}" "pmem s1 = pmem s"
      using 2(2) by (simp_all add: takes_group_def get_pool_def Let_def fun_eq_iff group_pages_def a_def)
    let ?n = "of_nat (bpa i) :: u32" and ?s = "set_arena a (desc_ptr i s1) (of_nat (bpa i)) s1"
    note np = new_pages(1) [OF inv t(1-5) singletonI t(6), of "desc_ptr i s1" ?n] new_pages(2) [OF inv t(1-5) singletonI t(6)]
      new_pages(3) [OF inv t(1-5) singletonI t(6), of _ "desc_ptr i s1" ?n]
    have n: "blocks_per_arena (descs s1 ! i) = ?n" "unat ?n = bpa i"
      using d i palloc_more [OF t(3)] bpa_le [of i] by (simp_all add: descs_ok_def unat_of_nat_32)
    have fr: "fresh_chunk a (Arena i) C" "a \<in> used_pages ?s - F" using np(3) [of "Arena i"] by simp_all
    have "foldM (\<lambda>k s. do { b \<leftarrow> arena_to_block a (of_nat k) s; Some (upd_desc i (\<lambda>fl. fl @ [b]) s) }) [0..<bpa i] ?s
        = Some (upd_desc i (\<lambda>fl. fl @ map (slot a i) [0..<bpa i]) ?s)"
      using heapD(2) [OF np(1)] r(2) i by (intro push_slots) (simp_all add: set_arena_mem)
    then have "new_arena i s = Some (True, upd_desc i (\<lambda>fl. fl @ map (slot a i) [0..<bpa i]) ?s)"
      using r(1) frame_nonzero [OF r(2)] n by (simp add: new_arena_def Let_def)
    moreover have "heap_inv {a} (upd_desc i (\<lambda>fl. fl @ map (slot a i) [0..<bpa i]) ?s) (C(a \<mapsto> Arena i)) F L"
      by (intro add_arena [OF np(1) fr(1) i fr(2)]) (simp_all add: set_arena_mem)
    moreover have "i < length (descs ?s)" using desc_length [OF heapD(2) [OF np(1)] i] .
    ultimately show ?thesis using np(2) t(6) palloc_more [OF t(3)]
      by (intro disjI2 exI [of _ a]) (simp add: upd_desc_list set_arena_mem(1))
  qed
qed

text \<open>The descriptor that is chosen has blocks large enough.\<close>

lemma find_desc_fits:
  assumes "descs_ok s" "find_desc sz s \<noteq> desc_cnt s"
  shows "find_desc sz s < 7" "unat sz \<le> bsz (find_desc sz s)"
proof -
  let ?xs = "take (desc_cnt s) (descs s)" and ?P = "\<lambda>d. \<not> block_size d \<ge> sz"
  have l: "length ?xs = 7" using assms(1) by (simp add: descs_ok_def)
  have "length (takeWhile ?P ?xs) \<le> 7" using length_takeWhile_le [of ?P ?xs] unfolding l .
  then show lt: "find_desc sz s < 7" using assms by (simp add: find_desc_def descs_ok_def)
  then have "length (takeWhile ?P ?xs) < length ?xs" unfolding l find_desc_def .
  then have "\<not> ?P (?xs ! find_desc sz s)" unfolding find_desc_def by (rule nth_length_takeWhile)
  then have "sz \<le> of_nat (bsz (find_desc sz s))" using lt assms(1) by (simp add: descs_ok_def)
  moreover have "unat (of_nat (bsz (find_desc sz s)) :: u32) = bsz (find_desc sz s)"
    using bsz_le [OF lt] by (intro unat_of_nat_32) simp
  ultimately show "unat sz \<le> bsz (find_desc sz s)" by (simp add: word_le_nat_alt)
qed


lemma pop_spec:
  assumes inv: "heap_inv E s1 C1 F L" and i: "i < 7" and fl: "free_list (descs s1 ! i) = b # r" and sz: "unat sz \<le> bsz i"
    and E: "E \<subseteq> {pg_round_down b}"
  shows "\<exists>s'. (let s = upd_desc i tl s1 in do { a \<leftarrow> block_to_arena b s; Some (b, s\<lparr>pmem := (pmem s)(a + 8 := pmem s (a + 8) - 1)\<rparr>) })
        = Some (b, s') \<and> b \<noteq> 0 \<and> L b = None \<and> heap_inv {} s' C1 F (L(b \<mapsto> sz)) \<and> (\<forall>x. x \<notin> headers C1 \<longrightarrow> pmem s' x = pmem s1 x)"
proof -
  obtain a k where b: "b = slot a i k" "k < bpa i" "C1 a = Some (Arena i)" "frame_addr a"
    using free_block [OF inv i, of b] fl by auto
  have pg: "pg_round_down b = a" using slot_page(1) [OF b(4,2)] b(1) by simp
  have ok: "pmem s1 a = ARENA_MAGIC" "pmem s1 (a + 4) = desc_ptr i s1" using heapD(6) [OF inv b(3)] by simp_all
  have "block_to_arena b (upd_desc i tl s1) = Some a"
    unfolding b(1) using heapD(2) [OF inv] b(2,4) i ok by (intro block_to_arena_slot) simp_all
  moreover have "heap_inv {} ((upd_desc i tl s1)\<lparr>pmem := (pmem s1)(a + 8 := pmem s1 (a + 8) - 1)\<rparr>) C1 F (L(b \<mapsto> sz))"
    using pop_block [OF inv i fl sz b(1-3)] E pg by simp
  moreover have "L b = None"
  proof (rule ccontr)
    assume "L b \<noteq> None"
    then obtain sz' where "L b = Some sz'" by auto
    from live_page [OF inv this] show False using pg b(3) fl by auto
  qed
  moreover have "a + 8 \<in> headers C1" using b(3) by (auto simp: headers_def)
  ultimately show ?thesis using block_nonzero [OF b(4) pg] by (auto simp: Let_def)
qed

lemma malloc_spec:
  assumes inv: "heap_inv {} s C F L" and sz: "unat sz + 12 \<le> 2 ^ 32"
  shows "\<exists>b s'. malloc sz s = Some (b, s') \<and> gives_block s C F L sz b s'"
proof -
  define i where "i = find_desc sz s"
  consider (zero) "sz = 0" | (big) "sz \<noteq> 0" "i = desc_cnt s" | (small) "sz \<noteq> 0" "i \<noteq> desc_cnt s" by blast
  then show ?thesis
  proof cases
    case zero
    then show ?thesis by (simp add: malloc_def gives_block_def)
  next
    case big
    then show ?thesis using malloc_big_spec [OF inv sz] by (simp add: malloc_def i_def)
  next
    case small
    have i: "i < 7" "unat sz \<le> bsz i" using find_desc_fits [OF heapD(2) [OF inv]] small(2) unfolding i_def by blast+
    show ?thesis
    proof (cases "free_list (descs s ! i)")
      case (Cons b r)
      then obtain s' where "malloc sz s = Some (b, s')" "b \<noteq> 0" "L b = None" "heap_inv {} s' C F (L(b \<mapsto> sz))"
          "\<forall>x. x \<notin> headers C \<longrightarrow> pmem s' x = pmem s x"
        using pop_spec [OF inv i(1) Cons i(2)] small by (auto simp: malloc_def i_def [symmetric])
      then show ?thesis unfolding gives_block_def by blast
    next
      case Nil
      show ?thesis
      proof (cases "new_arena i s = Some (False, s)")
        case True
        then show ?thesis using small Nil by (simp add: malloc_def i_def [symmetric] gives_block_def)
      next
        case False
        then obtain a s1 where n: "new_arena i s = Some (True, s1)" "C a = None" "heap_inv {a} s1 (C(a \<mapsto> Arena i)) F L"
            "free_list (descs s1 ! i) = map (slot a i) [0..<bpa i]" "\<forall>x. x \<notin> {a, a + 4, a + 8} \<longrightarrow> pmem s1 x = pmem s x"
          using new_arena_spec [OF inv i(1)] Nil by auto
        have fl: "free_list (descs s1 ! i) = slot a i 0 # map (slot a i) [1..<bpa i]"
          using n(4) bpa_pos [OF i(1)] by (simp add: upt_conv_Cons)
        have "frame_addr a" using chunk_first(1) [OF n(3)] by simp
        then have "{a} \<subseteq> {pg_round_down (slot a i 0)}" using slot_page(1) bpa_pos [OF i(1)] by simp
        from pop_spec [OF n(3) i(1) fl i(2) this] obtain s' where p: "malloc sz s = Some (slot a i 0, s')" "slot a i 0 \<noteq> 0"
            "L (slot a i 0) = None" "heap_inv {} s' (C(a \<mapsto> Arena i)) F (L(slot a i 0 \<mapsto> sz))"
            "\<forall>x. x \<notin> headers (C(a \<mapsto> Arena i)) \<longrightarrow> pmem s' x = pmem s1 x"
          using small Nil n(1) fl by (auto simp: malloc_def i_def [symmetric])
        have "\<forall>x. x \<notin> headers (C(a \<mapsto> Arena i)) \<longrightarrow> pmem s' x = pmem s x"
          using p(5) n(5) by (auto simp: headers_def)
        then show ?thesis using p(1-4) unfolding gives_block_def by blast
      qed
    qed
  qed
qed


section \<open>Release\<close>

lemma resize_block: "heap_inv E s C F L \<Longrightarrow> C a = Some c \<Longrightarrow> block_in s a c b sz \<Longrightarrow> heap_inv E s C F (L(b \<mapsto> sz))"
  by (auto simp: heap_inv_def)

definition live_kept :: "(u32 \<rightharpoonup> u32) \<Rightarrow> 'a malloc_state_scheme \<Rightarrow> 'a malloc_state_scheme \<Rightarrow> bool" where
  "live_kept L s s' \<longleftrightarrow> (\<forall>b sz x. L b = Some sz \<longrightarrow> x - b < sz \<longrightarrow> pmem s' x = pmem s x)"

lemma live_keptD: "live_kept L s s' \<Longrightarrow> L b = Some sz \<Longrightarrow> x - b < sz \<Longrightarrow> pmem s' x = pmem s x"
  by (simp add: live_kept_def)

lemma live_kept_trans: "live_kept L s s1 \<Longrightarrow> live_kept L s1 s2 \<Longrightarrow> live_kept L s s2"
  by (simp add: live_kept_def)

lemma live_kept_upd:
  assumes "live_kept (L(b \<mapsto> sz)) s s'" "L b = None"
  shows "live_kept L s s'"
  unfolding live_kept_def
proof (intro allI impI)
  fix c sz' x
  assume c: "L c = Some sz'" "x - c < sz'"
  then have "(L(b \<mapsto> sz)) c = Some sz'" using assms(2) by auto
  then show "pmem s' x = pmem s x" using live_keptD [OF assms(1)] c(2) by blast
qed

lemma only_headers_kept:
  assumes "heap_inv E s C F L" "\<And>x. x \<notin> headers C \<Longrightarrow> pmem t' x = pmem t x"
  shows "live_kept L t t'"
  unfolding live_kept_def using heapD(8) [OF assms(1)] block_words(2) [OF assms(1)] assms(2) by blast

text \<open>Pages that belong to no chunk go back to the page allocator.\<close>

lemma returned_pages:
  assumes inv: "heap_inv {} s C F L" and g: "gives_back G s s'" and F: "G \<inter> F = {}"
    and ap: "\<And>a c. C a = Some c \<Longrightarrow> chunk_pages a c \<inter> G = {}"
  shows "heap_inv {} s' C F L" "live_kept L s s'"
proof -
  have g': "palloc_wf s'" "same_pools s s'" "used_pages s' = used_pages s - G" "palloc_state.more s' = palloc_state.more s"
    and m: "\<And>x. pg_round_down x \<notin> G \<Longrightarrow> pmem s' x = pmem s x"
    using g by (simp_all add: gives_back_def)
  have "pg_round_down x \<notin> G" if "x \<in> headers C" for x
    using header_used [OF inv that] chunk_first(2) [OF inv] ap by blast
  moreover have "chunk_pages a c \<subseteq> used_pages s' - F" if "C a = Some c" for a c
    using heapD(7) [OF inv that] ap [OF that] g'(3) by blast
  moreover have "F \<subseteq> used_pages s'" using heapD(3) [OF inv] F g'(3) by blast
  ultimately show "heap_inv {} s' C F L" using palloc_more [OF g'(4)] m by (intro heap_frame [OF inv g'(1,2)]) auto
  show "live_kept L s s'"
    unfolding live_kept_def using heapD(8) [OF inv] block_words(1) [OF inv] ap m by (metis disjoint_iff)
qed

lemma block_to_arena_big:
  assumes "heap_inv E s C F L" "C a = Some (Big n)"
  shows "block_to_arena (a + 12) s = Some a" "pg_ofs (a + 12) = 12"
proof -
  note fa = chunk_first(1) [OF assms] and p = offset_page [OF chunk_first(1) [OF assms], of 12]
  show "pg_ofs (a + 12) = 12" using p(2) by (simp add: unat_eq_iff)
  then show "block_to_arena (a + 12) s = Some a"
    using p(1) heapD(6) [OF assms] frame_nonzero [OF fa] by (simp add: block_to_arena_def ARENA_SIZE_def)
qed

lemma block_size_live:
  assumes inv: "heap_inv E s C F L" and b: "L b = Some sz"
  shows "\<exists>n. block_size_of b s = Some n \<and> sz \<le> n"
proof -
  obtain a c where c: "C a = Some c" "block_in s a c b sz" using heapD(8) [OF inv b] by blast
  note fa = chunk_first(1) [OF inv c(1)] and d = heapD(2) [OF inv] and ok = heapD(6) [OF inv c(1)]
  show ?thesis
  proof (cases c)
    case (Arena i)
    then obtain k where k: "k < bpa i" "b = slot a i k" "unat sz \<le> bsz i" using c(2) by auto
    have i: "i < 7" "pmem s a = ARENA_MAGIC" "pmem s (a + 4) = desc_ptr i s" using ok Arena by simp_all
    have "unat (of_nat (bsz i) :: u32) = bsz i" using bsz_le [OF i(1)] by (intro unat_of_nat_32) simp
    then have "sz \<le> block_size (descs s ! i)" using k(3) d i(1) by (simp add: descs_ok_def word_le_nat_alt)
    then show ?thesis using block_to_arena_slot [OF d fa i(1) k(1) i(2,3)] desc_index_ptr [OF d i(1)] i(3) k(2)
      by (simp add: block_size_of_def)
  next
    case (Big n)
    then have n: "b = a + 12" "unat sz + 12 \<le> 4096 * unat n" "pmem s (a + 4) = 0" "pmem s (a + 8) = n" "n \<noteq> 0"
      using c(2) ok by simp_all
    obtain j where "a = page_at (kernel_pool s) j" "j + unat n \<le> npages (kernel_pool s)" using ok Big by auto
    from big_group(4) [OF heapD(1) [OF inv] this n(5)] have "unat (PGSIZE * n - 12) = 4096 * unat n - 12"
      using n(2) by (subst unat_minus_no_underflow) simp_all
    then have "sz \<le> PGSIZE * n - 12" using n(2) by (simp add: word_le_nat_alt)
    then show ?thesis using block_to_arena_big [OF inv c(1) [unfolded Big]] n by (simp add: block_size_of_def)
  qed
qed

lemma free_big:
  assumes inv: "heap_inv {} s C F L" and a: "C a = Some (Big n)" and b: "b = a + 12"
  shows "\<exists>s'. free b s = Some s' \<and> heap_inv {} s' (C(a := None)) F (L(b := None)) \<and> live_kept (L(b := None)) s s'"
proof -
  note w = heapD(1) [OF inv] and fa = chunk_first(1) [OF inv a]
  have ok: "n \<noteq> 0" "pmem s a = ARENA_MAGIC" "pmem s (a + 4) = 0" "pmem s (a + 8) = n" using heapD(6) [OF inv a] by simp_all
  obtain j where j: "a = page_at (kernel_pool s) j" "j + unat n \<le> npages (kernel_pool s)" using heapD(6) [OF inv a] by auto
  let ?G = "chunk_pages a (Big n)"
  have G: "?G = group_pages (get_pool False s) j (unat n)" using big_group(1) [OF w j ok(1)] by (simp add: get_pool_def)
  have "pg_round_down b = a" using offset_page(1) [OF fa, of 12] b by simp
  then have "b \<noteq> 0" using block_nonzero [OF fa] by blast
  then have fr: "free b s = palloc_free_multiple a n s" using block_to_arena_big(1) [OF inv a] b ok by (simp add: free_def)
  obtain s' where s': "palloc_free_multiple a n s = Some s'" "gives_back ?G s s'"
    using free_after [OF w ok(1), of j False] j heapD(7) [OF inv a] G by (auto simp: get_pool_def split: if_splits)
  have "arena_slots (C(a := None)) i = arena_slots C i" for i
    using a by (auto simp: arena_slots_def) (metis chunk.distinct(1) option.inject)
  then have lo: "lists_ok s (C(a := None))" using heapD(5) [OF inv] by (simp add: lists_ok_def)
  have lv: "\<exists>a' c. a' \<noteq> a \<and> C a' = Some c \<and> block_in s a' c b' sz" if L': "(L(b := None)) b' = Some sz" for b' sz
  proof -
    obtain a' c where "C a' = Some c" "block_in s a' c b' sz" using L' heapD(8) [OF inv, of b' sz] by (auto split: if_splits)
    moreover have "a' \<noteq> a" using calculation L' a b by (auto split: if_splits)
    ultimately show ?thesis by blast
  qed
  have "heap_inv ({} - {a}) s (C(a := None)) F (L(b := None))" using lo lv by (rule remove_chunk [OF inv])
  then have inv': "heap_inv {} s (C(a := None)) F (L(b := None))" by simp
  have "?G \<inter> F = {}" using heapD(7) [OF inv a] by blast
  moreover have "chunk_pages a' c \<inter> ?G = {}" if "(C(a := None)) a' = Some c" for a' c
    using heapD(4) [OF inv] a that unfolding chunks_apart_def by (metis fun_upd_apply option.distinct(1))
  ultimately show ?thesis using returned_pages [OF inv' s'(2)] fr s'(1) by auto
qed


text \<open>A block of an arena goes back to the free list of its descriptor.\<close>

definition pushed :: "nat \<Rightarrow> u32 \<Rightarrow> u32 \<Rightarrow> 'a malloc_state_scheme \<Rightarrow> 'a malloc_state_scheme" where
  "pushed i a b s = (let s = upd_desc i ((#) b) (memset_words b 0xcc (of_nat (bsz i)) s)
     in s\<lparr>pmem := (pmem s)(a + 8 := pmem s (a + 8) + 1)\<rparr>)"

lemma memset_words_descs [simp]:
  fixes s :: "'a malloc_state_scheme"
  shows "descs (memset_words d v n s) = descs s" "desc_cnt (memset_words d v n s) = desc_cnt s" "descs_at (memset_words d v n s) = descs_at s"
  by (simp_all add: memset_words_def)

lemma pushed_inv:
  assumes inv: "heap_inv {} s C F L" and b: "b = slot a i k" "k < bpa i" "C a = Some (Arena i)" "b \<notin> set (free_list (descs s ! i))"
  shows "heap_inv {a} (pushed i a b s) C F (L(b := None))" "live_kept (L(b := None)) s (pushed i a b s)"
proof -
  let ?m = "memset_words b 0xcc (of_nat (bsz i)) s"
  have i: "i < 7" using heapD(6) [OF inv b(3)] by simp
  have u: "unat (of_nat (bsz i) :: u32) = bsz i" using bsz_le [OF i] by (intro unat_of_nat_32) simp
  have bi: "block_in s a (Arena i) b (of_nat (bsz i))" using b u by auto
  have "x \<notin> headers C" if "x - b < of_nat (bsz i)" for x using block_words(2) [OF inv b(3) bi that] .
  then have "heap_inv {} ?m C F L"
    using heapD(1,3,7) [OF inv] by (intro heap_frame [OF inv]) (auto simp: memset_words_mem same_pools_update same_pools_def)
  from push_block [OF this b(1-3)] b(4) show p: "heap_inv {a} (pushed i a b s) C F (L(b := None))"
    by (simp add: pushed_def Let_def)
  have "a + 8 \<in> headers C" using b(3) by (auto simp: headers_def)
  then have h: "live_kept (L(b := None)) ?m (pushed i a b s)" by (intro only_headers_kept [OF p]) (auto simp: pushed_def)
  have "live_kept (L(b := None)) s ?m"
    unfolding live_kept_def
  proof (intro allI impI)
    fix c sz x
    assume c: "(L(b := None)) c = Some sz" "x - c < sz"
    then have "\<not> x - b < of_nat (bsz i)"
      using blocks_apart [OF resize_block [OF inv b(3) bi], of c sz b "of_nat (bsz i)" x] by (auto split: if_splits)
    then show "pmem ?m x = pmem s x" by (simp add: memset_words_mem)
  qed
  then show "live_kept (L(b := None)) s (pushed i a b s)" using h by (rule live_kept_trans)
qed

lemma free_small:
  assumes inv: "heap_inv {} s C F L" and b: "b = slot a i k" "k < bpa i" "C a = Some (Arena i)" "b \<notin> set (free_list (descs s ! i))"
  shows "\<exists>s' C'. free b s = Some s' \<and> heap_inv {} s' C' F (L(b := None)) \<and> live_kept (L(b := None)) s s'"
proof -
  note fa = chunk_first(1) [OF inv b(3)] and d = heapD(2) [OF inv]
  have ok: "i < 7" "pmem s a = ARENA_MAGIC" "pmem s (a + 4) = desc_ptr i s" using heapD(6) [OF inv b(3)] by simp_all
  let ?s = "pushed i a b s" and ?n = "of_nat (bpa i) :: u32"
  note p = pushed_inv [OF inv b]
  have ok': "pmem ?s a = ARENA_MAGIC" "pmem ?s (a + 4) = desc_ptr i ?s" "unat (pmem ?s (a + 8)) = card (free_slots ?s a i)"
    using heapD(6) [OF p(1) b(3)] by simp_all
  have ne: "b \<noteq> 0" using block_nonzero [OF fa slot_page(1) [OF fa b(2)]] b(1) by simp
  have bs: "block_size (descs s ! i) = of_nat (bsz i)" "blocks_per_arena (descs s ! i) = ?n" using d ok(1) by (simp_all add: descs_ok_def)
  have un: "unat ?n = bpa i" using bpa_le [of i] by (intro unat_of_nat_32) simp
  let ?rest = "\<lambda>s. if pmem s (a + 8) \<ge> ?n then do {
      ASSERT (pmem s (a + 8) = ?n);
      s \<leftarrow> foldM (\<lambda>k s. do {
             b \<leftarrow> arena_to_block a (of_nat k) s;
             ASSERT (b \<in> set (free_list (descs s ! i)));
             Some (upd_desc i (remove1 b) s) }) [0..<unat ?n] s;
      palloc_free_page a s } else Some s"
  have fr: "free b s = ?rest ?s"
    using ne desc_index_ptr [OF d ok(1)] block_to_arena_slot [OF d fa ok(1) b(2) ok(2,3)] b(1) ok(3)
    by (simp add: free_def bs pushed_def Let_def)
  show ?thesis
  proof (cases "card (free_slots ?s a i) < bpa i")
    case True
    then have "\<not> pmem ?s (a + 8) \<ge> ?n" using ok'(3) un by (simp add: word_le_nat_alt)
    then show ?thesis using fr not_full [OF p(1) b(3) True] p(2) by auto
  next
    case False
    then have full: "card (free_slots ?s a i) = bpa i" using free_slots_card(2) [of ?s a i] by simp
    then have e: "pmem ?s (a + 8) = ?n" using ok'(3) un by (simp add: unat_eq_iff)
    define s2 where "s2 = upd_desc i (filter (\<lambda>b. b \<notin> slot a i ` {..<bpa i})) ?s"
    note ds = drop_slots [OF p(1) b(3) full s2_def]
    have di: "distinct (free_list (descs ?s ! i))" using heapD(5) [OF p(1)] ok(1) by (simp add: lists_ok_def)
    from remove_slots [OF heapD(2) [OF p(1)] fa ok(1) ok'(1,2) order_refl di ds(1)]
    have fr': "free b s = palloc_free_page a s2" unfolding fr using e by (simp add: un s2_def)
    have u: "a \<in> used_pages s2" "a \<notin> F" using chunk_used [OF p(1) b(3)] by (simp_all add: s2_def)
    obtain s3 where s3: "palloc_free_page a s2 = Some s3" "gives_back {a} s2 s3"
      using free_page_result [OF heapD(1) [OF ds(2)] u(1)] by blast
    have "chunk_pages a' c \<inter> {a} = {}" if "(C(a := None)) a' = Some c" for a' c
      using heapD(4) [OF inv] b(3) that chunk_pages.simps(1) [of a i] unfolding chunks_apart_def
      by (metis fun_upd_apply option.distinct(1))
    then have "heap_inv {} s3 (C(a := None)) F (L(b := None))" "live_kept (L(b := None)) s2 s3"
      using returned_pages [OF ds(2) s3(2)] u(2) by auto
    moreover have "live_kept (L(b := None)) s s2" using p(2) by (simp add: live_kept_def s2_def)
    ultimately show ?thesis using fr' s3(1) live_kept_trans by (intro exI [of _ s3] exI [of _ "C(a := None)"]) auto
  qed
qed

lemma free_spec:
  assumes inv: "heap_inv {} s C F L" and L: "L b = Some sz"
  shows "\<exists>s' C'. free b s = Some s' \<and> heap_inv {} s' C' F (L(b := None)) \<and> live_kept (L(b := None)) s s'"
proof -
  obtain a c where c: "C a = Some c" "block_in s a c b sz" using heapD(8) [OF inv L] by blast
  show ?thesis
  proof (cases c)
    case (Arena i)
    then show ?thesis using c free_small [OF inv] by auto
  next
    case (Big n)
    then show ?thesis using c free_big [OF inv, of a n b] by auto
  qed
qed


section \<open>Histories\<close>

text \<open>
  A history of the heap: start-up, allocations and releases by its clients, writes of clients into their blocks, and the
  use of pages by other parts of the kernel, which own the pages of \<^term>\<open>F\<close>.
\<close>

inductive heap_history :: "malloc_state \<Rightarrow> (u32 \<rightharpoonup> u32) \<Rightarrow> u32 set \<Rightarrow> bool" where
  start: "palloc_init ram limit s0 = Some s1 \<Longrightarrow> malloc_init s1 = Some s \<Longrightarrow> 258 \<le> unat ram \<Longrightarrow> unat ram < 262144 \<Longrightarrow> limit \<noteq> 0 \<Longrightarrow>
    desc_cnt s0 = 0 \<Longrightarrow> length (descs s0) = 10 \<Longrightarrow> descs_at s0 \<noteq> 0 \<Longrightarrow> unat (descs_at s0) + 560 < 2 ^ 32 \<Longrightarrow>
    heap_history s Map.empty {}"
| allocate: "heap_history s L F \<Longrightarrow> unat sz + 12 \<le> 2 ^ 32 \<Longrightarrow> malloc sz s = Some (b, s') \<Longrightarrow>
    heap_history s' (if b = 0 then L else L(b \<mapsto> sz)) F"
| release: "heap_history s L F \<Longrightarrow> L b = Some sz \<Longrightarrow> free b s = Some s' \<Longrightarrow> heap_history s' (L(b := None)) F"
| client_write: "heap_history s L F \<Longrightarrow> L b = Some sz \<Longrightarrow> (\<And>x. \<not> x - b < sz \<Longrightarrow> m x = pmem s x) \<Longrightarrow> heap_history (s\<lparr>pmem := m\<rparr>) L F"
| page_get: "heap_history s L F \<Longrightarrow> palloc_get_multiple flags n s = Some (p, s') \<Longrightarrow>
    heap_history s' L (F \<union> (used_pages s' - used_pages s))"
| page_free: "heap_history s L F \<Longrightarrow> palloc_free_multiple p n s = Some s' \<Longrightarrow> used_pages s - used_pages s' \<subseteq> F \<Longrightarrow>
    heap_history s' L (F \<inter> used_pages s')"
| page_write: "heap_history s L F \<Longrightarrow> r \<in> F \<Longrightarrow> (\<And>x. pg_round_down x \<noteq> r \<Longrightarrow> m x = pmem s x) \<Longrightarrow> heap_history (s\<lparr>pmem := m\<rparr>) L F"

lemma gives_back_empty: "palloc_wf s \<Longrightarrow> gives_back {} s s"
  by (simp add: gives_back_def same_pools_def)

lemma free_multiple_result:
  assumes w: "palloc_wf s" and f: "palloc_free_multiple p n s = Some s'"
  obtains G where "gives_back G s s'" "G \<subseteq> used_pages s"
proof (cases "p = 0 \<or> n = 0")
  case True
  then have "s' = s" using f by (auto simp: palloc_free_multiple_def ASSERT_bind_Some_iff)
  then show thesis using that gives_back_empty [OF w] by blast
next
  case False
  then have o: "pg_ofs p = 0" and q: "page_from_pool (kernel_pool s) p \<or> page_from_pool (user_pool s) p"
    using f by (auto simp: palloc_free_multiple_def ASSERT_bind_Some_iff split: if_splits)
  obtain u where "page_from_pool (get_pool u s) p" using q by (metis get_pool_def)
  then obtain i where i: "i < npages (get_pool u s)" "p = page_at (get_pool u s) i"
    using page_from_pool_iff [OF palloc_pool [OF w] o] by (auto simp: pool_pages_def)
  let ?G = "group_pages (get_pool u s) i (unat n)"
  have "n \<noteq> 0" using False by simp
  from free_group [OF w refl i(1) this] f i(2)
  have g: "i + unat n \<le> npages (get_pool u s)" "\<forall>k < unat n. bval (used_map (get_pool u s)) (i + k)" "gives_back ?G s s'"
    by (auto split: if_splits)
  then show thesis using that group_used_iff [OF w refl g(1)] by blast
qed

lemma malloc_init_ok:
  assumes "malloc_init s1 = Some s" "desc_cnt s1 = 0" "length (descs s1) = 10" "descs_at s1 \<noteq> 0" "unat (descs_at s1) + 560 < 2 ^ 32"
    "palloc_wf s1"
  shows "descs_ok s \<and> palloc_wf s \<and> (\<forall>i < 7. free_list (descs s ! i) = [])"
proof -
  obtain d0 d1 d2 d3 d4 d5 d6 d7 d8 d9 where d: "descs s1 = [d0, d1, d2, d3, d4, d5, d6, d7, d8, d9]"
    using assms(3) by (auto simp: numeral_eq_Suc length_Suc_conv)
  have "s = s1\<lparr>desc_cnt := 7, descs := map (\<lambda>i. \<lparr>block_size = of_nat (bsz i), blocks_per_arena = of_nat (bpa i), free_list = []\<rparr>) [0..<7] @ [d7, d8, d9]\<rparr>"
    using assms(1,2) d by (simp add: malloc_init_def malloc_init_loop.simps ASSERT_def PGSIZE_eq ARENA_SIZE_def bsz_def bpa_def upt_rec)
      (simp add: eval_nat_numeral)
  then show ?thesis using assms(4-6) by (auto simp: descs_ok_def palloc_wf_def nth_append)
qed


lemma write_inv:
  assumes inv: "heap_inv {} s C F L" and m: "\<And>x. x \<in> headers C \<Longrightarrow> m x = pmem s x"
  shows "heap_inv {} (s\<lparr>pmem := m\<rparr>) C F L"
  using heapD(1,3,7) [OF inv] m
  by (intro heap_frame [OF inv]) (auto simp: palloc_wf_def used_pages_def same_pools_def get_pool_def)

lemma page_get_inv:
  assumes inv: "heap_inv {} s C F L" and g: "palloc_get_multiple flags n s = Some (p, s')"
  shows "heap_inv {} s' C (F \<union> (used_pages s' - used_pages s)) L" "live_kept L s s'"
proof -
  note w = heapD(1) [OF inv]
  have "s' = s \<or> (\<exists>j. takes_group flags j n s s')"
  proof (cases "n = 0")
    case False
    show ?thesis by (cases rule: palloc_get_multiple_cases [OF w False refl, of flags]) (use g in \<open>auto split: if_splits\<close>)
  qed (use g in \<open>simp add: palloc_get_multiple_def\<close>)
  then obtain G where t: "palloc_wf s'" "same_pools s s'" "palloc_state.more s' = palloc_state.more s" "used_pages s' = used_pages s \<union> G"
      "used_pages s \<inter> G = {}" "\<And>x. pg_round_down x \<notin> G \<Longrightarrow> pmem s' x = pmem s x"
  proof (elim disjE exE)
    assume "s' = s"
    then show ?thesis using that [of "{}"] w by (simp add: same_pools_def)
  next
    fix j
    assume "takes_group flags j n s s'"
    then show ?thesis using that unfolding takes_group_def Let_def by metis
  qed
  have "pg_round_down x \<notin> G" if "x \<in> headers C" for x using header_used [OF inv that] chunk_used [OF inv] t(5) by blast
  moreover have "chunk_pages a c \<subseteq> used_pages s' - (F \<union> (used_pages s' - used_pages s))" if "C a = Some c" for a c
    using heapD(7) [OF inv that] t(4) by blast
  ultimately show "heap_inv {} s' C (F \<union> (used_pages s' - used_pages s)) L"
    using palloc_more [OF t(3)] t(4,6) heapD(3) [OF inv] by (intro heap_frame [OF inv t(1,2)]) auto
  show "live_kept L s s'"
    unfolding live_kept_def using heapD(7,8) [OF inv] block_words(1) [OF inv] t(5,6) by (metis DiffD1 disjoint_iff subsetD)
qed

lemma page_free_inv:
  assumes inv: "heap_inv {} s C F L" and f: "palloc_free_multiple p n s = Some s'" and F: "used_pages s - used_pages s' \<subseteq> F"
  shows "heap_inv {} s' C (F \<inter> used_pages s') L" "live_kept L s s'"
proof -
  obtain G where G: "gives_back G s s'" "G \<subseteq> used_pages s" by (rule free_multiple_result [OF heapD(1) [OF inv] f])
  have u: "used_pages s' = used_pages s - G" using G(1) by (simp add: gives_back_def)
  then have GF: "G \<subseteq> F" using F G(2) by blast
  have "heap_inv {} s C (F \<inter> used_pages s') L" using inv unfolding heap_inv_def by blast
  from returned_pages [OF this G(1)] show "heap_inv {} s' C (F \<inter> used_pages s') L" "live_kept L s s'"
    using u GF heapD(7) [OF inv] by blast+
qed

lemma history_inv: "heap_history s L F \<Longrightarrow> \<exists>C. heap_inv {} s C F L"
proof (induction rule: heap_history.induct)
  case (start ram limit s0 s1 s)
  obtain s' where s': "palloc_init ram limit s0 = Some s'" "palloc_wf s'" using palloc_init_spec [OF start(3-5), of s0] by blast
  have "desc_cnt s1 = 0" "length (descs s1) = 10" "descs_at s1 \<noteq> 0" "unat (descs_at s1) + 560 < 2 ^ 32"
    using start(1,6-9) by (auto simp: palloc_init_def Let_def bind_eq_Some_conv)
  then have "descs_ok s" "palloc_wf s" "\<forall>i < 7. free_list (descs s ! i) = []"
    using malloc_init_ok [OF start(2)] s' start(1) by auto
  then have "heap_inv {} s Map.empty {} Map.empty" by (simp add: heap_inv_def chunks_apart_def lists_ok_def)
  then show ?case by blast
next
  case (allocate s L F sz b s')
  then obtain C where "heap_inv {} s C F L" by blast
  then show ?case using malloc_spec [OF _ allocate(2)] allocate(3) unfolding gives_block_def by fastforce
next
  case (release s L F b sz s')
  then obtain C where "heap_inv {} s C F L" by blast
  from free_spec [OF this release(2)] release(3) obtain C' where "heap_inv {} s' C' F (L(b := None))" by auto
  then show ?case by blast
next
  case (client_write s L F b sz m)
  then obtain C where C: "heap_inv {} s C F L" by blast
  then obtain a c where "C a = Some c" "block_in s a c b sz" using heapD(8) client_write(2) by blast
  then have "m x = pmem s x" if "x \<in> headers C" for x using block_words(2) [OF C] client_write(3) that by blast
  then show ?case using write_inv [OF C] by blast
next
  case (page_get s L F flags n p s')
  then show ?case using page_get_inv by blast
next
  case (page_free s L F p n s')
  then show ?case using page_free_inv by blast
next
  case (page_write s L F r m)
  then obtain C where C: "heap_inv {} s C F L" by blast
  have "m x = pmem s x" if x: "x \<in> headers C" for x
  proof -
    have "pg_round_down x \<noteq> r" using header_used [OF C x] chunk_used [OF C] page_write(2) by blast
    then show ?thesis by (rule page_write(3))
  qed
  then show ?case using write_inv [OF C] by blast
qed


lemma history_malloc:
  assumes h: "heap_history s L F" and sz: "unat sz + 12 \<le> 2 ^ 32"
  obtains b s' where "malloc sz s = Some (b, s')" "live_kept L s s'" "b = 0 \<Longrightarrow> s' = s" "b \<noteq> 0 \<Longrightarrow> L b = None"
    "heap_history s' (if b = 0 then L else L(b \<mapsto> sz)) F"
proof -
  obtain C where C: "heap_inv {} s C F L" using history_inv [OF h] by blast
  obtain b s' where m: "malloc sz s = Some (b, s')" "gives_block s C F L sz b s'" using malloc_spec [OF C sz] by blast
  have "live_kept L s s'"
  proof (cases "b = 0")
    case True
    then show ?thesis using m(2) by (simp add: gives_block_def live_kept_def)
  next
    case False
    then obtain C' where C': "heap_inv {} s' C' F (L(b \<mapsto> sz))" "L b = None" "\<forall>x. x \<notin> headers C' \<longrightarrow> pmem s' x = pmem s x"
      using m(2) by (auto simp: gives_block_def)
    then have "live_kept (L(b \<mapsto> sz)) s s'" using only_headers_kept [OF C'(1)] by blast
    then show ?thesis using C'(2) by (rule live_kept_upd)
  qed
  then show thesis using that m allocate [OF h sz m(1)] by (auto simp: gives_block_def)
qed

lemma history_free:
  assumes h: "heap_history s L F" and b: "L b = Some sz"
  obtains s' where "free b s = Some s'" "live_kept (L(b := None)) s s'" "heap_history s' (L(b := None)) F"
proof -
  obtain C where "heap_inv {} s C F L" using history_inv [OF h] by blast
  from free_spec [OF this b] show thesis using that release [OF h b] by blast
qed

lemma history_apart:
  assumes "heap_history s L F" "L b = Some sz" "L c = Some sz'" "b \<noteq> c" "x - b < sz"
  shows "\<not> x - c < sz'"
  using history_inv [OF assms(1)] blocks_apart [OF _ assms(2-5)] by blast

lemma splice_whole: "4 \<le> n \<Longrightarrow> splice_bytes n v w = v"
  by (simp add: splice_bytes_def)

lemma word_inside:
  fixes d n :: u32
  assumes "unat d + 4 \<le> unat n"
  shows "d < n" "4 \<le> unat (n - d)"
  using assms by (auto simp: word_less_nat_alt unat_sub_if')

text \<open>Filling a new block with a copy of an old one, or with zeros, is a write into the new block.\<close>

lemma fill_block:
  assumes h: "heap_history s (L(p \<mapsto> n)) F" and L: "L p = None" and m: "\<And>x. \<not> x - p < n \<Longrightarrow> m x = pmem s x"
  shows "heap_history (s\<lparr>pmem := m\<rparr>) (L(p \<mapsto> n)) F" "live_kept L s (s\<lparr>pmem := m\<rparr>)"
proof -
  show "heap_history (s\<lparr>pmem := m\<rparr>) (L(p \<mapsto> n)) F" using m by (intro client_write [OF h, of p n]) auto
  show "live_kept L s (s\<lparr>pmem := m\<rparr>)"
    unfolding live_kept_def
  proof (intro allI impI)
    fix c sz x
    assume c: "L c = Some sz" "x - c < sz"
    then have "c \<noteq> p" using L by auto
    then have "\<not> x - p < n" using history_apart [OF h, of c sz p n x] c by simp
    then show "pmem (s\<lparr>pmem := m\<rparr>) x = pmem s x" using m by simp
  qed
qed

section \<open>Properties\<close>

lemma heap_blocks_nonzero:
  assumes "heap_history s L F" "L b = Some n"
  shows "b \<noteq> 0"
proof -
  obtain C where C: "heap_inv {} s C F L" using history_inv [OF assms(1)] by blast
  from live_page [OF C assms(2)] show ?thesis using block_nonzero [OF chunk_first(1) [OF C] refl] by metis
qed

text \<open>
  C6. In every history of the heap, allocation and release never panic: \<^verbatim>\<open>malloc\<close> returns for every size up to
  4 GB less the twelve bytes of a header, and \<^verbatim>\<open>free\<close> returns for every block in use. All words of the blocks in use
  lie in pages that are in use and belong to no one else, and two blocks have no word in common. An allocation returns a null
  pointer or a block that was not in use, and neither it nor a release changes a word of the blocks that stay in use.
\<close>

theorem heap_blocks_safe:
  assumes "heap_history s L F"
  shows "(\<forall>b sz x. L b = Some sz \<and> x - b < sz \<longrightarrow> pg_round_down x \<in> used_pages s - F)
     \<and> (\<forall>b sz c sz' x. L b = Some sz \<and> L c = Some sz' \<and> b \<noteq> c \<and> x - b < sz \<longrightarrow> \<not> x - c < sz')
     \<and> (\<forall>sz. unat sz + 12 \<le> 2 ^ 32 \<longrightarrow> (\<exists>b s'. malloc sz s = Some (b, s') \<and> live_kept L s s' \<and> L b = None))
     \<and> (\<forall>b sz. L b = Some sz \<longrightarrow> (\<exists>s'. free b s = Some s' \<and> live_kept (L(b := None)) s s'))"
proof (intro conjI allI impI; (elim conjE)?)
  obtain C where C: "heap_inv {} s C F L" using history_inv [OF assms] by blast
  show "pg_round_down x \<in> used_pages s - F" if "L b = Some sz" "x - b < sz" for b sz x
    using heapD(8) [OF C that(1)] block_words(1) [OF C _ _ that(2)] heapD(7) [OF C] by blast
  show "\<not> x - c < sz'" if "L b = Some sz" "L c = Some sz'" "b \<noteq> c" "x - b < sz" for b sz c sz' x
    using blocks_apart [OF C that] .
  show "\<exists>b s'. malloc sz s = Some (b, s') \<and> live_kept L s s' \<and> L b = None" if "unat sz + 12 \<le> 2 ^ 32" for sz
  proof -
    have "L 0 = None" using heap_blocks_nonzero [OF assms, of 0] by (meson not_Some_eq)
    then show ?thesis using history_malloc [OF assms that] by metis
  qed
  show "\<exists>s'. free b s = Some s' \<and> live_kept (L(b := None)) s s'" if "L b = Some sz" for b sz
    using history_free [OF assms that] by blast
qed


text \<open>
  C36. \<^verbatim>\<open>calloc\<close> of \<^term>\<open>a\<close> times \<^term>\<open>b\<close> bytes, where the product and a header fit in 4 GB, returns. It gives a null pointer or
  a block that was not in use, every whole word of which is zero, and leaves all other blocks as they are.
\<close>

theorem calloc_zeroes:
  assumes h: "heap_history s L F" and sz: "unat a * unat b + 12 \<le> 2 ^ 32"
  shows "\<exists>p s'. calloc a b s = Some (p, s') \<and> live_kept L s s' \<and> heap_history s' (if p = 0 then L else L(p \<mapsto> a * b)) F
     \<and> (p \<noteq> 0 \<longrightarrow> L p = None \<and> (\<forall>d. unat d + 4 \<le> unat a * unat b \<longrightarrow> pmem s' (p + d) = 0))"
proof (cases "a * b < a \<or> a * b < b")
  case True
  then show ?thesis using h by (simp add: calloc_def live_kept_def)
next
  case False
  have u: "unat (a * b) = unat a * unat b" using sz by (intro unat_mult_no_overflow) simp
  then obtain p s1 where m: "malloc (a * b) s = Some (p, s1)" "live_kept L s s1" "p \<noteq> 0 \<Longrightarrow> L p = None"
      "heap_history s1 (if p = 0 then L else L(p \<mapsto> a * b)) F"
    using history_malloc [OF h, of "a * b"] sz by metis
  show ?thesis
  proof (cases "p = 0")
    case True
    then show ?thesis using m False by (simp add: calloc_def)
  next
    case nz: False
    define m where "m = (\<lambda>x. if x - p < a * b then splice_bytes (unat (a * b - (x - p))) 0 (pmem s1 x) else pmem s1 x)"
    have h1: "heap_history s1 (L(p \<mapsto> a * b)) F" and Lp: "L p = None" using m(3,4) nz by simp_all
    note fb = fill_block [OF h1 Lp, of m]
    have "calloc a b s = Some (p, s1\<lparr>pmem := m\<rparr>)"
      using nz m(1) False by (simp add: calloc_def Let_def memset_bytes_def m_def cong: if_cong)
    moreover have "m (p + d) = 0" if "unat d + 4 \<le> unat a * unat b" for d
      using word_inside [of d "a * b"] that u by (simp add: splice_whole m_def)
    moreover have "m x = pmem s1 x" if "\<not> x - p < a * b" for x using that by (simp add: m_def)
    ultimately show ?thesis using nz fb Lp live_kept_trans [OF m(2)]
      by (intro exI [of _ p] exI [of _ "s1\<lparr>pmem := m\<rparr>"]) simp
  qed
qed



section \<open>Witnesses\<close>

text \<open>A machine with 264 pages of memory, started, and with a block of 1000 bytes in use.\<close>

definition heap_ex :: malloc_state where
  "heap_ex = \<lparr>kernel_pool = \<lparr>used_map = \<lparr>bit_cnt = 0, bits = []\<rparr>, pool_base = 0\<rparr>,
     user_pool = \<lparr>used_map = \<lparr>bit_cnt = 0, bits = []\<rparr>, pool_base = 0\<rparr>, pmem = (\<lambda>_. 0),
     descs = replicate 10 \<lparr>block_size = 0, blocks_per_arena = 0, free_list = []\<rparr>, desc_cnt = 0, descs_at = 0xc0030000\<rparr>"

definition heap_ex_block :: "(u32 \<times> malloc_state) option" where
  "heap_ex_block = do { s \<leftarrow> palloc_init 264 100 heap_ex; s \<leftarrow> malloc_init s; malloc 1000 s }"

lemma heap_ex_block_value: "map_option fst heap_ex_block = Some 0xc010100c"
  by code_simp

lemma heap_ex_history:
  obtains s where "heap_history s [0xc010100c \<mapsto> 1000] {}" "heap_ex_block = Some (0xc010100c, s)"
proof -
  obtain s where s: "heap_ex_block = Some (0xc010100c, s)" using heap_ex_block_value by auto
  then obtain s1 s2 where r: "palloc_init 264 100 heap_ex = Some s1" "malloc_init s1 = Some s2" "malloc 1000 s2 = Some (0xc010100c, s)"
    unfolding heap_ex_block_def bind_eq_Some_conv by blast
  have "heap_history s2 Map.empty {}" by (rule start [OF r(1,2)]) (simp_all add: heap_ex_def)
  from allocate [OF this _ r(3)] show thesis using that s by simp
qed

theorem heap_blocks_safe_witness:
  "\<exists>s b s'. heap_history s [0xc010100c \<mapsto> 1000] {} \<and> pg_round_down 0xc0101100 \<in> used_pages s
     \<and> malloc 1000 s = Some (b, s') \<and> b \<noteq> 0xc010100c \<and> free 0xc010100c s \<noteq> None"
proof -
  obtain s where h: "heap_history s [0xc010100c \<mapsto> 1000] {}" by (rule heap_ex_history)
  note t = heap_blocks_safe [OF h]
  have "pg_round_down 0xc0101100 \<in> used_pages s"
    using t [THEN conjunct1, THEN spec [of _ "0xc010100c"], THEN spec [of _ 1000], THEN spec [of _ "0xc0101100"]] by simp
  moreover obtain b s' where m: "malloc 1000 s = Some (b, s')" "[0xc010100c \<mapsto> 1000] b = (None :: u32 option)"
    using t [THEN conjunct2, THEN conjunct2, THEN conjunct1, THEN spec [of _ 1000]] by auto
  moreover have "free 0xc010100c s \<noteq> None"
    using t [THEN conjunct2, THEN conjunct2, THEN conjunct2, THEN spec [of _ "0xc010100c"], THEN spec [of _ 1000]] by auto
  moreover have "b \<noteq> 0xc010100c" using m(2) by auto
  ultimately show ?thesis using h by blast
qed

theorem calloc_zeroes_witness:
  "\<exists>s p s'. heap_history s [0xc010100c \<mapsto> 1000] {} \<and> calloc 25 40 s = Some (p, s') \<and> (p \<noteq> 0 \<longrightarrow> pmem s' (p + 996) = 0)"
proof -
  obtain s where h: "heap_history s [0xc010100c \<mapsto> 1000] {}" by (rule heap_ex_history)
  obtain p s' where "calloc 25 40 s = Some (p, s')" "p \<noteq> 0 \<Longrightarrow> \<forall>d. unat d + 4 \<le> 1000 \<longrightarrow> pmem s' (p + d) = 0"
    using calloc_zeroes [OF h, of 25 40] by auto
  then show ?thesis using h by (intro exI [of _ s] exI [of _ p] exI [of _ s']) simp
qed


end
