(* ===== verification/Page_Dir.thy ===== *)
theory Page_Dir
  imports Page_Alloc
begin

text \<open>
  Page directories, \<^verbatim>\<open>userprog/pagedir.c\<close>, over the page allocator: two levels of tables in the memory of the allocator's
  state, which is extended by the page directory base register and the parameters of the machine.
\<close>

section \<open>Definitions\<close>

record pgstate = palloc_state +
  cr3 :: u32
  tlb_loads :: nat
  init_page_dir :: u32
  init_ram_pages :: u32

text \<open>The address of an element of a table of words, and reading and writing a word.\<close>

definition cell :: "u32 \<Rightarrow> u32 \<Rightarrow> u32" where
  "cell table idx = table + 4 * idx"

definition rd :: "u32 \<Rightarrow> pgstate \<Rightarrow> u32" where
  "rd a s = pmem s a"

definition wr :: "u32 \<Rightarrow> u32 \<Rightarrow> pgstate \<Rightarrow> pgstate" where
  "wr a v s = s\<lparr>pmem := (pmem s)(a := v)\<rparr>"

definition memcpy_words :: "u32 \<Rightarrow> u32 \<Rightarrow> u32 \<Rightarrow> pgstate \<Rightarrow> pgstate" where
  "memcpy_words dst src n s = s\<lparr>pmem := (\<lambda>a. if a - dst < n then pmem s (src + (a - dst)) else pmem s a)\<rparr>"

definition pagedir_create :: "pgstate \<Rightarrow> (u32 \<times> pgstate) option" where
  "pagedir_create s = do {
     (pd, s) \<leftarrow> palloc_get_page 0 s;
     Some (pd, if pd \<noteq> 0 then memcpy_words pd (init_page_dir s) PGSIZE s else s)
   }"

definition pagedir_activate :: "u32 \<Rightarrow> pgstate \<Rightarrow> pgstate option" where
  "pagedir_activate pd s = do {
     let pd = (if pd = 0 then init_page_dir s else pd);
     p \<leftarrow> vtop pd;
     Some (s\<lparr>cr3 := p, tlb_loads := tlb_loads s + 1\<rparr>)
   }"

definition active_pd :: "pgstate \<Rightarrow> u32 option" where
  "active_pd s = ptov (cr3 s)"

definition invalidate_pagedir :: "u32 \<Rightarrow> pgstate \<Rightarrow> pgstate option" where
  "invalidate_pagedir pd s = do {
     a \<leftarrow> active_pd s;
     if a = pd then pagedir_activate pd s else Some s
   }"

definition lookup_page :: "u32 \<Rightarrow> u32 \<Rightarrow> bool \<Rightarrow> pgstate \<Rightarrow> (u32 \<times> pgstate) option" where
  "lookup_page pd vaddr create s = do {
     ASSERT (pd \<noteq> 0);
     ASSERT (\<not> create \<or> is_user_vaddr vaddr);
     let pde = cell pd (pd_no vaddr);
     (null, s) \<leftarrow> (if rd pde s = 0
        then (if create then do {
                (pt, s) \<leftarrow> palloc_get_page PAL_ZERO s;
                if pt = 0 then Some (True, s)
                else do { e \<leftarrow> pde_create pt; Some (False, wr pde e s) }
              } else Some (True, s))
        else Some (False, s));
     if null then Some (0, s)
     else do {
       pt \<leftarrow> pde_get_pt (rd pde s);
       Some (cell pt (pt_no vaddr), s)
     }
   }"

definition pagedir_set_page :: "u32 \<Rightarrow> u32 \<Rightarrow> u32 \<Rightarrow> bool \<Rightarrow> pgstate \<Rightarrow> (bool \<times> pgstate) option" where
  "pagedir_set_page pd upage kpage writable s = do {
     ASSERT (pg_ofs upage = 0);
     ASSERT (pg_ofs kpage = 0);
     ASSERT (is_user_vaddr upage);
     p \<leftarrow> vtop kpage;
     ASSERT (drop_bit PTSHIFT p < init_ram_pages s);
     ASSERT (pd \<noteq> init_page_dir s);
     (pte, s) \<leftarrow> lookup_page pd upage True s;
     if pte \<noteq> 0 then do {
       ASSERT (rd pte s AND PTE_P = 0);
       e \<leftarrow> pte_create_user kpage writable;
       Some (True, wr pte e s)
     } else Some (False, s)
   }"

definition pagedir_get_page :: "u32 \<Rightarrow> u32 \<Rightarrow> pgstate \<Rightarrow> u32 option" where
  "pagedir_get_page pd uaddr s = do {
     ASSERT (is_user_vaddr uaddr);
     (pte, s) \<leftarrow> lookup_page pd uaddr False s;
     if pte \<noteq> 0 \<and> rd pte s AND PTE_P \<noteq> 0
     then do { p \<leftarrow> pte_get_page (rd pte s); Some (p + pg_ofs uaddr) }
     else Some 0
   }"

definition pagedir_clear_page :: "u32 \<Rightarrow> u32 \<Rightarrow> pgstate \<Rightarrow> pgstate option" where
  "pagedir_clear_page pd upage s = do {
     ASSERT (pg_ofs upage = 0);
     ASSERT (is_user_vaddr upage);
     (pte, s) \<leftarrow> lookup_page pd upage False s;
     if pte \<noteq> 0 \<and> rd pte s AND PTE_P \<noteq> 0
     then invalidate_pagedir pd (wr pte (rd pte s AND NOT PTE_P) s)
     else Some s
   }"

definition pagedir_is_dirty :: "u32 \<Rightarrow> u32 \<Rightarrow> pgstate \<Rightarrow> bool option" where
  "pagedir_is_dirty pd vpage s = do {
     (pte, s) \<leftarrow> lookup_page pd vpage False s;
     Some (pte \<noteq> 0 \<and> rd pte s AND PTE_D \<noteq> 0)
   }"

definition pagedir_set_dirty :: "u32 \<Rightarrow> u32 \<Rightarrow> bool \<Rightarrow> pgstate \<Rightarrow> pgstate option" where
  "pagedir_set_dirty pd vpage dirty s = do {
     (pte, s) \<leftarrow> lookup_page pd vpage False s;
     if pte \<noteq> 0
     then (if dirty then Some (wr pte (rd pte s OR PTE_D) s)
           else invalidate_pagedir pd (wr pte (rd pte s AND NOT PTE_D) s))
     else Some s
   }"

definition pagedir_is_accessed :: "u32 \<Rightarrow> u32 \<Rightarrow> pgstate \<Rightarrow> bool option" where
  "pagedir_is_accessed pd vpage s = do {
     (pte, s) \<leftarrow> lookup_page pd vpage False s;
     Some (pte \<noteq> 0 \<and> rd pte s AND PTE_A \<noteq> 0)
   }"

definition pagedir_set_accessed :: "u32 \<Rightarrow> u32 \<Rightarrow> bool \<Rightarrow> pgstate \<Rightarrow> pgstate option" where
  "pagedir_set_accessed pd vpage accessed s = do {
     (pte, s) \<leftarrow> lookup_page pd vpage False s;
     if pte \<noteq> 0
     then (if accessed then Some (wr pte (rd pte s OR PTE_A) s)
           else invalidate_pagedir pd (wr pte (rd pte s AND NOT PTE_A) s))
     else Some s
   }"

definition destroy_pte :: "u32 \<Rightarrow> nat \<Rightarrow> pgstate \<Rightarrow> pgstate option" where
  "destroy_pte pt j s =
     (let e = rd (cell pt (of_nat j)) s
      in if e AND PTE_P \<noteq> 0 then do { p \<leftarrow> pte_get_page e; palloc_free_page p s } else Some s)"

definition destroy_pde :: "u32 \<Rightarrow> nat \<Rightarrow> pgstate \<Rightarrow> pgstate option" where
  "destroy_pde pd i s =
     (let e = rd (cell pd (of_nat i)) s
      in if e AND PTE_P \<noteq> 0 then do {
           pt \<leftarrow> pde_get_pt e;
           s \<leftarrow> foldM (destroy_pte pt) [0..<unat (PGSIZE div 4)] s;
           palloc_free_page pt s
         } else Some s)"

definition pagedir_destroy :: "u32 \<Rightarrow> pgstate \<Rightarrow> pgstate option" where
  "pagedir_destroy pd s =
     (if pd = 0 then Some s
      else do {
        ASSERT (pd \<noteq> init_page_dir s);
        s \<leftarrow> foldM (destroy_pde pd) [0..<unat (pd_no PHYS_BASE)] s;
        palloc_free_page pd s
      })"

section \<open>Cells of tables\<close>

lemma cell_page:
  assumes "frame_addr t" and "unat i < 1024"
  shows "pg_round_down (cell t i) = t" and "unat (cell t i) = unat t + 4 * unat i"
proof -
  have i4: "unat (4 * i) = 4 * unat i" using assms(2) by (subst unat_mult_no_overflow) simp_all
  have t: "unat t mod 4096 = 0" using assms(1) by (simp add: frame_addr_def pg_aligned_iff)
  then have "4096 dvd unat t" by (simp only: dvd_eq_mod_eq_0)
  then obtain q where q: "unat t = 4096 * q" by (elim dvdE)
  have "q < 1048576" using unat_lt_32 [of t] unfolding q by simp
  then have lt: "unat t + 4 * unat i < 2 ^ 32" using assms(2) unfolding q by simp
  show u: "unat (cell t i) = unat t + 4 * unat i"
    using lt i4 by (simp add: cell_def unat_plus_no_overflow)
  have "(4096 * q + 4 * unat i) div 4096 = q" using assms(2) by simp
  then show "pg_round_down (cell t i) = t" by (simp add: unat_eq_iff width_simps u q)
qed

lemma cell_inj:
  assumes "frame_addr t" "frame_addr t'" "unat i < 1024" "unat i' < 1024" and "cell t i = cell t' i'"
  shows "t = t' \<and> i = i'"
proof -
  have "t = t'" using assms cell_page(1) by metis
  with assms cell_page(2) [of t i] cell_page(2) [of t i'] show ?thesis by (simp add: unat_eq_iff)
qed

lemma cell_nonzero: "frame_addr t \<Longrightarrow> unat i < 1024 \<Longrightarrow> cell t i \<noteq> 0"
proof -
  assume a: "frame_addr t" "unat i < 1024"
  have "3221225472 \<le> unat t" using a(1) by (simp add: frame_addr_def is_kernel_vaddr_def word_le_nat_alt PHYS_BASE_def)
  then have "unat (cell t i) \<noteq> 0" using cell_page(2) [OF a] by simp
  then show ?thesis by auto
qed

lemma index_bounds: "unat (pt_no va) < 1024" "unat (pd_no va) < 1024"
  "is_user_vaddr va \<Longrightarrow> unat (pd_no va) < 768"
  using unat_lt_32 [of va]
  by (simp_all add: width_simps is_user_vaddr_def PHYS_BASE_def word_less_nat_alt less_mult_imp_div_less)

section \<open>Well-formed page directories\<close>

definition table_of :: "pgstate \<Rightarrow> u32 \<Rightarrow> u32 \<Rightarrow> u32 option" where
  "table_of s pd i = (if rd (cell pd i) s = 0 then None else pde_get_pt (rd (cell pd i) s))"

text \<open>
  The entries for user addresses are empty or point to page tables; the directory and its tables are distinct pages in
  use, and a present entry of a table points to a page frame.
\<close>

definition pd_wf :: "pgstate \<Rightarrow> u32 \<Rightarrow> bool" where
  "pd_wf s pd \<longleftrightarrow> palloc_wf s \<and> pd \<in> used_pages s \<and> cr3 s < PHYS_BASE
     \<and> (\<forall>i. unat i < 768 \<and> rd (cell pd i) s \<noteq> 0 \<longrightarrow> rd (cell pd i) s AND PTE_P \<noteq> 0
          \<and> (\<exists>t \<in> used_pages s. pde_get_pt (rd (cell pd i) s) = Some t \<and> t \<noteq> pd))
     \<and> (\<forall>i i' t. unat i < 768 \<and> unat i' < 768 \<and> table_of s pd i = Some t \<and> table_of s pd i' = Some t \<longrightarrow> i = i')
     \<and> (\<forall>i j t. unat i < 768 \<and> unat j < 1024 \<and> table_of s pd i = Some t \<and> rd (cell t j) s AND PTE_P \<noteq> 0 \<longrightarrow>
          (\<exists>p. pte_get_page (rd (cell t j) s) = Some p \<and> frame_addr p))"

lemma pd_wfD:
  assumes "pd_wf s pd"
  shows pd_wf_palloc: "palloc_wf s" and pd_wf_used: "pd \<in> used_pages s" and pd_wf_cr3: "cr3 s < PHYS_BASE"
    and pd_wf_pde: "unat i < 768 \<Longrightarrow> rd (cell pd i) s \<noteq> 0 \<Longrightarrow> rd (cell pd i) s AND PTE_P \<noteq> 0
          \<and> (\<exists>t \<in> used_pages s. pde_get_pt (rd (cell pd i) s) = Some t \<and> t \<noteq> pd)"
    and pd_wf_inj: "unat i < 768 \<Longrightarrow> unat i' < 768 \<Longrightarrow> table_of s pd i = Some t \<Longrightarrow> table_of s pd i' = Some t \<Longrightarrow> i = i'"
    and pd_wf_entry: "unat i < 768 \<Longrightarrow> unat j < 1024 \<Longrightarrow> table_of s pd i = Some t \<Longrightarrow> rd (cell t j) s AND PTE_P \<noteq> 0 \<Longrightarrow>
      \<exists>p. pte_get_page (rd (cell t j) s) = Some p \<and> frame_addr p"
  using assms unfolding pd_wf_def by blast+

lemma pd_frame: "pd_wf s pd \<Longrightarrow> frame_addr pd"
  by (rule used_pages_frame [OF pd_wf_palloc pd_wf_used])

lemma table_used:
  "pd_wf s pd \<Longrightarrow> unat i < 768 \<Longrightarrow> table_of s pd i = Some t \<Longrightarrow> t \<in> used_pages s \<and> t \<noteq> pd \<and> frame_addr t"
  using pd_wf_pde [of s pd i] used_pages_frame [OF pd_wf_palloc, of s pd t]
  by (auto simp: table_of_def split: if_splits)

lemma table_None: "pd_wf s pd \<Longrightarrow> unat i < 768 \<Longrightarrow> table_of s pd i = None \<longleftrightarrow> rd (cell pd i) s = 0"
  using pd_wf_pde [of s pd i] by (auto simp: table_of_def)

text \<open>The entry that the directory has for an address, 0 where there is no table.\<close>

definition pte_of :: "pgstate \<Rightarrow> u32 \<Rightarrow> u32 \<Rightarrow> u32" where
  "pte_of s pd va = (case table_of s pd (pd_no va) of None \<Rightarrow> 0 | Some t \<Rightarrow> rd (cell t (pt_no va)) s)"

lemma lookup_existing:
  assumes "pd_wf s pd" and "is_user_vaddr va"
  shows "lookup_page pd va False s =
    Some (case table_of s pd (pd_no va) of None \<Rightarrow> 0 | Some t \<Rightarrow> cell t (pt_no va), s)"
proof -
  have "pd \<noteq> 0" using frame_nonzero [OF pd_frame [OF assms(1)]] .
  moreover have "\<exists>t. pde_get_pt (rd (cell pd (pd_no va)) s) = Some t" if "rd (cell pd (pd_no va)) s \<noteq> 0"
    using pd_wf_pde [OF assms(1) index_bounds(3) [OF assms(2)] that] by blast
  ultimately show ?thesis
    by (cases "rd (cell pd (pd_no va)) s = 0") (auto simp: lookup_page_def table_of_def Let_def)
qed

text \<open>A change of memory that leaves the directory and all tables but one entry as they are.\<close>

lemma wr_entry:
  assumes w: "pd_wf s pd" and i: "unat i < 768" "table_of s pd i = Some t" and j: "unat j < 1024"
  shows "unat k < 1024 \<Longrightarrow> rd (cell pd k) (wr (cell t j) e s) = rd (cell pd k) s"
    and "unat k < 768 \<Longrightarrow> table_of (wr (cell t j) e s) pd k = table_of s pd k"
    and "unat k < 768 \<Longrightarrow> table_of s pd k = Some t' \<Longrightarrow> unat l < 1024 \<Longrightarrow>
      rd (cell t' l) (wr (cell t j) e s) = (if k = i \<and> l = j then e else rd (cell t' l) s)"
proof -
  have t: "frame_addr t" "t \<noteq> pd" "frame_addr pd" using table_used [OF w i] pd_frame [OF w] by blast+
  show p: "rd (cell pd k) (wr (cell t j) e s) = rd (cell pd k) s" if "unat k < 1024" for k
    using cell_inj [OF t(3,1) that j] t(2) by (auto simp: wr_def rd_def)
  show "table_of (wr (cell t j) e s) pd k = table_of s pd k" if "unat k < 768" for k
    using p [of k] that by (simp add: table_of_def)
  show "rd (cell t' l) (wr (cell t j) e s) = (if k = i \<and> l = j then e else rd (cell t' l) s)"
    if k: "unat k < 768" "table_of s pd k = Some t'" "unat l < 1024"
  proof (cases "k = i \<and> l = j")
    case True
    then show ?thesis using k(2) i(2) by (simp add: wr_def rd_def)
  next
    case False
    have "cell t' l \<noteq> cell t j"
    proof
      assume "cell t' l = cell t j"
      then have "t' = t" "l = j" using cell_inj [OF _ t(1) k(3) j] table_used [OF w k(1,2)] by blast+
      moreover from this have "k = i" using pd_wf_inj [OF w k(1) i(1)] k(2) i(2) by simp
      ultimately show False using False by simp
    qed
    with False show ?thesis by (auto simp: wr_def rd_def)
  qed
qed

lemma wr_simps [simp]:
  "palloc_wf (wr a e s) = palloc_wf s" "used_pages (wr a e s) = used_pages s" "cr3 (wr a e s) = cr3 s"
  "init_page_dir (wr a e s) = init_page_dir s" "init_ram_pages (wr a e s) = init_ram_pages s"
  by (simp_all add: wr_def palloc_wf_def used_pages_def)

lemma wr_entry_wf:
  assumes w: "pd_wf s pd" and i: "unat i < 768" "table_of s pd i = Some t" and j: "unat j < 1024"
    and e: "e AND PTE_P \<noteq> 0 \<Longrightarrow> \<exists>p. pte_get_page e = Some p \<and> frame_addr p"
  shows "pd_wf (wr (cell t j) e s) pd"
proof -
  note x = wr_entry [OF w i j, where e = e]
  have 1: "rd (cell pd k) (wr (cell t j) e s) = rd (cell pd k) s" if "unat k < 768" for k using x(1) that by simp
  have 4: "\<exists>p. pte_get_page (rd (cell t' l) (wr (cell t j) e s)) = Some p \<and> frame_addr p"
    if "unat k < 768" "unat l < 1024" "table_of s pd k = Some t'" "rd (cell t' l) (wr (cell t j) e s) AND PTE_P \<noteq> 0" for k l t'
    using x(3) [OF that(1,3,2)] e pd_wf_entry [OF w that(1,2,3)] that(4) by (cases "k = i \<and> l = j") auto
  show ?thesis
    unfolding pd_wf_def wr_simps
    using pd_wf_palloc [OF w] pd_wf_used [OF w] pd_wf_cr3 [OF w] pd_wf_pde [OF w] pd_wf_inj [OF w] 1 x(2) 4
    by (intro conjI allI impI) (auto simp del: not_None_eq)
qed

text \<open>A new table for an empty entry of the directory.\<close>

lemma more_fields:
  "palloc_state.more (s :: pgstate) = palloc_state.more s' \<Longrightarrow>
     cr3 s = cr3 s' \<and> tlb_loads s = tlb_loads s' \<and> init_page_dir s = init_page_dir s' \<and> init_ram_pages s = init_ram_pages s'"
  by (cases s; cases s') simp

lemma new_table:
  assumes w: "pd_wf s pd" and i: "unat i < 768" "rd (cell pd i) s = 0"
    and g: "palloc_get_page PAL_ZERO s = Some (t, s1)" "t \<noteq> 0"
  obtains e where "pde_create t = Some e" "e \<noteq> 0" "pde_get_pt e = Some t" "pd_wf (wr (cell pd i) e s1) pd"
    "\<And>k. unat k < 768 \<Longrightarrow> table_of (wr (cell pd i) e s1) pd k = (if k = i then Some t else table_of s pd k)"
    "\<And>k l t'. unat k < 768 \<Longrightarrow> unat l < 1024 \<Longrightarrow> table_of s pd k = Some t' \<Longrightarrow>
       rd (cell t' l) (wr (cell pd i) e s1) = rd (cell t' l) s"
    "\<And>l. unat l < 1024 \<Longrightarrow> rd (cell t l) (wr (cell pd i) e s1) = 0"
    "palloc_state.more s1 = palloc_state.more s" "used_pages s1 = insert t (used_pages s)"
proof -
  have pz: "PAL_ZERO AND PAL_ZERO \<noteq> 0" by (simp add: PAL_ZERO_def)
  have r: "frame_addr t" "t \<notin> used_pages s" "palloc_wf s1" "used_pages s1 = insert t (used_pages s)"
      "palloc_state.more s1 = palloc_state.more s" "\<And>a. pmem s1 a = (if pg_round_down a = t then 0 else pmem s a)"
    using get_page_result [OF pd_wf_palloc [OF w] g(1)] g(2) pz by metis+
  obtain e where e: "pde_create t = Some e" "e \<noteq> 0" "e AND PTE_P \<noteq> 0" "pde_get_pt e = Some t"
    using pde_create_frame [OF r(1)] by blast
  let ?s = "wr (cell pd i) e s1"
  have pd: "frame_addr pd" "pd \<noteq> t" using pd_frame [OF w] pd_wf_used [OF w] r(2) by auto
  have i': "unat i < 1024" using i(1) by simp
  have rdq: "rd (cell q l) ?s = rd (cell q l) s" if "frame_addr q" "q \<noteq> t" "q \<noteq> pd" "unat l < 1024" for q l
    using cell_inj [OF that(1) pd(1) that(4) i'] cell_page(1) [OF that(1,4)] that(2,3) by (auto simp: rd_def wr_def r(6))
  have rdt: "rd (cell t l) ?s = 0" if "unat l < 1024" for l
    using cell_inj [OF r(1) pd(1) that i'] cell_page(1) [OF r(1) that] pd(2) by (auto simp: rd_def wr_def r(6))
  have rdp: "rd (cell pd k) ?s = (if k = i then e else rd (cell pd k) s)" if "unat k < 768" for k
    using cell_inj [OF pd(1,1) _ i', of k] cell_page(1) [OF pd(1), of k] pd(2) that by (auto simp: rd_def wr_def r(6))
  have tb: "table_of ?s pd k = (if k = i then Some t else table_of s pd k)" if "unat k < 768" for k
    using e that unfolding table_of_def rdp [OF that] by simp
  have old: "t' \<in> used_pages s \<and> t' \<noteq> pd \<and> frame_addr t' \<and> t' \<noteq> t" if "unat k < 768" "table_of s pd k = Some t'" for k t'
    using table_used [OF w that] r(2) by blast
  have cont: "rd (cell t' l) ?s = rd (cell t' l) s" if "unat k < 768" "unat l < 1024" "table_of s pd k = Some t'" for k l t'
    using rdq old [OF that(1,3)] that(2) by blast
  have cr: "cr3 s1 = cr3 s" using more_fields [OF r(5)] by simp
  have "rd (cell pd k) ?s AND PTE_P \<noteq> 0 \<and> (\<exists>t' \<in> used_pages s1. pde_get_pt (rd (cell pd k) ?s) = Some t' \<and> t' \<noteq> pd)"
    if "unat k < 768" "rd (cell pd k) ?s \<noteq> 0" for k
    using pd_wf_pde [OF w that(1)] that e r(4) pd(2) rdp [OF that(1)] by (cases "k = i") auto
  moreover have "k = k'" if "unat k < 768" "unat k' < 768" "table_of ?s pd k = Some t'" "table_of ?s pd k' = Some t'" for k k' t'
    using that(3,4) pd_wf_inj [OF w that(1,2)] old unfolding tb [OF that(1)] tb [OF that(2)]
    by (metis option.inject that(1,2))
  moreover have "\<exists>p. pte_get_page (rd (cell t' l) ?s) = Some p \<and> frame_addr p"
    if "unat k < 768" "unat l < 1024" "table_of ?s pd k = Some t'" "rd (cell t' l) ?s AND PTE_P \<noteq> 0" for k l t'
    using that(3,4) rdt [OF that(2)] cont [OF that(1,2)] pd_wf_entry [OF w that(1,2)] tb [OF that(1)] by (cases "k = i") auto
  moreover have "cr3 s1 < PHYS_BASE" "pd \<in> used_pages s1" using cr pd_wf_cr3 [OF w] pd_wf_used [OF w] r(4) by simp_all
  ultimately have "pd_wf ?s pd"
    using r(3) unfolding pd_wf_def wr_simps by blast
  then show thesis using that e tb cont rdt r(4,5) by blast
qed

text \<open>Finding the entry for an address, with a table if there is none: all entries stay as they are.\<close>

lemma lookup_create:
  assumes w: "pd_wf s pd" and u: "is_user_vaddr va"
  shows "\<exists>pte s'. lookup_page pd va True s = Some (pte, s') \<and> pd_wf s' pd \<and> palloc_state.more s' = palloc_state.more s
     \<and> (\<forall>a. is_user_vaddr a \<longrightarrow> pte_of s' pd a = pte_of s pd a)
     \<and> (pte = 0 \<and> s' = s \<and> palloc_get_page PAL_ZERO s = Some (0, s)
        \<or> (\<exists>t. table_of s' pd (pd_no va) = Some t \<and> pte = cell t (pt_no va)) \<and> used_pages s \<subseteq> used_pages s')"
proof -
  let ?i = "pd_no va"
  have i: "unat ?i < 768" by (rule index_bounds(3) [OF u])
  have nz: "pd \<noteq> 0" using frame_nonzero [OF pd_frame [OF w]] .
  show ?thesis
  proof (cases "rd (cell pd ?i) s = 0")
    case False
    then obtain t where "table_of s pd ?i = Some t" "pde_get_pt (rd (cell pd ?i) s) = Some t"
      using pd_wf_pde [OF w i] by (auto simp: table_of_def)
    then show ?thesis using False nz u w by (auto simp: lookup_page_def Let_def)
  next
    case True
    have "PAL_ZERO AND PAL_ASSERT = 0" by (simp add: PAL_ZERO_def PAL_ASSERT_def)
    then obtain t s1 where g: "palloc_get_page PAL_ZERO s = Some (t, s1)"
      using get_page_returns [OF pd_wf_palloc [OF w]] by blast
    show ?thesis
    proof (cases "t = 0")
      case t: True
      have "s1 = s" by (rule get_page_result [OF pd_wf_palloc [OF w] g]) (use t frame_nonzero in auto)
      then show ?thesis using True t nz u w g by (auto simp: lookup_page_def Let_def)
    next
      case False
      obtain e where e: "pde_create t = Some e" "e \<noteq> 0" "pde_get_pt e = Some t" and w': "pd_wf (wr (cell pd ?i) e s1) pd"
        and tb: "\<And>k. unat k < 768 \<Longrightarrow> table_of (wr (cell pd ?i) e s1) pd k = (if k = ?i then Some t else table_of s pd k)"
        and old: "\<And>k l t'. unat k < 768 \<Longrightarrow> unat l < 1024 \<Longrightarrow> table_of s pd k = Some t' \<Longrightarrow>
          rd (cell t' l) (wr (cell pd ?i) e s1) = rd (cell t' l) s"
        and new: "\<And>l. unat l < 1024 \<Longrightarrow> rd (cell t l) (wr (cell pd ?i) e s1) = 0"
        and m: "palloc_state.more s1 = palloc_state.more s" "used_pages s1 = insert t (used_pages s)"
        by (rule new_table [OF w i True g False]) blast
      have "table_of s pd ?i = None" using True by (simp add: table_of_def)
      then have "pte_of (wr (cell pd ?i) e s1) pd a = pte_of s pd a" if "is_user_vaddr a" for a
        using tb [OF index_bounds(3) [OF that]] new [OF index_bounds(1)] old [OF index_bounds(3) [OF that] index_bounds(1)]
        by (auto simp: pte_of_def split: option.splits)
      moreover have "lookup_page pd va True s = Some (cell t (pt_no va), wr (cell pd ?i) e s1)"
        using True False nz u g e by (simp add: lookup_page_def Let_def) (simp add: rd_def wr_def)
      moreover have "palloc_state.more (wr (cell pd ?i) e s1) = palloc_state.more s" using m(1) by (simp add: wr_def)
      ultimately show ?thesis using w' tb [OF i] m(2) by auto
    qed
  qed
qed

section \<open>The operations on entries\<close>

text \<open>A word is written into the entry of one page.\<close>

lemma same_entry: "pd_no a = pd_no b \<and> pt_no a = pt_no b \<longleftrightarrow> pg_round_down a = pg_round_down b"
proof
  assume "pg_round_down a = pg_round_down b"
  then have "unat a div 4096 * 4096 = unat b div 4096 * 4096" by (metis unat_pg_round_down)
  then have d: "unat a div 4096 = unat b div 4096" by simp
  moreover have "x div 4194304 = x div 4096 div 1024" for x :: nat by (simp add: div_mult2_eq [symmetric])
  ultimately show "pd_no a = pd_no b \<and> pt_no a = pt_no b" by (simp add: unat_eq_iff width_simps)
qed (blast intro: pg_index_inj)

lemma wr_pte:
  assumes w: "pd_wf s pd" and u: "is_user_vaddr va" and t: "table_of s pd (pd_no va) = Some t"
    and e: "e AND PTE_P \<noteq> 0 \<Longrightarrow> \<exists>p. pte_get_page e = Some p \<and> frame_addr p"
  shows "pd_wf (wr (cell t (pt_no va)) e s) pd"
    and "is_user_vaddr a \<Longrightarrow> pte_of (wr (cell t (pt_no va)) e s) pd a
      = (if pg_round_down a = pg_round_down va then e else pte_of s pd a)"
proof -
  have i: "unat (pd_no va) < 768" and j: "unat (pt_no va) < 1024" by (rule index_bounds(3) [OF u], rule index_bounds(1))
  show "pd_wf (wr (cell t (pt_no va)) e s) pd" by (rule wr_entry_wf [OF w i t j e])
  assume a: "is_user_vaddr a"
  note x = wr_entry(2,3) [OF w i t j index_bounds(3) [OF a], where e = e]
  show "pte_of (wr (cell t (pt_no va)) e s) pd a = (if pg_round_down a = pg_round_down va then e else pte_of s pd a)"
  proof (cases "table_of s pd (pd_no a)")
    case None
    then have "pd_no a \<noteq> pd_no va" using t by auto
    then show ?thesis using None x(1) same_entry [of a va] by (auto simp: pte_of_def)
  next
    case (Some t')
    then show ?thesis using x(1) x(2) [OF Some index_bounds(1)] same_entry [of a va] by (auto simp: pte_of_def)
  qed
qed

lemma get_page_pte:
  assumes w: "pd_wf s pd" and u: "is_user_vaddr va"
  shows "pagedir_get_page pd va s =
     (if pte_of s pd va AND PTE_P \<noteq> 0 then map_option (\<lambda>p. p + pg_ofs va) (pte_get_page (pte_of s pd va)) else Some 0)"
proof (cases "table_of s pd (pd_no va)")
  case None
  then show ?thesis using u by (simp add: pagedir_get_page_def lookup_existing [OF w u] pte_of_def)
next
  case (Some t)
  have "cell t (pt_no va) \<noteq> 0"
    using cell_nonzero [OF _ index_bounds(1)] table_used [OF w index_bounds(3) [OF u] Some] by blast
  then show ?thesis
    using u Some by (simp add: pagedir_get_page_def lookup_existing [OF w u] pte_of_def map_conv_bind_option comp_def)
qed

lemma pte_present:
  assumes "pd_wf s pd" and "is_user_vaddr va" and "pte_of s pd va AND PTE_P \<noteq> 0"
  shows "\<exists>p. pte_get_page (pte_of s pd va) = Some p \<and> frame_addr p"
  using assms(3) pd_wf_entry [OF assms(1) index_bounds(3) [OF assms(2)] index_bounds(1)]
  by (auto simp: pte_of_def split: option.splits)

text \<open>Reloading the register changes neither memory nor the allocator.\<close>

lemma invalidate_spec:
  assumes w: "pd_wf s pd"
  obtains n where "invalidate_pagedir pd s = Some (s\<lparr>tlb_loads := n\<rparr>)"
    "n = (if cr3 s = pd - PHYS_BASE then tlb_loads s + 1 else tlb_loads s)"
proof -
  note v = vtop_aligned [OF pd_frame [OF w]]
  have "active_pd s = Some (cr3 s + PHYS_BASE)" using pd_wf_cr3 [OF w] by (simp add: active_pd_def ptov_def)
  moreover have "cr3 s + PHYS_BASE = pd \<longleftrightarrow> cr3 s = pd - PHYS_BASE" by (auto simp: algebra_simps)
  ultimately have "invalidate_pagedir pd s = Some (s\<lparr>tlb_loads := if cr3 s = pd - PHYS_BASE then tlb_loads s + 1 else tlb_loads s\<rparr>)"
    using v(1) frame_nonzero [OF pd_frame [OF w]] by (auto simp: invalidate_pagedir_def pagedir_activate_def Let_def)
  then show thesis using that by blast
qed

lemma tlb_loads_irrelevant [simp]:
  "rd a (s\<lparr>tlb_loads := n\<rparr>) = rd a s" "table_of (s\<lparr>tlb_loads := n\<rparr>) = table_of s"
  "pd_wf (s\<lparr>tlb_loads := n\<rparr>) pd = pd_wf s pd" "pte_of (s\<lparr>tlb_loads := n\<rparr>) pd va = pte_of s pd va"
proof -
  show r: "rd a (s\<lparr>tlb_loads := n\<rparr>) = rd a s" for a by (simp add: rd_def)
  show t: "table_of (s\<lparr>tlb_loads := n\<rparr>) = table_of s" by (simp add: table_of_def r fun_eq_iff)
  show "pd_wf (s\<lparr>tlb_loads := n\<rparr>) pd = pd_wf s pd" "pte_of (s\<lparr>tlb_loads := n\<rparr>) pd va = pte_of s pd va"
    by (simp_all add: pd_wf_def pte_of_def r t palloc_wf_def used_pages_def split: option.split)
qed

text \<open>
  An operation that changes the entry of one page by a function of the entry. Where the entry loses a bit, the
  translation buffer is flushed if the directory is the active one.
\<close>

definition entry_change :: "u32 \<Rightarrow> u32 \<Rightarrow> (u32 \<Rightarrow> u32) \<Rightarrow> pgstate \<Rightarrow> pgstate \<Rightarrow> bool" where
  "entry_change pd va f s s' \<longleftrightarrow> pd_wf s' pd \<and> used_pages s' = used_pages s \<and> cr3 s' = cr3 s
     \<and> (\<forall>a. is_user_vaddr a \<longrightarrow> pte_of s' pd a = (if pg_round_down a = pg_round_down va then f (pte_of s pd a) else pte_of s pd a))"

lemma entry_change_wr:
  assumes w: "pd_wf s pd" and u: "is_user_vaddr va" and t: "table_of s pd (pd_no va) = Some t"
    and f: "\<And>e. f e AND PTE_P \<noteq> 0 \<Longrightarrow> e AND PTE_P \<noteq> 0 \<and> pte_get_page (f e) = pte_get_page e"
  shows "entry_change pd va f s (wr (cell t (pt_no va)) (f (rd (cell t (pt_no va)) s)) s)"
proof -
  let ?e = "rd (cell t (pt_no va)) s"
  have e: "pte_of s pd va = ?e" using t by (simp add: pte_of_def)
  have same: "pte_of s pd a = ?e" if "pg_round_down a = pg_round_down va" for a
    using same_entry [of a va] that t by (simp add: pte_of_def)
  have "\<exists>p. pte_get_page (f ?e) = Some p \<and> frame_addr p" if "f ?e AND PTE_P \<noteq> 0"
    using pte_present [OF w u] f [OF that] unfolding e by simp
  then show ?thesis using wr_pte [OF w u t, of "f ?e"] same by (auto simp: entry_change_def)
qed

lemma entry_change_flush: "entry_change pd va f s s' \<Longrightarrow> entry_change pd va f s (s'\<lparr>tlb_loads := n\<rparr>)"
  by (simp add: entry_change_def used_pages_def)

lemma entry_change_refl: "pd_wf s pd \<Longrightarrow> \<forall>a. pg_round_down a = pg_round_down va \<longrightarrow> f (pte_of s pd a) = pte_of s pd a \<Longrightarrow>
    entry_change pd va f s s"
  by (simp add: entry_change_def)

lemma clear_bits:
  "(e AND NOT m) AND PTE_P \<noteq> 0 \<Longrightarrow> m AND PTE_ADDR = 0 \<Longrightarrow> e AND PTE_P \<noteq> 0 \<and> pte_get_page (e AND NOT m) = pte_get_page e"
  "(e OR m) AND PTE_P \<noteq> 0 \<Longrightarrow> m AND PTE_ADDR = 0 \<Longrightarrow> m AND PTE_P = 0 \<Longrightarrow>
    e AND PTE_P \<noteq> 0 \<and> pte_get_page (e OR m) = pte_get_page e"
proof -
  have 1: "(e AND NOT m) AND PTE_ADDR = e AND PTE_ADDR" if "m AND PTE_ADDR = 0"
  proof -
    have "e AND PTE_ADDR = (e AND NOT m OR e AND m) AND PTE_ADDR" by (metis bit.conj_disj_distrib bit.disj_cancel_left and.right_neutral)
    then show ?thesis using that by (simp add: bit.conj_disj_distrib2 and.assoc)
  qed
  have 2: "(e OR m) AND x = e AND x" if "m AND x = 0" for x using that by (simp add: bit.conj_disj_distrib2)
  show "(e AND NOT m) AND PTE_P \<noteq> 0 \<Longrightarrow> m AND PTE_ADDR = 0 \<Longrightarrow> e AND PTE_P \<noteq> 0 \<and> pte_get_page (e AND NOT m) = pte_get_page e"
    using 1 by (auto simp: pte_get_page_def and.assoc) (metis and.left_commute and_zero_eq)
  show "(e OR m) AND PTE_P \<noteq> 0 \<Longrightarrow> m AND PTE_ADDR = 0 \<Longrightarrow> m AND PTE_P = 0 \<Longrightarrow>
    e AND PTE_P \<noteq> 0 \<and> pte_get_page (e OR m) = pte_get_page e"
    using 2 by (simp add: pte_get_page_def)
qed

text \<open>The queries and updates in terms of the entry.\<close>

lemma entry_cell:
  assumes "pd_wf s pd" and "is_user_vaddr va" and "table_of s pd (pd_no va) = Some t"
  shows "lookup_page pd va False s = Some (cell t (pt_no va), s)" "cell t (pt_no va) \<noteq> 0"
    "rd (cell t (pt_no va)) s = pte_of s pd va"
  using lookup_existing [OF assms(1,2)] table_used [OF assms(1) index_bounds(3) [OF assms(2)] assms(3)]
    cell_nonzero [OF _ index_bounds(1)] assms(3) by (auto simp: pte_of_def)

lemma no_entry:
  assumes "pd_wf s pd" and "is_user_vaddr va" and "table_of s pd (pd_no va) = None"
  shows "lookup_page pd va False s = Some (0, s)" "pte_of s pd va = 0"
  using lookup_existing [OF assms(1,2)] assms(3) by (simp_all add: pte_of_def)

lemma is_dirty_pte: "pd_wf s pd \<Longrightarrow> is_user_vaddr va \<Longrightarrow> pagedir_is_dirty pd va s = Some (pte_of s pd va AND PTE_D \<noteq> 0)"
  by (cases "table_of s pd (pd_no va)") (simp_all add: pagedir_is_dirty_def entry_cell no_entry)

lemma is_accessed_pte: "pd_wf s pd \<Longrightarrow> is_user_vaddr va \<Longrightarrow> pagedir_is_accessed pd va s = Some (pte_of s pd va AND PTE_A \<noteq> 0)"
  by (cases "table_of s pd (pd_no va)") (simp_all add: pagedir_is_accessed_def entry_cell no_entry)

text \<open>Clearing a bit of an entry, with the flush that follows.\<close>

lemma clear_bit:
  assumes w: "pd_wf s pd" and u: "is_user_vaddr va" and t: "table_of s pd (pd_no va) = Some t" and m: "m AND PTE_ADDR = 0"
  shows "\<exists>s'. invalidate_pagedir pd (wr (cell t (pt_no va)) (rd (cell t (pt_no va)) s AND NOT m) s) = Some s'
     \<and> entry_change pd va (\<lambda>e. e AND NOT m) s s' \<and> (cr3 s = pd - PHYS_BASE \<longrightarrow> tlb_loads s' = tlb_loads s + 1)"
proof -
  let ?s = "wr (cell t (pt_no va)) (rd (cell t (pt_no va)) s AND NOT m) s"
  have c: "entry_change pd va (\<lambda>e. e AND NOT m) s ?s" by (rule entry_change_wr [OF w u t]) (rule clear_bits(1) [OF _ m])
  then have w': "pd_wf ?s pd" by (simp add: entry_change_def)
  obtain n where n: "invalidate_pagedir pd ?s = Some (?s\<lparr>tlb_loads := n\<rparr>)"
      "n = (if cr3 ?s = pd - PHYS_BASE then tlb_loads ?s + 1 else tlb_loads ?s)"
    by (rule invalidate_spec [OF w'])
  then show ?thesis using entry_change_flush [OF c, of n] by (auto simp: wr_def)
qed

lemma set_bit:
  assumes w: "pd_wf s pd" and u: "is_user_vaddr va" and t: "table_of s pd (pd_no va) = Some t"
    and m: "m AND PTE_ADDR = 0" "m AND PTE_P = 0"
  shows "entry_change pd va (\<lambda>e. e OR m) s (wr (cell t (pt_no va)) (rd (cell t (pt_no va)) s OR m) s)"
  by (rule entry_change_wr [OF w u t]) (rule clear_bits(2) [OF _ m])

lemma pte_masks: "PTE_D AND PTE_ADDR = 0" "PTE_A AND PTE_ADDR = 0" "PTE_P AND PTE_ADDR = 0" "PTE_D AND PTE_P = 0" "PTE_A AND PTE_P = 0"
  by (simp_all add: pte_consts)

lemma set_dirty_change:
  assumes "pd_wf s pd" and "is_user_vaddr va" and "pte_of s pd va \<noteq> 0"
  shows "\<exists>s'. pagedir_set_dirty pd va dirty s = Some s'
     \<and> entry_change pd va (\<lambda>e. if dirty then e OR PTE_D else e AND NOT PTE_D) s s'
     \<and> (\<not> dirty \<and> cr3 s = pd - PHYS_BASE \<longrightarrow> tlb_loads s' = tlb_loads s + 1)"
proof -
  obtain t where t: "table_of s pd (pd_no va) = Some t" using assms(3) by (auto simp: pte_of_def split: option.splits)
  note c = entry_cell [OF assms(1,2) t]
  show ?thesis
    using set_bit [OF assms(1,2) t pte_masks(1,4)] clear_bit [OF assms(1,2) t pte_masks(1)] c(1,2)
    by (cases dirty) (simp_all add: pagedir_set_dirty_def)
qed

lemma set_accessed_change:
  assumes "pd_wf s pd" and "is_user_vaddr va" and "pte_of s pd va \<noteq> 0"
  shows "\<exists>s'. pagedir_set_accessed pd va accessed s = Some s'
     \<and> entry_change pd va (\<lambda>e. if accessed then e OR PTE_A else e AND NOT PTE_A) s s'
     \<and> (\<not> accessed \<and> cr3 s = pd - PHYS_BASE \<longrightarrow> tlb_loads s' = tlb_loads s + 1)"
proof -
  obtain t where t: "table_of s pd (pd_no va) = Some t" using assms(3) by (auto simp: pte_of_def split: option.splits)
  note c = entry_cell [OF assms(1,2) t]
  show ?thesis
    using set_bit [OF assms(1,2) t pte_masks(2,5)] clear_bit [OF assms(1,2) t pte_masks(2)] c(1,2)
    by (cases accessed) (simp_all add: pagedir_set_accessed_def)
qed

lemma clear_page_change:
  assumes "pd_wf s pd" and "is_user_vaddr va" and "pg_ofs va = 0" and p: "pte_of s pd va AND PTE_P \<noteq> 0"
  shows "\<exists>s'. pagedir_clear_page pd va s = Some s' \<and> entry_change pd va (\<lambda>e. e AND NOT PTE_P) s s'
     \<and> (cr3 s = pd - PHYS_BASE \<longrightarrow> tlb_loads s' = tlb_loads s + 1)"
proof -
  obtain t where t: "table_of s pd (pd_no va) = Some t" using p by (auto simp: pte_of_def split: option.splits)
  note c = entry_cell [OF assms(1,2) t]
  show ?thesis
    using clear_bit [OF assms(1,2) t pte_masks(3)] c assms(2,3) p by (simp add: pagedir_clear_page_def)
qed

section \<open>Destroying a directory\<close>

lemma gives_back_trans: "gives_back A s s1 \<Longrightarrow> gives_back B s1 s2 \<Longrightarrow> gives_back (A \<union> B) s s2"
  by (auto simp: gives_back_def same_pools_def)

lemma free_all:
  assumes "palloc_wf s" and "distinct ps" and "set ps \<subseteq> used_pages s"
  shows "\<exists>s'. foldM palloc_free_page ps s = Some s' \<and> gives_back (set ps) s s'"
  using assms
proof (induction ps arbitrary: s)
  case Nil
  then show ?case by (simp add: gives_back_def same_pools_def)
next
  case (Cons p ps)
  obtain s1 where s1: "palloc_free_page p s = Some s1" "gives_back {p} s s1"
    using free_page_result [OF Cons.prems(1), of p] Cons.prems(3) by auto
  then have "palloc_wf s1" "set ps \<subseteq> used_pages s1" using Cons.prems by (auto simp: gives_back_def)
  then obtain s2 where "foldM palloc_free_page ps s1 = Some s2" "gives_back (set ps) s1 s2"
    using Cons.IH Cons.prems(2) by auto
  then show ?case using s1 gives_back_trans [OF s1(2)] by auto
qed

text \<open>The pages of a directory in the order in which they are freed.\<close>

definition table_frames :: "pgstate \<Rightarrow> u32 \<Rightarrow> nat list \<Rightarrow> u32 list" where
  "table_frames s t js = concat (map (\<lambda>j. let e = rd (cell t (of_nat j)) s
     in if e AND PTE_P \<noteq> 0 then [the (pte_get_page e)] else []) js)"

definition pd_tables :: "pgstate \<Rightarrow> u32 \<Rightarrow> nat list \<Rightarrow> u32 list" where
  "pd_tables s pd is = concat (map (\<lambda>i. case table_of s pd (of_nat i) of None \<Rightarrow> []
     | Some t \<Rightarrow> table_frames s t [0..<1024] @ [t]) is)"

definition pd_pages :: "pgstate \<Rightarrow> u32 \<Rightarrow> u32 list" where
  "pd_pages s pd = pd_tables s pd [0..<768] @ [pd]"

lemma of_nat_index: "j < 1024 \<Longrightarrow> unat (of_nat j :: u32) = j"
  by (rule unat_of_nat_32) simp

lemma read_kept: "gives_back F s0 s \<Longrightarrow> frame_addr t \<Longrightarrow> t \<notin> F \<Longrightarrow> unat j < 1024 \<Longrightarrow> rd (cell t j) s = rd (cell t j) s0"
  by (simp add: gives_back_def rd_def cell_page(1))

lemma destroy_ptes:
  assumes "gives_back F s0 s" and "frame_addr t" and "t \<notin> F" and "set js \<subseteq> {..<1024}"
    and "distinct (table_frames s0 t js)" and "set (table_frames s0 t js) \<subseteq> used_pages s" and "t \<notin> set (table_frames s0 t js)"
    and "\<forall>j \<in> set js. rd (cell t (of_nat j)) s0 AND PTE_P \<noteq> 0 \<longrightarrow> pte_get_page (rd (cell t (of_nat j)) s0) \<noteq> None"
  shows "foldM (destroy_pte t) js s = foldM palloc_free_page (table_frames s0 t js) s"
  using assms
proof (induction js arbitrary: F s)
  case Nil
  then show ?case by (simp add: table_frames_def)
next
  case (Cons j js)
  let ?e = "rd (cell t (of_nat j)) s0"
  have e: "rd (cell t (of_nat j)) s = ?e" using read_kept [OF Cons.prems(1-3)] Cons.prems(4) by (simp add: of_nat_index)
  show ?case
  proof (cases "?e AND PTE_P = 0")
    case True
    then have f: "table_frames s0 t (j # js) = table_frames s0 t js" by (simp add: table_frames_def)
    show ?thesis using Cons.IH [OF Cons.prems(1-3)] Cons.prems(4-8) True e unfolding f by (simp add: destroy_pte_def)
  next
    case False
    then obtain p where p: "pte_get_page ?e = Some p" using Cons.prems(8) by auto
    have f: "table_frames s0 t (j # js) = p # table_frames s0 t js" using False p by (simp add: table_frames_def)
    have w: "palloc_wf s" using Cons.prems(1) by (simp add: gives_back_def)
    obtain s1 where s1: "palloc_free_page p s = Some s1" "gives_back {p} s s1"
      using free_page_result [OF w, of p] Cons.prems(6) unfolding f by auto
    have "foldM (destroy_pte t) js s1 = foldM palloc_free_page (table_frames s0 t js) s1"
    proof (rule Cons.IH [OF gives_back_trans [OF Cons.prems(1) s1(2)] Cons.prems(2)])
      show "set (table_frames s0 t js) \<subseteq> used_pages s1" using Cons.prems(5,6) s1(2) unfolding f by (auto simp: gives_back_def)
    qed (use Cons.prems f in auto)
    moreover have "destroy_pte t j s = Some s1" using False p s1(1) e by (simp add: destroy_pte_def)
    ultimately show ?thesis using s1(1) f by simp
  qed
qed

lemma destroy_pdes:
  assumes w: "pd_wf s0 pd"
  shows "gives_back F s0 s \<Longrightarrow> pd \<notin> F \<Longrightarrow> set is \<subseteq> {..<768} \<Longrightarrow> distinct (pd_tables s0 pd is)
    \<Longrightarrow> set (pd_tables s0 pd is) \<inter> F = {} \<Longrightarrow> set (pd_tables s0 pd is) \<subseteq> used_pages s \<Longrightarrow> pd \<notin> set (pd_tables s0 pd is)
    \<Longrightarrow> foldM (destroy_pde pd) is s = foldM palloc_free_page (pd_tables s0 pd is) s"
proof (induction "is" arbitrary: F s)
  case Nil
  then show ?case by (simp add: pd_tables_def)
next
  case (Cons i "is")
  have iu: "unat (of_nat i :: u32) = i" "i < 768" using Cons.prems(3) by (auto intro!: of_nat_index)
  let ?e = "rd (cell pd (of_nat i)) s0"
  have e: "rd (cell pd (of_nat i)) s = ?e" using read_kept [OF Cons.prems(1) pd_frame [OF w] Cons.prems(2)] iu by simp
  show ?case
  proof (cases "table_of s0 pd (of_nat i)")
    case None
    then have f: "pd_tables s0 pd (i # is) = pd_tables s0 pd is" by (simp add: pd_tables_def)
    have "?e = 0" using table_None [OF w, of "of_nat i"] iu None by simp
    then show ?thesis using Cons.IH [OF Cons.prems(1,2)] Cons.prems(3-7) e unfolding f by (simp add: destroy_pde_def)
  next
    case (Some t)
    have t: "frame_addr t" "t \<noteq> pd" using table_used [OF w _ Some] iu by auto
    have ne: "?e \<noteq> 0" using Some by (auto simp: table_of_def)
    then have pt: "?e AND PTE_P \<noteq> 0" "pde_get_pt ?e = Some t"
      using pd_wf_pde [OF w, of "of_nat i"] iu Some by (auto simp: table_of_def)
    let ?fs = "table_frames s0 t [0..<1024]"
    have f: "pd_tables s0 pd (i # is) = ?fs @ t # pd_tables s0 pd is" using Some by (simp add: pd_tables_def)
    have tf: "t \<notin> F" using Cons.prems(5) f by auto
    have ptes: "foldM (destroy_pte t) [0..<1024] s = foldM palloc_free_page ?fs s"
    proof (rule destroy_ptes [OF Cons.prems(1) t(1) tf])
      show "\<forall>j \<in> set [0..<1024]. rd (cell t (of_nat j)) s0 AND PTE_P \<noteq> 0 \<longrightarrow> pte_get_page (rd (cell t (of_nat j)) s0) \<noteq> None"
        using pd_wf_entry [OF w _ _ Some] iu of_nat_index by (metis atLeastLessThan_iff option.distinct(1) set_upt)
    qed (use Cons.prems(4,6) f in auto)
    have w': "palloc_wf s" using Cons.prems(1) by (simp add: gives_back_def)
    obtain s1 where s1: "foldM palloc_free_page (?fs @ [t]) s = Some s1" "gives_back (set (?fs @ [t])) s s1"
      using free_all [OF w', of "?fs @ [t]"] Cons.prems(4,6) unfolding f by auto
    have "destroy_pde pd i s = Some s1"
      using e pt ptes s1(1) by (simp add: destroy_pde_def Let_def PGSIZE_eq)
    moreover have "foldM (destroy_pde pd) is s1 = foldM palloc_free_page (pd_tables s0 pd is) s1"
    proof (rule Cons.IH [OF gives_back_trans [OF Cons.prems(1) s1(2)]])
      show "set (pd_tables s0 pd is) \<subseteq> used_pages s1" using Cons.prems(4,6) s1(2) unfolding f by (auto simp: gives_back_def)
    qed (use Cons.prems f in auto)
    moreover have "foldM palloc_free_page (pd_tables s0 pd (i # is)) s = foldM palloc_free_page (pd_tables s0 pd is) s1"
      using s1(1) foldM_append [of palloc_free_page "?fs @ [t]" "pd_tables s0 pd is" s] unfolding f by simp
    ultimately show ?thesis by simp
  qed
qed

section \<open>Properties\<close>

text \<open>The page frame that a page directory maps an address to, as the hardware would find it.\<close>

lemma mapped_iff:
  assumes "pd_wf s pd" and "is_user_vaddr va"
  shows "pagedir_get_page pd va s = Some 0 \<longleftrightarrow> pte_of s pd va AND PTE_P = 0"
proof (cases "pte_of s pd va AND PTE_P = 0")
  case False
  then obtain p where p: "pte_get_page (pte_of s pd va) = Some p" "frame_addr p" using pte_present [OF assms] by blast
  have "unat p + unat (pg_ofs va) < 2 ^ 32 \<and> 0 < unat p"
  proof -
    have "unat p mod 4096 = 0" using p(2) by (simp add: frame_addr_iff)
    then have "4096 dvd unat p" by (simp only: dvd_eq_mod_eq_0)
    then obtain q where "unat p = 4096 * q" by (elim dvdE)
    moreover have "unat (pg_ofs va) < 4096" by (simp add: unat_pg_ofs)
    ultimately show ?thesis using unat_lt_32 [of p] p(2) by (auto simp: frame_addr_iff)
  qed
  then have "unat (p + pg_ofs va) \<noteq> 0" by (simp add: unat_plus_no_overflow)
  then have "p + pg_ofs va \<noteq> 0" by auto
  then show ?thesis using False p(1) by (simp add: get_page_pte [OF assms])
qed (simp add: get_page_pte [OF assms])

text \<open>
  C38. Mapping a user page that is not mapped to a page frame in memory never panics. When it returns true, every address of
  the page is found at its offset in the frame, with the write permission asked for and clear accessed and dirty bits, and
  all other user addresses are found where they were. It returns false only if the page allocator has no page for a table,
  and then changes nothing. The directory stays well-formed.
\<close>

theorem pagedir_set_page_maps:
  assumes "pd_wf s pd" and "pd \<noteq> init_page_dir s" and "is_user_vaddr upage" and "pg_ofs upage = 0"
    and "frame_addr kpage" and "unat (kpage - PHYS_BASE) div 4096 < unat (init_ram_pages s)"
    and "pagedir_get_page pd upage s = Some 0"
  shows "\<exists>ok s'. pagedir_set_page pd upage kpage writable s = Some (ok, s') \<and> pd_wf s' pd
     \<and> (\<not> ok \<longrightarrow> s' = s \<and> palloc_get_page PAL_ZERO s = Some (0, s))
     \<and> (ok \<longrightarrow> (pte_of s' pd upage AND PTE_W \<noteq> 0) = writable
          \<and> pagedir_is_accessed pd upage s' = Some False \<and> pagedir_is_dirty pd upage s' = Some False)
     \<and> (\<forall>va. is_user_vaddr va \<longrightarrow> pagedir_get_page pd va s' =
          (if ok \<and> pg_round_down va = upage then Some (kpage + pg_ofs va) else pagedir_get_page pd va s))"
proof -
  note w = assms(1) and u = assms(3)
  have g: "vtop kpage = Some (kpage - PHYS_BASE)" "drop_bit PTSHIFT (kpage - PHYS_BASE) < init_ram_pages s" "pg_ofs kpage = 0"
    using vtop_aligned(1) [OF assms(5)] assms(5,6)
    by (simp_all add: frame_addr_def word_less_nat_alt PTSHIFT_def PGBITS_def width_simps)
  obtain e where e: "pte_create_user kpage writable = Some e" "e AND PTE_P \<noteq> 0" "pte_get_page e = Some kpage"
      "(e AND PTE_W \<noteq> 0) = writable" "e AND PTE_D = 0" "e AND PTE_A = 0"
    using pte_create_frame [OF assms(5), of writable] by blast
  obtain pte s1 where l: "lookup_page pd upage True s = Some (pte, s1)" and w1: "pd_wf s1 pd"
      and keep: "\<And>a. is_user_vaddr a \<Longrightarrow> pte_of s1 pd a = pte_of s pd a"
      and r: "pte = 0 \<and> s1 = s \<and> palloc_get_page PAL_ZERO s = Some (0, s)
        \<or> (\<exists>t. table_of s1 pd (pd_no upage) = Some t \<and> pte = cell t (pt_no upage))"
    using lookup_create [OF w u] by blast
  from r show ?thesis
  proof (elim disjE exE conjE)
    assume "pte = 0" "s1 = s" "palloc_get_page PAL_ZERO s = Some (0, s)"
    then have "pagedir_set_page pd upage kpage writable s = Some (False, s)"
      using l g assms(2-4) by (simp add: pagedir_set_page_def)
    then show ?thesis using w \<open>palloc_get_page PAL_ZERO s = Some (0, s)\<close> by auto
  next
    fix t assume t: "table_of s1 pd (pd_no upage) = Some t" "pte = cell t (pt_no upage)"
    note c = entry_cell [OF w1 u t(1)]
    let ?s = "wr pte e s1"
    have np: "pte_of s1 pd upage AND PTE_P = 0" using mapped_iff [OF w u] assms(7) keep [OF u] by simp
    have x: "pd_wf ?s pd" "\<And>a. is_user_vaddr a \<Longrightarrow> pte_of ?s pd a = (if pg_round_down a = upage then e else pte_of s pd a)"
    proof -
      have "pg_round_down upage = upage" using pg_split [of upage] assms(4) by simp
      then show "pd_wf ?s pd" "\<And>a. is_user_vaddr a \<Longrightarrow> pte_of ?s pd a = (if pg_round_down a = upage then e else pte_of s pd a)"
        using wr_pte [OF w1 u t(1), of e] e(3) assms(5) keep unfolding t(2) by auto
    qed
    have "pagedir_set_page pd upage kpage writable s = Some (True, ?s)"
      using l g assms(2-4) c np e(1) t(2) by (simp add: pagedir_set_page_def)
    moreover have "pg_round_down upage = upage" using pg_split [of upage] assms(4) by simp
    moreover have "pagedir_get_page pd va ?s = (if pg_round_down va = upage then Some (kpage + pg_ofs va) else pagedir_get_page pd va s)"
      if "is_user_vaddr va" for va
      using x(2) [OF that] e(2,3) by (simp add: get_page_pte [OF x(1) that] get_page_pte [OF w that])
    ultimately show ?thesis
      using x e(4-6) u by (intro exI [of _ True] exI [of _ ?s]) (simp add: is_accessed_pte is_dirty_pte)
  qed
qed

text \<open>
  C39. Destroying a page directory whose pages are all in use and distinct never panics, and gives back exactly the frames
  of its present user pages, its page tables and the directory itself, each once; no other page is given back and the
  memory of no other page changes.
\<close>

theorem pagedir_destroy_gives_back:
  assumes "pd_wf s pd" and "pd \<noteq> init_page_dir s" and "distinct (pd_pages s pd)" and "set (pd_pages s pd) \<subseteq> used_pages s"
  shows "\<exists>s'. pagedir_destroy pd s = Some s' \<and> gives_back (set (pd_pages s pd)) s s'"
proof -
  have w: "palloc_wf s" by (rule pd_wf_palloc [OF assms(1)])
  have "gives_back {} s s" using w by (simp add: gives_back_def same_pools_def)
  then have "foldM (destroy_pde pd) [0..<768] s = foldM palloc_free_page (pd_tables s pd [0..<768]) s"
    using assms(3,4) by (intro destroy_pdes [OF assms(1)]) (auto simp: pd_pages_def)
  moreover have "unat (pd_no PHYS_BASE) = 768" by (simp add: width_simps PHYS_BASE_def)
  ultimately have "pagedir_destroy pd s = foldM palloc_free_page (pd_pages s pd) s"
    using assms(2) frame_nonzero [OF pd_frame [OF assms(1)]] by (simp add: pagedir_destroy_def pd_pages_def)
  then show ?thesis using free_all [OF w assms(3,4)] by simp
qed

text \<open>Setting or clearing the bits of a mask.\<close>

definition put_bits :: "u32 \<Rightarrow> bool \<Rightarrow> u32 \<Rightarrow> u32" where
  "put_bits m d e = (if d then e OR m else e AND NOT m)"

lemma put_bits_same: "m \<noteq> 0 \<Longrightarrow> (put_bits m d e AND m \<noteq> 0) = d"
proof -
  have "(e OR m) AND m = m" "(e AND NOT m) AND m = 0" by (rule bit_word_eqI; auto simp: bit_simps)+
  then show "m \<noteq> 0 \<Longrightarrow> ?thesis" by (simp add: put_bits_def)
qed

lemma put_bits_other: "m AND n = 0 \<Longrightarrow> put_bits m d e AND n = e AND n"
proof -
  assume "m AND n = 0"
  then have "\<not> (bit m k \<and> bit n k)" for k by (metis bit_0_eq bit_and_iff bot_apply bot_bool_def)
  then show ?thesis by (intro bit_word_eqI) (auto simp: put_bits_def bit_simps)
qed

lemma change_keeps:
  assumes w: "pd_wf s pd" and u: "is_user_vaddr va" and c: "entry_change pd va (put_bits m d) s s'" and m: "m AND PTE_ADDR = 0"
  shows "m AND PTE_P = 0 \<Longrightarrow> pagedir_get_page pd va s' = pagedir_get_page pd va s"
    and "m AND PTE_D = 0 \<Longrightarrow> pagedir_is_dirty pd va s' = pagedir_is_dirty pd va s"
    and "m AND PTE_A = 0 \<Longrightarrow> pagedir_is_accessed pd va s' = pagedir_is_accessed pd va s"
    and "pd_wf s' pd" and "pte_of s' pd va = put_bits m d (pte_of s pd va)"
proof -
  show w': "pd_wf s' pd" and e: "pte_of s' pd va = put_bits m d (pte_of s pd va)" using c u by (simp_all add: entry_change_def)
  have "pte_get_page (put_bits m d (pte_of s pd va)) = pte_get_page (pte_of s pd va)"
    using put_bits_other [OF m] by (simp add: pte_get_page_def)
  then show "m AND PTE_P = 0 \<Longrightarrow> pagedir_get_page pd va s' = pagedir_get_page pd va s"
    by (simp add: get_page_pte [OF w u] get_page_pte [OF w' u] e put_bits_other)
  show "m AND PTE_D = 0 \<Longrightarrow> pagedir_is_dirty pd va s' = pagedir_is_dirty pd va s"
    "m AND PTE_A = 0 \<Longrightarrow> pagedir_is_accessed pd va s' = pagedir_is_accessed pd va s"
    by (simp_all add: is_dirty_pte [OF w u] is_dirty_pte [OF w' u] is_accessed_pte [OF w u] is_accessed_pte [OF w' u] e put_bits_other)
qed

lemma change_others:
  assumes "entry_change pd va f s s'" and "pg_ofs va = 0"
  shows "\<forall>a. is_user_vaddr a \<and> pg_round_down a \<noteq> va \<longrightarrow> pte_of s' pd a = pte_of s pd a"
  using assms pg_split [of va] by (auto simp: entry_change_def)

lemma pte_mask_facts: "PTE_D \<noteq> 0" "PTE_A \<noteq> 0" "PTE_P \<noteq> 0" "PTE_D AND PTE_A = 0" "PTE_A AND PTE_D = 0" "PTE_P AND PTE_D = 0" "PTE_P AND PTE_A = 0"
  by (simp_all add: pte_consts)


text \<open>A directory with one user page.\<close>

definition pd_ex :: pgstate where
  "pd_ex = \<lparr>kernel_pool = \<lparr>used_map = \<lparr>bit_cnt = 5, bits = [7]\<rparr>, pool_base = 0xc0101000\<rparr>,
     user_pool = \<lparr>used_map = \<lparr>bit_cnt = 2, bits = [0]\<rparr>, pool_base = 0xc0108000\<rparr>,
     pmem = (\<lambda>a. if a = 0xc0101080 then 0x102007 else if a = 0xc0102120 then 0x103067 else 0),
     cr3 = 0x101000, tlb_loads = 0, init_page_dir = 0xc0100000, init_ram_pages = 1024\<rparr>"

lemma pd_ex_palloc: "palloc_wf pd_ex"
proof -
  have "pool_wf (kernel_pool pd_ex)" "pool_wf (user_pool pd_ex)"
    by (simp_all add: pd_ex_def pool_wf_def bm_inv_def frame_addr_iff)
  moreover from this have "pool_pages (kernel_pool pd_ex) \<inter> pool_pages (user_pool pd_ex) = {}"
    using pool_pages_bounds [of "kernel_pool pd_ex"] pool_pages_bounds [of "user_pool pd_ex"]
    by (fastforce simp: pd_ex_def)
  ultimately show ?thesis by (simp add: palloc_wf_def)
qed

lemma pd_ex_used: "{0xc0101000, 0xc0102000, 0xc0103000} \<subseteq> used_pages pd_ex"
proof -
  have "bval \<lparr>bit_cnt = 5, bits = [7]\<rparr> i" if "i < 3" for i
    using that by (auto simp: bval_def numeral_3_eq_3 less_Suc_eq)
  then have "page_at (kernel_pool pd_ex) i \<in> used_pages pd_ex" if "i < 3" for i
    using that by (auto simp: used_pages_def pool_used_def pd_ex_def intro!: exI [of _ i])
  from this [of 0] this [of 1] this [of 2] show ?thesis
    by (simp add: page_at_def pd_ex_def PGSIZE_eq)
qed

lemma pd_ex_rd:
  assumes "unat i < 1024"
  shows "rd (cell 0xc0101000 i) pd_ex = (if i = 32 then 0x102007 else 0)"
    and "rd (cell 0xc0102000 i) pd_ex = (if i = 72 then 0x103067 else 0)"
proof -
  have f: "frame_addr 0xc0101000" "frame_addr 0xc0102000" by (simp_all add: frame_addr_iff)
  have c: "0xc0101080 = cell 0xc0101000 32" "0xc0102120 = cell 0xc0102000 72" by (simp_all add: cell_def)
  show "rd (cell 0xc0101000 i) pd_ex = (if i = 32 then 0x102007 else 0)"
    "rd (cell 0xc0102000 i) pd_ex = (if i = 72 then 0x103067 else 0)"
    using cell_inj [OF f(1,1) assms, of 32] cell_inj [OF f(1,2) assms, of 72]
      cell_inj [OF f(2,1) assms, of 32] cell_inj [OF f(2,2) assms, of 72]
    unfolding rd_def pd_ex_def c by auto
qed

lemma pd_ex_table: "unat i < 1024 \<Longrightarrow> table_of pd_ex 0xc0101000 i = (if i = 32 then Some 0xc0102000 else None)"
  by (simp add: table_of_def pd_ex_rd(1) pde_get_pt_def ptov_def pte_consts PHYS_BASE_def)

lemma pd_ex_wf: "pd_wf pd_ex 0xc0101000"
proof -
  have p: "pde_get_pt 0x102007 = Some 0xc0102000" "pte_get_page 0x103067 = Some 0xc0103000" "frame_addr 0xc0103000"
    by (simp_all add: pde_get_pt_def pte_get_page_def ptov_def pte_consts PHYS_BASE_def frame_addr_iff)
  have "cr3 pd_ex < PHYS_BASE" by (simp add: pd_ex_def PHYS_BASE_def)
  then show ?thesis
    using pd_ex_palloc pd_ex_used p pd_ex_rd pd_ex_table
    unfolding pd_wf_def by (auto simp: pte_consts split: if_splits)
qed

lemma pd_ex_pages: "pd_pages pd_ex 0xc0101000 = [0xc0103000, 0xc0102000, 0xc0101000]"
proof -
  have one: "concat (map f [0..<n]) = f k" if "k < n" "\<And>i. i < n \<Longrightarrow> i \<noteq> k \<Longrightarrow> f i = []" for f :: "nat \<Rightarrow> u32 list" and k n
  proof -
    have sp: "[0..<n] = [0..<k] @ k # [Suc k..<n]" using that(1) upt_add_eq_append [of 0 k "n - k"] by (simp add: upt_conv_Cons)
    have e: "map f [0..<k] = map (\<lambda>_. []) [0..<k]" "map f [Suc k..<n] = map (\<lambda>_. []) [Suc k..<n]"
      using that by auto
    have z: "concat (map (\<lambda>_. []) xs) = []" for xs :: "nat list" by (induction xs) auto
    show ?thesis by (simp only: sp map_append list.map concat_append concat.simps e z append_Nil append_Nil2)
  qed
  have ix: "(of_nat j :: u32) = m \<longleftrightarrow> j = unat m" if "j < 1024" for j and m :: u32
    using of_nat_index [OF that] by (auto simp: unat_eq_iff)
  have "table_frames pd_ex 0xc0102000 [0..<1024] = [0xc0103000]"
    unfolding table_frames_def
    by (subst one [where k = 72]) (simp_all add: pd_ex_rd(2) of_nat_index ix pte_consts pte_get_page_def ptov_def PHYS_BASE_def)
  then have "pd_tables pd_ex 0xc0101000 [0..<768] = [0xc0103000, 0xc0102000]"
    unfolding pd_tables_def
    by (subst one [where k = 32]) (simp_all add: pd_ex_table of_nat_index ix)
  then show ?thesis by (simp add: pd_pages_def)
qed

theorem pagedir_set_page_maps_witness:
  "\<exists>s'. pagedir_set_page 0xc0101000 0x08049000 0xc0108000 True pd_ex = Some (True, s')
     \<and> pagedir_get_page 0xc0101000 0x08049123 s' = Some 0xc0108123 \<and> pagedir_get_page 0xc0101000 0x08048123 s' = Some 0xc0103123"
proof -
  let ?pd = "0xc0101000 :: u32"
  have "pagedir_get_page ?pd 0x08049000 pd_ex = Some 0" "pagedir_get_page ?pd 0x08048123 pd_ex = Some 0xc0103123"
    "map_option fst (pagedir_set_page ?pd 0x08049000 0xc0108000 True pd_ex) = Some True"
    by (code_simp, code_simp, code_simp)
  moreover have "pg_round_down 0x08049123 = 0x08049000" "pg_ofs 0x08049123 = 0x123" "pg_round_down 0x08048123 \<noteq> 0x08049000"
    "pg_ofs 0x08049000 = 0" by (code_simp, code_simp, code_simp, code_simp)
  moreover have "is_user_vaddr 0x08049000" "is_user_vaddr 0x08049123" "is_user_vaddr 0x08048123" "frame_addr 0xc0108000"
    "unat (0xc0108000 - PHYS_BASE) div 4096 < unat (pgstate.init_ram_pages pd_ex)" "?pd \<noteq> init_page_dir pd_ex"
    by (simp_all add: is_user_vaddr_def PHYS_BASE_def frame_addr_iff pd_ex_def)
  ultimately show ?thesis
    using pagedir_set_page_maps [OF pd_ex_wf, where upage = "0x08049000" and kpage = "0xc0108000" and writable = True] by fastforce
qed

theorem pagedir_destroy_gives_back_witness:
  "\<exists>s'. pagedir_destroy 0xc0101000 pd_ex = Some s' \<and> gives_back {0xc0103000, 0xc0102000, 0xc0101000} pd_ex s'"
proof -
  have "0xc0101000 \<noteq> init_page_dir pd_ex" by (simp add: pd_ex_def)
  from pagedir_destroy_gives_back [OF pd_ex_wf this, unfolded pd_ex_pages] pd_ex_used show ?thesis by auto
qed


end
