(* ===== verification/Spec2Isabelle.thy ===== *)
theory Spec2Isabelle
  imports Arith64 Bitmap Sched_Live Fd_Table Stdlib Rc4_Random Stdio_Text Intq Block_Safe Page_Dir
begin

text \<open>
  \<^bold>\<open>A verification development for the Pintos kernel.\<close>

  Pintos is a small operating system for 32-bit x86 machines with one processor. This development models the parts of it
  that are plain C algorithms over kernel data: the thread scheduler with its synchronization objects, the memory
  allocators and page directories, and the library the kernel is built on. File names below are relative to
  \<^verbatim>\<open>src/pintos/src\<close>; definitions have the names of the C functions they translate, and an auxiliary definition for a loop
  or for a part of a function is named after it.

  \<^bold>\<open>Conventions (theory Prelude).\<close> Machine integers are words (\<^typ>\<open>u8\<close>, \<^typ>\<open>u16\<close>, \<^typ>\<open>u32\<close>, \<^typ>\<open>u64\<close>) wherever their width
  matters. A function that can panic, trap, touch memory it must not touch, or loop for ever returns an option: \<^term>\<open>None\<close>
  is every way of not returning, and a failed \<^verbatim>\<open>ASSERT\<close> is \<^term>\<open>None\<close>. State is passed explicitly in records. Counted loops are
  \<^verbatim>\<open>foldM\<close>; loops that end for a reason found in the proof are recursive functions with a measure; loops that need not end
  are partial functions into options, and the theorems about them state that they return. No fuel is used. A null pointer is
  the number 0.

  \<^bold>\<open>Library.\<close>
  \<^item> Arith64: \<^verbatim>\<open>lib/arithmetic.c\<close>, 64-bit division from 32-bit instructions. \<^verbatim>\<open>udiv64\<close> gives the exact quotient and \<^verbatim>\<open>__divdi3\<close>
    truncates; \<^verbatim>\<open>__umoddi3\<close> keeps only 32 bits of the remainder.
  \<^item> Slot_Table and Bitmap: \<^verbatim>\<open>lib/kernel/bitmap.c\<close> and the contract of a slot allocator that it provides. The contract is the
    locale \<^verbatim>\<open>slot_table\<close>, interpreted on the bitmap operations; the groups handed out never overlap.
  \<^item> Linked_List and List_Sort: \<^verbatim>\<open>lib/kernel/list.c\<close> on a heap of \<^verbatim>\<open>prev\<close> and \<^verbatim>\<open>next\<close> pointers. Each operation refines one on
    sequences, with everything outside the list unchanged; the sort terminates, sorts and is a permutation. The locale
    \<^verbatim>\<open>list_order\<close> states what ordered insertion needs of a comparison, and is interpreted on the comparisons the scheduler uses.
  \<^item> Hash_Table and Fd_Table: \<^verbatim>\<open>lib/kernel/hash.c\<close> and the file descriptor table of \<^verbatim>\<open>threads/thread.c\<close>. The hash table
    implements a set of elements up to their keys, for every hash function and comparison that fit together (locale
    \<^verbatim>\<open>hash_client\<close>, interpreted on the descriptor table).
  \<^item> CString, Stdlib, Rc4_Random: \<^verbatim>\<open>lib/string.c\<close>, \<^verbatim>\<open>lib/stdlib.c\<close>, \<^verbatim>\<open>lib/random.c\<close>, on a memory of bytes.
  \<^item> Stdio and Stdio_Text: \<^verbatim>\<open>lib/stdio.c\<close>. The text a format and its arguments denote is a specification of its own;
    \<^verbatim>\<open>__vprintf\<close> emits exactly that text, and \<^verbatim>\<open>snprintf\<close> its longest prefix that fits.
  \<^item> Fixed_Point: \<^verbatim>\<open>threads/fixed-point.h\<close>, with error bounds. Intq: \<^verbatim>\<open>devices/intq.c\<close>, which refines a bounded queue.

  \<^bold>\<open>Threads.\<close> Kernel_State has the state: \<^verbatim>\<open>struct thread\<close>, the semaphores, locks, conditions and shared locks, the lists of
  threads, the clock and the interrupt level. Thread translates \<^verbatim>\<open>threads/thread.c\<close>, Synch \<^verbatim>\<open>threads/synch.c\<close>, and Kernel
  the timer, interrupt dispatch and start-up. A function runs to the point where it gives up the processor; the rest of it
  is kept as calls on the stack of its thread. The step relation \<^verbatim>\<open>kstep\<close> interleaves the calls of all threads with timer
  interrupts wherever interrupts are on. Sched_Inv states an invariant of the states reached from \<^verbatim>\<open>boot\<close>; Sched_Ops,
  Sched_Tick, Sched_Safe and Sched_Reach show that every operation keeps it. It gives that lists of threads are consistent
  and in priority order, that a thread that is switched to has the highest priority, and that a lock stays with its holder
  until released. Sched_Live shows that a sleeping thread is ready when its ticks have passed.

  \<^bold>\<open>Memory.\<close> Vaddr has the address arithmetic of \<^verbatim>\<open>threads/vaddr.h\<close> and \<^verbatim>\<open>threads/pte.h\<close>. Page_Alloc is \<^verbatim>\<open>threads/palloc.c\<close>
  over the bitmap; its memory is a function from word addresses to words. Page_Dir is \<^verbatim>\<open>userprog/pagedir.c\<close> over the page
  allocator: what is mapped is what a look-up finds, and destroying a directory gives back exactly its pages. Block_Alloc
  is \<^verbatim>\<open>threads/malloc.c\<close> over the page allocator.
  Block_Heap states the invariant of its heap and Block_Safe shows that in every history of
  allocations, releases and writes, also by other users of pages, the blocks in use are disjoint and keep their contents,
  and that neither \<^verbatim>\<open>malloc\<close> nor \<^verbatim>\<open>free\<close> panics.

  \<^bold>\<open>Bounds.\<close> Where a theorem needs a bound it is the one of the machine: pools within 4 GB, at least 258 pages of memory for
  the page allocator to start, lists and strings that end. Witnesses apply every theorem with hypotheses at a concrete state.

  \<^bold>\<open>Not modelled.\<close> Assembly (\<^verbatim>\<open>start.S\<close>, \<^verbatim>\<open>switch.S\<close>, \<^verbatim>\<open>intr-stubs.S\<close>, \<^verbatim>\<open>loader.S\<close>) and device drivers, whose meaning is that of
  hardware behind I/O ports; \<^verbatim>\<open>threads/init.c\<close>, which only sequences them; the file system, whose \<^verbatim>\<open>cache.c\<close> is unfinished and
  carries \<^verbatim>\<open>inode.c\<close> and all above it; user processes, system calls and virtual memory, which rest on the file system;
  \<^verbatim>\<open>threads/ready-list.c\<close>, which no build uses; user programs and host utilities. Locks inside the page and block
  allocators and in the interrupt queue are not repeated there: the locks themselves are those of the thread model. The
  answers of \<^verbatim>\<open>malloc\<close> inside the library are arguments of the definitions.
\<close>

end
